(* ===== verification/Prelude.thy ===== *)
theory Prelude
  imports Main "HOL-Library.Word"
begin

text \<open>
  Vocabulary shared by the whole development: the machine integers of the LP64 RISC-V target, the
  byte-addressed physical memory with its little-endian accesses, the results of code that may
  panic, fault or run for ever, and the lemmas about them that the component theories use.

  Memory is a total function from 64-bit addresses to bytes. An access of \<open>n\<close> bytes at
  \<open>a\<close> touches \<open>span a n\<close>; every operation that writes memory comes with a lemma that it
  leaves everything outside a span alone, and that is the way all framing is done here. The
  collection \<open>mem_simps\<close> holds the rewrite rules for reads after writes.
\<close>

unbundle bit_operations_syntax

section \<open>Machine integers\<close>

type_synonym u8 = "8 word"
type_synonym u16 = "16 word"
type_synonym u32 = "32 word"
type_synonym u64 = "64 word"

text \<open>\<open>char\<close> is unsigned in the RISC-V ABI, so characters are bytes.\<close>

abbreviation byte_of :: "char \<Rightarrow> u8" where
  "byte_of c \<equiv> of_nat (of_char c :: nat)"

abbreviation bytes_of :: "string \<Rightarrow> u8 list" where
  "bytes_of s \<equiv> map byte_of s"

section \<open>Results\<close>

text \<open>
  \<open>Panic fmt args\<close> is the \<open>PANIC\<close> macro of \<open>kernel/kernel.h\<close> (print the message, then spin);
  \<open>NullAccess\<close> an access through the null pointer; \<open>OutOfBounds\<close> an access past the end of a C array
  or string literal; \<open>MissingArg\<close> a \<open>va_arg\<close> past the last argument; \<open>DivByZero\<close> a division
  by zero; \<open>Hang\<close> a loop that never ends.
\<close>

datatype fault =
    Panic string "u64 list"
  | NullAccess
  | OutOfBounds
  | MissingArg
  | DivByZero
  | Hang

type_synonym 'a res = "fault + 'a"

definition bind_res :: "'a res \<Rightarrow> ('a \<Rightarrow> 'b res) \<Rightarrow> 'b res" where
  "bind_res r f = (case r of Inl e \<Rightarrow> Inl e | Inr x \<Rightarrow> f x)"

lemma bind_res_simps [simp]:
  "bind_res (Inl e) f = Inl e"
  "bind_res (Inr x) f = f x"
  by (simp_all add: bind_res_def)

lemma bind_res_Inr_iff: "bind_res r f = Inr y \<longleftrightarrow> (\<exists>x. r = Inr x \<and> f x = Inr y)"
  by (cases r) auto

lemma bind_res_cong [fundef_cong]:
  "r = r' \<Longrightarrow> (\<And>x. r' = Inr x \<Longrightarrow> f x = g x) \<Longrightarrow> bind_res r f = bind_res r' g"
  by (cases r') auto

text \<open>A loop body run over a list, stopping at the first fault.\<close>

fun run_all :: "('x \<Rightarrow> 's \<Rightarrow> 's res) \<Rightarrow> 'x list \<Rightarrow> 's \<Rightarrow> 's res" where
  "run_all f [] s = Inr s"
| "run_all f (x # xs) s = bind_res (f x s) (run_all f xs)"

text \<open>A computation given as an option, where \<open>None\<close> is a loop that never ends.\<close>

definition or_hang :: "'a option \<Rightarrow> 'a res" where
  "or_hang r = (case r of None \<Rightarrow> Inl Hang | Some x \<Rightarrow> Inr x)"

lemma or_hang_simps [simp]: "or_hang None = Inl Hang" "or_hang (Some x) = Inr x"
  by (simp_all add: or_hang_def)

section \<open>Spans of addresses\<close>

definition span :: "u64 \<Rightarrow> nat \<Rightarrow> u64 set" where
  "span a n = {x. unat (x - a) < n}"

lemma span_0 [simp]: "span a 0 = {}"
  by (simp add: span_def)

lemma in_span_iff:
  assumes "unat a + n \<le> 2 ^ 64"
  shows "x \<in> span a n \<longleftrightarrow> unat a \<le> unat x \<and> unat x < unat a + n"
proof (cases "a \<le> x")
  case True
  then have "unat (x - a) = unat x - unat a" "unat a \<le> unat x"
    by (simp_all add: unat_sub word_le_nat_alt)
  then show ?thesis by (auto simp: span_def)
next
  case False
  then have less: "unat x < unat a" by (simp add: word_le_nat_alt)
  then have "unat (x - a) = 2 ^ 64 + unat x - unat a"
    by (simp add: unat_sub_if')
  with assms less show ?thesis by (auto simp: span_def)
qed

lemma span_self [simp]: "0 < n \<Longrightarrow> a \<in> span a n"
  by (simp add: span_def)

lemma span_mono: "n \<le> k \<Longrightarrow> span a n \<subseteq> span a k"
  by (auto simp: span_def)

lemma in_span_Suc: "x \<in> span a (Suc n) \<longleftrightarrow> x = a \<or> x \<in> span (a + 1) n"
proof (cases "x = a")
  case False
  then have nz: "x - a \<noteq> 0" by simp
  have "x - (a + 1) = (x - a) - 1" by (simp add: algebra_simps)
  with nz have "unat (x - (a + 1)) = unat (x - a) - 1" "0 < unat (x - a)"
    by (metis unat_minus_one, metis unat_gt_0)
  with False show ?thesis by (auto simp: span_def)
qed (simp add: span_def)

lemma not_in_span_succ:
  assumes "n < 2 ^ 64"
  shows "a \<notin> span (a + 1) n"
proof -
  have "a - (a + 1) = (- 1 :: u64)" by simp
  then have "unat (a - (a + 1)) = 2 ^ 64 - 1"
    by (simp add: unsigned_minus_1_eq_mask mask_eq_exp_minus_1)
  with assms show ?thesis by (simp add: span_def)
qed

lemma unat_bound:
  "unat (x8 :: u8) < 2 ^ 8" "unat (x16 :: u16) < 2 ^ 16" "unat (x32 :: u32) < 2 ^ 32" "unat (x64 :: u64) < 2 ^ 64"
  using unsigned_less [of x8, where 'a = nat] unsigned_less [of x16, where 'a = nat]
    unsigned_less [of x32, where 'a = nat] unsigned_less [of x64, where 'a = nat] by simp_all

lemma ucast_of_nat_32_64: "i < 2 ^ 32 \<Longrightarrow> (ucast (of_nat i :: u32) :: u64) = of_nat i"
  by (simp add: unsigned_of_nat take_bit_nat_eq_self)

lemma unat_ucast_8_32: "unat (ucast (x :: u8) :: u32) = unat x"
  and unat_ucast_8_64: "unat (ucast (x :: u8) :: u64) = unat x"
  and unat_ucast_16_64: "unat (ucast (z :: u16) :: u64) = unat z"
  and unat_ucast_32_64: "unat (ucast (y :: u32) :: u64) = unat y"
  using unat_bound(1) [of x] unat_bound(2) [of z] unat_bound(3) [of y]
  by (simp_all add: unsigned_ucast_eq take_bit_nat_eq_self)

lemma ucast_ucast_64: "unat (a :: u64) < 2 ^ 32 \<Longrightarrow> ucast (ucast a :: u32) = a"
  by (intro word_unat_eq_iff [THEN iffD2]) (simp add: unat_ucast_32_64 unsigned_ucast_eq unsigned_take_bit_eq take_bit_nat_eq_self)

lemma sint_of_nat_32: "i < 2 ^ 31 \<Longrightarrow> sint (of_nat i :: u32) = int i"
  by (simp add: signed_of_nat signed_take_bit_int_eq_self)

lemma scast_of_nat_32_64: "i < 2 ^ 31 \<Longrightarrow> (scast (of_nat i :: u32) :: u64) = of_nat i"
  by (metis sint_of_nat_32 of_int_of_nat_eq of_int_sint)

lemma unat_of_nat_64: "i < 2 ^ 64 \<Longrightarrow> unat (of_nat i :: u64) = i"
  by (simp add: unat_of_nat)

lemma unat_plus_of_nat: "unat (a :: u64) + n < 2 ^ 64 \<Longrightarrow> unat (a + of_nat n) = unat a + n"
  by (subst unat_add_lem [THEN iffD1]) (simp_all add: unat_of_nat)

lemma unat_succ: "unat (a :: u64) + 1 < 2 ^ 64 \<Longrightarrow> unat (a + 1) = Suc (unat a)"
  using unat_plus_of_nat [of a 1] by simp

section \<open>Memory\<close>

type_synonym mem = "u64 \<Rightarrow> u8"

named_theorems mem_simps

fun load_le :: "nat \<Rightarrow> mem \<Rightarrow> u64 \<Rightarrow> u64" where
  "load_le 0 m a = 0"
| "load_le (Suc n) m a = ucast (m a) OR push_bit 8 (load_le n m (a + 1))"

fun store_le :: "nat \<Rightarrow> mem \<Rightarrow> u64 \<Rightarrow> u64 \<Rightarrow> mem" where
  "store_le 0 m a v = m"
| "store_le (Suc n) m a v = store_le n (m(a := ucast v)) (a + 1) (drop_bit 8 v)"

abbreviation load64 :: "mem \<Rightarrow> u64 \<Rightarrow> u64" where
  "load64 \<equiv> load_le 8"

abbreviation store64 :: "mem \<Rightarrow> u64 \<Rightarrow> u64 \<Rightarrow> mem" where
  "store64 \<equiv> store_le 8"

definition load32 :: "mem \<Rightarrow> u64 \<Rightarrow> u32" where
  "load32 m a = ucast (load_le 4 m a)"

definition store32 :: "mem \<Rightarrow> u64 \<Rightarrow> u32 \<Rightarrow> mem" where
  "store32 m a v = store_le 4 m a (ucast v)"

definition load16 :: "mem \<Rightarrow> u64 \<Rightarrow> u16" where
  "load16 m a = ucast (load_le 2 m a)"

definition store16 :: "mem \<Rightarrow> u64 \<Rightarrow> u16 \<Rightarrow> mem" where
  "store16 m a v = store_le 2 m a (ucast v)"

lemma store_le_other:
  "n < 2 ^ 64 \<Longrightarrow> x \<notin> span a n \<Longrightarrow> store_le n m a v x = m x"
  by (induction n m a v rule: store_le.induct) (auto simp: in_span_Suc)

lemma load_le_cong:
  "n < 2 ^ 64 \<Longrightarrow> (\<And>x. x \<in> span a n \<Longrightarrow> m x = m' x) \<Longrightarrow> load_le n m a = load_le n m' a"
proof (induction n arbitrary: a)
  case (Suc n)
  have "load_le n m (a + 1) = load_le n m' (a + 1)"
    using Suc.prems by (intro Suc.IH) (auto simp: in_span_Suc)
  moreover have "m a = m' a" using Suc.prems by simp
  ultimately show ?case by simp
qed simp

lemma load_le_store_le_other:
  assumes "n < 2 ^ 64" "k < 2 ^ 64" "span a n \<inter> span b k = {}"
  shows "load_le k (store_le n m a v) b = load_le k m b"
  using assms(3) by (intro load_le_cong [OF assms(2)] store_le_other [OF assms(1)]) blast

lemma byte_shift_take_bit:
  "ucast (ucast (v :: u64) :: u8) OR push_bit 8 (take_bit (8 * n) (drop_bit 8 v)) = take_bit (8 * Suc n) v"
  by (rule bit_word_eqI) (auto simp: bit_simps)

lemma load_le_store_le_same:
  "n < 2 ^ 64 \<Longrightarrow> load_le n (store_le n m a v) a = take_bit (8 * n) v"
proof (induction n arbitrary: m a v)
  case (Suc n)
  have "store_le n (m(a := ucast v)) (a + 1) (drop_bit 8 v) a = ucast v"
    using Suc.prems by (subst store_le_other) (auto simp: not_in_span_succ)
  moreover have "load_le n (store_le n (m(a := ucast v)) (a + 1) (drop_bit 8 v)) (a + 1)
      = take_bit (8 * n) (drop_bit 8 v)"
    using Suc.prems by (intro Suc.IH) simp
  ultimately show ?case
    by (simp only: load_le.simps store_le.simps byte_shift_take_bit)
qed simp

lemma load64_store64_same [mem_simps]: "load64 (store64 m a v) a = v"
  by (subst load_le_store_le_same) (simp_all add: take_bit_word_eq_self)

lemma load32_store32_same [mem_simps]: "load32 (store32 m a v) a = v"
  unfolding load32_def store32_def
  by (subst load_le_store_le_same) (simp, rule bit_word_eqI, auto simp: bit_simps)

lemma load16_store16_same [mem_simps]: "load16 (store16 m a v) a = v"
  unfolding load16_def store16_def
  by (subst load_le_store_le_same) (simp, rule bit_word_eqI, auto simp: bit_simps)

lemma store64_other: "x \<notin> span a 8 \<Longrightarrow> store64 m a v x = m x"
  by (rule store_le_other) simp_all

lemma load64_cong: "(\<And>x. x \<in> span a 8 \<Longrightarrow> m x = m' x) \<Longrightarrow> load64 m a = load64 m' a"
  by (rule load_le_cong) simp_all

lemma load64_store64_other:
  "span a 8 \<inter> span b 8 = {} \<Longrightarrow> load64 (store64 m a v) b = load64 m b"
  by (rule load_le_store_le_other) simp_all

lemma store_le_apply:
  "n < 2 ^ 64 \<Longrightarrow> store_le n m a v x =
     (if x \<in> span a n then ucast (drop_bit (8 * unat (x - a)) v) else m x)"
proof (induction n m a v rule: store_le.induct)
  case (2 n m a v)
  show ?case
  proof (cases "x \<in> span (a + 1) n")
    case True
    have "unat (x - (a + 1)) + 1 < 2 ^ 64" using True 2 by (simp add: span_def)
    then have "unat (x - (a + 1) + 1) = Suc (unat (x - (a + 1)))" by (rule unat_succ)
    then have "unat (x - a) = Suc (unat (x - (a + 1)))" by (simp add: algebra_simps)
    with True 2 show ?thesis by (simp add: in_span_Suc add.commute del: fun_upd_apply)
  next
    case False
    with 2 show ?thesis by (auto simp: in_span_Suc fun_upd_same fun_upd_other simp del: fun_upd_apply)
  qed
qed simp

lemma store64_commute:
  "span a 8 \<inter> span b 8 = {} \<Longrightarrow> store64 (store64 m a v) b w = store64 (store64 m b w) a v"
  by (rule ext) (auto simp: store_le_apply)

declare load_le.simps [simp del] store_le.simps [simp del]

text \<open>Two accesses are disjoint when their addresses, read as naturals, are eight apart.\<close>

lemma span_disjoint:
  assumes "unat a + n \<le> 2 ^ 64" "unat b + k \<le> 2 ^ 64"
    and "unat a + n \<le> unat b \<or> unat b + k \<le> unat a"
  shows "span a n \<inter> span b k = {}"
  using assms by (auto simp: in_span_iff)

section \<open>Fields of structures\<close>

lemma span_field: "unat x + n \<le> N \<Longrightarrow> N < 2 ^ 64 \<Longrightarrow> span (a + x) n \<subseteq> span a N"
proof
  fix z assume A: "unat x + n \<le> N" "N < 2 ^ 64" "z \<in> span (a + x) n"
  have "unat (p + q) \<le> unat p + unat q" for p q :: u64 by (simp add: unat_word_ariths)
  from this [of "z - (a + x)" x] have "unat (z - (a + x) + x) \<le> unat (z - (a + x)) + unat x" .
  moreover have "z - a = z - (a + x) + x" by simp
  ultimately have "unat (z - a) \<le> unat (z - (a + x)) + unat x" by (simp only:)
  then show "z \<in> span a N" using A by (simp add: span_def)
qed

lemma fields_apart:
  assumes "unat x + n \<le> unat y" "unat y + k < 2 ^ 64"
  shows "span (a + x) n \<inter> span (a + y) k = {}"
proof -
  have "z \<notin> span (a + x) n" if z: "z \<in> span (a + y) k" for z
  proof -
    have le: "x \<le> y" using assms(1) by (simp add: word_le_nat_alt)
    have "unat (z - (a + y)) + (unat y - unat x) < 2 ^ 64" using z assms(2) by (simp add: span_def)
    then have "unat (z - (a + y) + (y - x)) = unat (z - (a + y)) + (unat y - unat x)"
      using le by (subst unat_add_lem [THEN iffD1]) (simp_all add: unat_sub)
    moreover have "z - (a + x) = z - (a + y) + (y - x)" by simp
    ultimately have "unat (z - (a + x)) = unat (z - (a + y)) + (unat y - unat x)" by (simp only:)
    then show ?thesis using assms(1) by (simp add: span_def)
  qed
  then show ?thesis by blast
qed

lemma fields_apart_sym: "unat x + n \<le> unat y \<Longrightarrow> unat y + k < 2 ^ 64 \<Longrightarrow> span (a + y) k \<inter> span (a + x) n = {}"
  using fields_apart by blast

lemma head_apart: "n \<le> unat y \<Longrightarrow> unat y + k < 2 ^ 64 \<Longrightarrow> span a n \<inter> span (a + y) k = {}"
  using fields_apart [of 0 n y k a] by simp

lemma head_apart_sym: "n \<le> unat y \<Longrightarrow> unat y + k < 2 ^ 64 \<Longrightarrow> span (a + y) k \<inter> span a n = {}"
  using head_apart by blast

lemmas apart = fields_apart fields_apart_sym head_apart head_apart_sym

lemma store16_other: "z \<notin> span a 2 \<Longrightarrow> store16 m a v z = m z"
  by (simp add: store16_def store_le_other)

lemma store32_other: "z \<notin> span a 4 \<Longrightarrow> store32 m a v z = m z"
  by (simp add: store32_def store_le_other)

lemma load16_cong: "(\<And>z. z \<in> span a 2 \<Longrightarrow> m' z = m z) \<Longrightarrow> load16 m' a = load16 m a"
  unfolding load16_def by (subst load_le_cong [of 2 a m' m]) simp_all

lemma load32_cong: "(\<And>z. z \<in> span a 4 \<Longrightarrow> m' z = m z) \<Longrightarrow> load32 m' a = load32 m a"
  unfolding load32_def by (subst load_le_cong [of 4 a m' m]) simp_all

lemma load_le_zero: "load_le n (\<lambda>_. 0) a = 0"
  by (induction n arbitrary: a) (simp_all add: load_le.simps)

lemma load16_zero: "load16 (\<lambda>_. 0) a = 0" and load32_zero: "load32 (\<lambda>_. 0) a = 0"
  by (simp_all add: load16_def load32_def load_le_zero)

lemma load_store_apart [mem_simps]:
  "span a 2 \<inter> span c 2 = {} \<Longrightarrow> load16 (store16 m a v16) c = load16 m c"
  "span a 4 \<inter> span c 2 = {} \<Longrightarrow> load16 (store32 m a v32) c = load16 m c"
  "span a 8 \<inter> span c 2 = {} \<Longrightarrow> load16 (store64 m a v64) c = load16 m c"
  "span a 2 \<inter> span c 4 = {} \<Longrightarrow> load32 (store16 m a v16) c = load32 m c"
  "span a 4 \<inter> span c 4 = {} \<Longrightarrow> load32 (store32 m a v32) c = load32 m c"
  "span a 8 \<inter> span c 4 = {} \<Longrightarrow> load32 (store64 m a v64) c = load32 m c"
  "span a 2 \<inter> span c 8 = {} \<Longrightarrow> load64 (store16 m a v16) c = load64 m c"
  "span a 4 \<inter> span c 8 = {} \<Longrightarrow> load64 (store32 m a v32) c = load64 m c"
  "span a 8 \<inter> span c 8 = {} \<Longrightarrow> load64 (store64 m a v64) c = load64 m c"
  by (simp_all add: load16_def load32_def store16_def store32_def load_le_store_le_other)

lemma not_in_field: "z \<notin> span a N \<Longrightarrow> unat x + n \<le> N \<Longrightarrow> N < 2 ^ 64 \<Longrightarrow> z \<notin> span (a + x) n"
  using span_field by blast

lemma not_in_head: "z \<notin> span a N \<Longrightarrow> n \<le> N \<Longrightarrow> z \<notin> span a n"
  using span_mono by blast

lemmas store_other = store16_other store32_other store64_other

lemma field_cong:
  assumes "\<And>z. z \<in> span a N \<Longrightarrow> m' z = m z" "N < 2 ^ 64"
  shows "unat x + 8 \<le> N \<Longrightarrow> load64 m' (a + x) = load64 m (a + x)" "unat x + 4 \<le> N \<Longrightarrow> load32 m' (a + x) = load32 m (a + x)"
    "unat x + 2 \<le> N \<Longrightarrow> load16 m' (a + x) = load16 m (a + x)"
proof -
  have eq: "m' z = m z" if "z \<in> span (a + x) n" "unat x + n \<le> N" for z n
    using that span_field [of x n N a] assms by auto
  show "unat x + 8 \<le> N \<Longrightarrow> load64 m' (a + x) = load64 m (a + x)" using eq by (intro load64_cong) auto
  show "unat x + 4 \<le> N \<Longrightarrow> load32 m' (a + x) = load32 m (a + x)" using eq by (intro load32_cong) auto
  show "unat x + 2 \<le> N \<Longrightarrow> load16 m' (a + x) = load16 m (a + x)" using eq by (intro load16_cong) auto
qed

lemma head_cong:
  assumes "\<And>z. z \<in> span a N \<Longrightarrow> m' z = m z" "N < 2 ^ 64"
  shows "8 \<le> N \<Longrightarrow> load64 m' a = load64 m a" "4 \<le> N \<Longrightarrow> load32 m' a = load32 m a"
  using field_cong(1,2) [of a N m' m 0, OF assms] by simp_all

end
