(* ===== verification/Klib_Mem.thy ===== *)
theory Klib_Mem
  imports Prelude
begin

text \<open>
  The memory routines of \<open>klib/stdlib.c\<close> (\<open>memset\<close>, \<open>memcpy\<close>, \<open>memcmp\<close>) and the inline
  arithmetic of \<open>klib/stdlib.h\<close>. The byte loops touch memory one address at a time, as the code
  does, and the first access through the null pointer is a fault. The \<open>dest\<close> that \<open>memset\<close> and
  \<open>memcpy\<close> return is their argument and is left out of the result.
\<close>

section \<open>Arithmetic of \<open>stdlib.h\<close>\<close>

definition PAGE_SIZE :: u64 where
  "PAGE_SIZE = 4096"

definition is_aligned :: "u64 \<Rightarrow> u64 \<Rightarrow> bool" where
  "is_aligned v align = (let align = (if align = 0 then 8 else align) in v mod align = 0)"

definition align_up :: "u64 \<Rightarrow> u64 \<Rightarrow> u64" where
  "align_up v align = (v + align - 1) AND NOT (align - 1)"

definition get_pages_from_bytes :: "u64 \<Rightarrow> u32" where
  "get_pages_from_bytes bytes = ucast ((bytes + PAGE_SIZE - 1) div PAGE_SIZE)"

lemma is_aligned_page_iff: "is_aligned v PAGE_SIZE \<longleftrightarrow> 4096 dvd unat v"
  by (simp add: is_aligned_def PAGE_SIZE_def dvd_eq_mod_eq_0 unat_mod flip: unat_eq_0)

section \<open>\<open>memset\<close>\<close>

fun memset_loop :: "nat \<Rightarrow> mem \<Rightarrow> u64 \<Rightarrow> u8 \<Rightarrow> mem res" where
  "memset_loop 0 m p b = Inr m"
| "memset_loop (Suc n) m p b =
     (if p = 0 then Inl NullAccess else memset_loop n (m(p := b)) (p + 1) b)"

definition memset :: "mem \<Rightarrow> u64 \<Rightarrow> u32 \<Rightarrow> u64 \<Rightarrow> mem res" where
  "memset m dest val n = memset_loop (unat n) m dest (ucast val)"

section \<open>\<open>memcpy\<close>\<close>

fun memcpy_loop :: "nat \<Rightarrow> mem \<Rightarrow> u64 \<Rightarrow> u64 \<Rightarrow> mem res" where
  "memcpy_loop 0 m d s = Inr m"
| "memcpy_loop (Suc n) m d s =
     (if d = 0 \<or> s = 0 then Inl NullAccess else memcpy_loop n (m(d := m s)) (d + 1) (s + 1))"

definition memcpy :: "mem \<Rightarrow> u64 \<Rightarrow> u64 \<Rightarrow> u64 \<Rightarrow> mem res" where
  "memcpy m dest src len = memcpy_loop (unat len) m dest src"

section \<open>\<open>memcmp\<close>\<close>

text \<open>
  The index is a \<open>uint32_t\<close> compared with a \<open>size_t\<close>, so it wraps before it can reach a bound of
  \<open>2 ^ 32\<close> or more: the loop need not end, and \<open>None\<close> is the run that does not.
\<close>

partial_function (option) memcmp_loop :: "mem \<Rightarrow> u64 \<Rightarrow> u64 \<Rightarrow> u64 \<Rightarrow> u32 \<Rightarrow> u32 option" where
  "memcmp_loop m a b n i =
     (if (ucast i :: u64) < n then
        (let x = m (a + ucast i); y = m (b + ucast i) in
         if x \<noteq> y then Some (ucast x - ucast y) else memcmp_loop m a b n (i + 1))
      else Some 0)"

definition memcmp :: "mem \<Rightarrow> u64 \<Rightarrow> u64 \<Rightarrow> u64 \<Rightarrow> u32 option" where
  "memcmp m p1 p2 n = memcmp_loop m p1 p2 n 0"

section \<open>What they compute\<close>

lemma memset_loop_ok:
  assumes "p \<noteq> 0" "unat p + n \<le> 2 ^ 64"
  shows "memset_loop n m p b = Inr (\<lambda>x. if x \<in> span p n then b else m x)"
  using assms
proof (induction n m p b rule: memset_loop.induct)
  case (2 n m p b)
  have "memset_loop n (m(p := b)) (p + 1) b = Inr (\<lambda>x. if x \<in> span (p + 1) n then b else (m(p := b)) x)"
  proof (cases "n = 0")
    case False
    with "2.prems" have "unat (p + 1) = Suc (unat p)" by (intro unat_succ) simp
    with "2.prems" show ?thesis
      by (intro "2.IH") (auto simp flip: unat_eq_0)
  qed (simp add: fun_eq_iff)
  with "2.prems"(1) show ?case
    by (auto simp: in_span_Suc fun_eq_iff)
qed simp

lemma memset_ok:
  "p \<noteq> 0 \<Longrightarrow> unat p + unat n \<le> 2 ^ 64 \<Longrightarrow>
   memset m p v n = Inr (\<lambda>x. if x \<in> span p (unat n) then ucast v else m x)"
  by (simp add: memset_def memset_loop_ok)

lemma memset_null: "n \<noteq> 0 \<Longrightarrow> memset m 0 v n = Inl NullAccess"
  by (cases "unat n") (auto simp: memset_def unat_eq_zero)

text \<open>A forward copy is right unless the destination starts inside the source.\<close>

definition copy_safe :: "u64 \<Rightarrow> u64 \<Rightarrow> nat \<Rightarrow> bool" where
  "copy_safe d s n \<longleftrightarrow> unat d + n \<le> 2 ^ 64 \<and> unat s + n \<le> 2 ^ 64 \<and>
     (unat d \<le> unat s \<or> unat s + n \<le> unat d)"

lemma copy_safe_keeps:
  assumes "copy_safe d s (Suc n)" "x \<in> span d (Suc n)" "x \<noteq> d"
  shows "s + (x - d) \<noteq> d"
proof
  assume eq: "s + (x - d) = d"
  have d: "unat d \<le> unat x" "unat x \<le> unat d + n"
    using assms by (auto simp: in_span_iff copy_safe_def)
  moreover have "unat x \<noteq> unat d" using assms(3) by (metis word_unat_eq_iff)
  ultimately have lt: "unat d < unat x" by simp
  then have "unat (x - d) = unat x - unat d" by (simp add: unat_sub word_le_nat_alt)
  moreover from this d assms(1) have "unat (s + (x - d)) = unat s + (unat x - unat d)"
    by (subst unat_add_lem [THEN iffD1]) (auto simp: copy_safe_def)
  ultimately show False using eq d lt assms(1) by (auto simp: copy_safe_def)
qed

lemma memcpy_loop_ok:
  assumes "d \<noteq> 0" "s \<noteq> 0" "copy_safe d s n"
  shows "memcpy_loop n m d s = Inr (\<lambda>x. if x \<in> span d n then m (s + (x - d)) else m x)"
  using assms
proof (induction n m d s rule: memcpy_loop.induct)
  case (2 n m d s)
  let ?m = "m(d := m s)"
  have IH: "memcpy_loop n ?m (d + 1) (s + 1) =
      Inr (\<lambda>x. if x \<in> span (d + 1) n then ?m (s + 1 + (x - (d + 1))) else ?m x)"
  proof (cases "n = 0")
    case False
    have "unat d + 1 < 2 ^ 64" "unat s + 1 < 2 ^ 64"
      using "2.prems"(3) False by (auto simp: copy_safe_def)
    then have u: "unat (d + 1) = Suc (unat d)" "unat (s + 1) = Suc (unat s)"
      by (simp_all add: unat_succ)
    with "2.prems" show ?thesis
      by (intro "2.IH") (auto simp: copy_safe_def simp flip: unat_eq_0)
  qed (simp add: fun_eq_iff)
  have keep: "?m (s + 1 + (x - (d + 1))) = m (s + (x - d))" if "x \<in> span (d + 1) n" for x
  proof -
    have "x \<noteq> d" using that "2.prems"(3) by (auto simp: copy_safe_def not_in_span_succ)
    with that "2.prems"(3) have "s + (x - d) \<noteq> d"
      by (intro copy_safe_keeps) (auto simp: in_span_Suc)
    moreover have "s + 1 + (x - (d + 1)) = s + (x - d)" by simp
    ultimately show ?thesis by simp
  qed
  have "(\<lambda>x. if x \<in> span (d + 1) n then ?m (s + 1 + (x - (d + 1))) else ?m x)
      = (\<lambda>x. if x \<in> span d (Suc n) then m (s + (x - d)) else m x)" (is "?f = ?g")
  proof
    fix x show "?f x = ?g x"
      using keep [of x] by (cases "x \<in> span (d + 1) n") (simp_all only: in_span_Suc, simp_all)
  qed
  with IH "2.prems"(1,2) show ?case by simp
qed simp

lemma memcpy_ok:
  assumes "d \<noteq> 0" "s \<noteq> 0" "copy_safe d s (unat n)"
  shows "memcpy m d s n = Inr (\<lambda>x. if x \<in> span d (unat n) then m (s + (x - d)) else m x)"
  using assms by (simp add: memcpy_def memcpy_loop_ok)

text \<open>
  \<open>memcmp\<close> against its reference: the first index below \<open>n\<close> where the buffers differ decides.
\<close>

definition first_diff :: "mem \<Rightarrow> u64 \<Rightarrow> u64 \<Rightarrow> nat \<Rightarrow> nat \<Rightarrow> nat option" where
  "first_diff m a b i n = find (\<lambda>j. m (a + of_nat j) \<noteq> m (b + of_nat j)) [i..<n]"

definition byte_diff :: "u8 \<Rightarrow> u8 \<Rightarrow> u32" where
  "byte_diff x y = ucast x - ucast y"

lemma sint_byte_diff: "sint (byte_diff x y) = uint x - uint y"
proof -
  have "uint x < 256" "uint y < 256" "0 \<le> uint x" "0 \<le> uint y"
    using unsigned_less [of x, where 'a = int] unsigned_less [of y, where 'a = int] by simp_all
  then have "- 2147483648 \<le> uint x - uint y" "uint x - uint y < 2147483648" by (linarith, linarith)
  moreover have "byte_diff x y = word_of_int (uint x - uint y)"
    by (simp add: byte_diff_def)
  ultimately show ?thesis
    by (simp only: sint_sbintrunc') (simp add: signed_take_bit_int_eq_self)
qed

lemma memcmp_loop_spec:
  assumes "i \<le> unat n" "unat n < 2 ^ 32"
  shows "memcmp_loop m a b n (of_nat i) = Some (case first_diff m a b i (unat n) of
     None \<Rightarrow> 0 | Some j \<Rightarrow> byte_diff (m (a + of_nat j)) (m (b + of_nat j)))"
  using assms
proof (induction "unat n - i" arbitrary: i)
  case 0
  then have i: "i = unat n" by simp
  then have "(ucast (of_nat i :: u32) :: u64) = n"
    using 0 ucast_of_nat_32_64 [of "unat n"] by simp
  with i show ?case by (subst memcmp_loop.simps) (simp add: first_diff_def)
next
  case (Suc d)
  then have less: "i < unat n" by simp
  with Suc have uc: "(ucast (of_nat i :: u32) :: u64) = of_nat i"
    by (simp add: ucast_of_nat_32_64)
  have lt: "(of_nat i :: u64) < n"
    using less Suc.prems by (simp add: word_less_nat_alt unat_of_nat)
  have upt: "[i..<unat n] = i # [Suc i..<unat n]" using less by (simp add: upt_conv_Cons)
  have "memcmp_loop m a b n (of_nat (Suc i)) = Some (case first_diff m a b (Suc i) (unat n) of
     None \<Rightarrow> 0 | Some j \<Rightarrow> byte_diff (m (a + of_nat j)) (m (b + of_nat j)))"
    using Suc less by (intro Suc.hyps(1)) simp_all
  with lt uc upt show ?case
    by (subst memcmp_loop.simps) (simp add: Let_def first_diff_def byte_diff_def add.commute)
qed

lemma memcmp_loop_None:
  assumes "2 ^ 32 \<le> unat n" "\<And>i :: u32. m (a + ucast i) = m (b + ucast i)"
  shows "memcmp_loop m a b n i = None"
proof (rule ccontr)
  assume "memcmp_loop m a b n i \<noteq> None"
  then obtain r where "memcmp_loop m a b n i = Some r" by blast
  then have "\<not> (2 ^ 32 \<le> unat n \<and> (\<forall>i :: u32. m (a + ucast i) = m (b + ucast i)))"
  proof (rule memcmp_loop.raw_induct
      [where P = "\<lambda>m a b n i r. \<not> (2 ^ 32 \<le> unat n \<and> (\<forall>i :: u32. m (a + ucast i) = m (b + ucast i)))", rotated])
    fix f and m :: mem and a b n :: u64 and i :: u32 and r
    assume IH: "\<And>m a b n i r. f m a b n i = Some r \<Longrightarrow>
        \<not> (2 ^ 32 \<le> unat n \<and> (\<forall>i :: u32. m (a + ucast i) = m (b + ucast i)))"
      and eq: "(if ucast i < n then let x = m (a + ucast i); y = m (b + ucast i)
          in if x \<noteq> y then Some (ucast x - ucast y) else f m a b n (i + 1) else Some 0) = Some (r :: u32)"
    show "\<not> (2 ^ 32 \<le> unat n \<and> (\<forall>i :: u32. m (a + ucast i) = m (b + ucast i)))"
    proof
      assume H: "2 ^ 32 \<le> unat n \<and> (\<forall>i :: u32. m (a + ucast i) = m (b + ucast i))"
      have "unat (ucast i :: u64) < 2 ^ 32" by (simp only: unat_ucast_32_64 unat_bound)
      with H have "(ucast i :: u64) < n" by (simp add: word_less_nat_alt)
      with eq H have "f m a b n (i + 1) = Some r" by (simp add: Let_def)
      from IH [OF this] H show False by blast
    qed
  qed
  with assms show False by blast
qed

section \<open>Rounding\<close>

lemma align_up_div:
  assumes "k < 64" "unat v + 2 ^ k \<le> 2 ^ 64"
  shows "unat (align_up v (2 ^ k)) = (unat v + 2 ^ k - 1) div 2 ^ k * 2 ^ k"
proof -
  have "align_up v (2 ^ k) = (v + (2 ^ k - 1)) AND NOT (mask k)"
    by (simp add: align_up_def mask_eq_exp_minus_1 add_diff_eq)
  also have "\<dots> = push_bit k (drop_bit k (v + (2 ^ k - 1)))"
    by (rule bit_word_eqI) (auto simp: bit_simps)
  finally have al: "align_up v (2 ^ k) = push_bit k (drop_bit k (v + (2 ^ k - 1)))" .
  have "(1 :: nat) \<le> 2 ^ k" by simp
  then have "(of_nat (2 ^ k - 1) :: u64) = 2 ^ k - 1"
    by (simp only: of_nat_diff) simp
  moreover have "of_nat (unat v) = v" by simp
  ultimately have "v + (2 ^ k - 1) = of_nat (unat v + (2 ^ k - 1))"
    by (simp only: of_nat_add)
  then have "unat (v + (2 ^ k - 1)) = unat v + 2 ^ k - 1"
    using assms by (simp add: unat_of_nat take_bit_nat_eq_self)
  moreover have "unat (push_bit k (drop_bit k w)) = unat w div 2 ^ k * 2 ^ k" for w :: u64
  proof -
    have "unat w div 2 ^ k * 2 ^ k < 2 ^ 64"
      using unat_bound(4) [of w] by (intro le_less_trans [OF div_times_less_eq_dividend])
    moreover have "take_bit 64 (unat w) = unat w"
      using unat_bound(4) [of w] by (rule take_bit_nat_eq_self)
    ultimately show ?thesis
      by (simp only: unsigned_push_bit_eq unsigned_drop_bit_eq)
        (simp add: push_bit_eq_mult drop_bit_eq_div take_bit_nat_eq_self)
  qed
  ultimately show ?thesis by (simp only: al)
qed

end
