(* ===== verification/Klib_String.thy ===== *)
theory Klib_String
  imports Prelude
begin

text \<open>
  The string routines of \<open>klib/string.c\<close>, on byte memory. A loop that looks for a terminator need
  not find one, so each scanning loop is a partial function: \<open>None\<close> is the run that never ends.
  Pointers are addresses, 0 the null pointer; a routine that returns a pointer returns it here, and
  one that writes memory also returns the memory. The relation \<open>cstr m p s\<close> (the bytes \<open>s\<close>, then
  a terminator, lie at \<open>p\<close>) is what the results are stated with.
\<close>

section \<open>The routines\<close>

partial_function (option) strlen_loop :: "mem \<Rightarrow> u64 \<Rightarrow> u32 \<Rightarrow> u32 option" where
  "strlen_loop m a len = (if m a \<noteq> 0 then strlen_loop m (a + 1) (len + 1) else Some len)"

definition strlen :: "mem \<Rightarrow> u64 \<Rightarrow> u32 option" where
  "strlen m a = strlen_loop m a 0"

partial_function (option) strcpy_loop :: "mem \<Rightarrow> u64 \<Rightarrow> u64 \<Rightarrow> mem option" where
  "strcpy_loop m p src =
     (let c = m src; m' = m(p := c) in
      if c \<noteq> 0 then strcpy_loop m' (p + 1) (src + 1) else Some m')"

definition strcpy :: "mem \<Rightarrow> u64 \<Rightarrow> u64 \<Rightarrow> (mem \<times> u64) option" where
  "strcpy m dst src = map_option (\<lambda>m'. (m', dst)) (strcpy_loop m dst src)"

definition strcat :: "mem \<Rightarrow> u64 \<Rightarrow> u64 \<Rightarrow> (mem \<times> u64) option" where
  "strcat m dst src =
     (case strlen m dst of None \<Rightarrow> None | Some n \<Rightarrow> strcpy m (dst + ucast n) src)"

fun strncpy_loop :: "nat \<Rightarrow> mem \<Rightarrow> u64 \<Rightarrow> u64 \<Rightarrow> mem" where
  "strncpy_loop 0 m p src = m"
| "strncpy_loop (Suc n) m p src =
     (let m' = m(p := m src) in
      if m' src = 0 then m' else strncpy_loop n m' (p + 1) (src + 1))"

definition strncpy :: "mem \<Rightarrow> u64 \<Rightarrow> u64 \<Rightarrow> u64 \<Rightarrow> mem \<times> u64" where
  "strncpy m dst src n = (strncpy_loop (unat n) m dst src, dst)"

text \<open>The index of \<open>strcmp\<close> is an \<open>int\<close>, and \<open>char diff\<close> is an unsigned byte that is returned.\<close>

partial_function (option) strcmp_loop :: "mem \<Rightarrow> u64 \<Rightarrow> u64 \<Rightarrow> u32 \<Rightarrow> u32 option" where
  "strcmp_loop m a b i =
     (let x = m (a + scast i); y = m (b + scast i); diff = x - y in
      if x = 0 \<and> y = 0 then Some 0
      else if diff \<noteq> 0 then Some (ucast diff)
      else strcmp_loop m a b (i + 1))"

definition strcmp :: "mem \<Rightarrow> u64 \<Rightarrow> u64 \<Rightarrow> u32 option" where
  "strcmp m a b = strcmp_loop m a b 0"

partial_function (option) strchr_loop :: "mem \<Rightarrow> u64 \<Rightarrow> u8 \<Rightarrow> u64 option" where
  "strchr_loop m s x =
     (if m s = x then Some s else if m s = 0 then Some 0 else strchr_loop m (s + 1) x)"

definition strchr :: "mem \<Rightarrow> u64 \<Rightarrow> u8 \<Rightarrow> u64 option" where
  "strchr m s c = (if s = 0 then Some 0 else strchr_loop m s c)"

partial_function (option) strcspn_loop :: "mem \<Rightarrow> u64 \<Rightarrow> u64 \<Rightarrow> u32 \<Rightarrow> u32 option" where
  "strcspn_loop m s1 s2 len =
     (if m (s1 + ucast len) \<noteq> 0 then
        (case strchr m s2 (m (s1 + ucast len)) of
           None \<Rightarrow> None
         | Some r \<Rightarrow> if r \<noteq> 0 then Some len else strcspn_loop m s1 s2 (len + 1))
      else Some len)"

definition strcspn :: "mem \<Rightarrow> u64 \<Rightarrow> u64 \<Rightarrow> u32 option" where
  "strcspn m s1 s2 = strcspn_loop m s1 s2 0"

text \<open>
  \<open>strtok_r\<close> has two loops. The first skips delimiters: \<open>Inl s\<close> is the early return at the end
  of the string, \<open>Inr s\<close> the start of a token. The second finds the token's end.
\<close>

partial_function (option) strtok_skip :: "mem \<Rightarrow> u64 \<Rightarrow> u64 \<Rightarrow> (u64 + u64) option" where
  "strtok_skip m delim s =
     (case strchr m delim (m s) of
        None \<Rightarrow> None
      | Some r \<Rightarrow> if r \<noteq> 0 then (if m s = 0 then Some (Inl s) else strtok_skip m delim (s + 1))
                 else Some (Inr s))"

partial_function (option) strtok_end :: "mem \<Rightarrow> u64 \<Rightarrow> u64 \<Rightarrow> u64 option" where
  "strtok_end m delim s =
     (case strchr m delim (m s) of
        None \<Rightarrow> None
      | Some r \<Rightarrow> if r = 0 then strtok_end m delim (s + 1) else Some s)"

text \<open>The result is the memory, the token returned and the new value of \<open>*save_ptr\<close>.\<close>

definition strtok_r :: "mem \<Rightarrow> u64 \<Rightarrow> u64 \<Rightarrow> u64 \<Rightarrow> (mem \<times> u64 \<times> u64) option" where
  "strtok_r m s delim save =
     (if delim = 0 then Some (m, 0, save)
      else let s = (if s = 0 then save else s) in
        if s = 0 then Some (m, 0, save)
        else (case strtok_skip m delim s of
            None \<Rightarrow> None
          | Some (Inl s) \<Rightarrow> Some (m, 0, s)
          | Some (Inr token) \<Rightarrow>
              (case strtok_end m delim token of
                 None \<Rightarrow> None
               | Some s \<Rightarrow> if m s \<noteq> 0 then Some (m(s := 0), token, s + 1)
                          else Some (m, token, s))))"

section \<open>Strings in memory\<close>

fun cstr :: "mem \<Rightarrow> u64 \<Rightarrow> u8 list \<Rightarrow> bool" where
  "cstr m p [] \<longleftrightarrow> m p = 0"
| "cstr m p (c # cs) \<longleftrightarrow> m p = c \<and> c \<noteq> 0 \<and> cstr m (p + 1) cs"

lemma cstr_cong:
  "(\<And>x. x \<in> span p (Suc (length s)) \<Longrightarrow> m x = m' x) \<Longrightarrow> cstr m p s \<longleftrightarrow> cstr m' p s"
proof (induction s arbitrary: p)
  case (Cons c s)
  have "cstr m (p + 1) s \<longleftrightarrow> cstr m' (p + 1) s"
    using Cons.prems by (intro Cons.IH) (simp add: in_span_Suc)
  moreover have "m p = m' p" using Cons.prems by simp
  ultimately show ?case by simp
qed simp

lemma cstr_unique: "cstr m p s \<Longrightarrow> cstr m p t \<Longrightarrow> s = t"
proof (induction s arbitrary: p t)
  case Nil
  then show ?case by (cases t) auto
next
  case (Cons c s)
  then show ?case by (cases t) auto
qed

section \<open>What they compute\<close>

lemma strlen_loop_cstr: "cstr m a s \<Longrightarrow> strlen_loop m a len = Some (len + of_nat (length s))"
proof (induction s arbitrary: a len)
  case Nil
  then show ?case by (subst strlen_loop.simps) simp
next
  case (Cons c s)
  then show ?case by (subst strlen_loop.simps) (simp add: add.assoc)
qed

lemma strlen_cstr: "cstr m a s \<Longrightarrow> strlen m a = Some (of_nat (length s))"
  by (simp add: strlen_def strlen_loop_cstr)

text \<open>Copying a string to a place it does not overlap.\<close>

lemma strcpy_loop_cstr:
  assumes "cstr m src s" "length s < 2 ^ 64 - 1"
    and "span p (Suc (length s)) \<inter> span src (Suc (length s)) = {}"
  shows "\<exists>m'. strcpy_loop m p src = Some m' \<and> cstr m' p s \<and>
     (\<forall>x. x \<notin> span p (Suc (length s)) \<longrightarrow> m' x = m x)"
  using assms
proof (induction s arbitrary: m p src)
  case Nil
  then show ?case by (subst strcpy_loop.simps) (auto simp: in_span_Suc)
next
  case (Cons c s)
  let ?m = "m(p := c)"
  have disj: "p \<notin> span (src + 1) (Suc (length s))" "span (p + 1) (Suc (length s)) \<inter> span (src + 1) (Suc (length s)) = {}"
    using Cons.prems(3) by (auto simp: in_span_Suc)
  have "cstr ?m (src + 1) s"
    using Cons.prems(1) disj(1) cstr_cong [of "src + 1" s m ?m] by fastforce
  then have "\<exists>m'. strcpy_loop ?m (p + 1) (src + 1) = Some m' \<and> cstr m' (p + 1) s \<and>
      (\<forall>x. x \<notin> span (p + 1) (Suc (length s)) \<longrightarrow> m' x = ?m x)"
    using Cons.prems(2) disj(2) by (intro Cons.IH) (simp_all del: fun_upd_apply)
  then obtain m' where m': "strcpy_loop ?m (p + 1) (src + 1) = Some m'" "cstr m' (p + 1) s"
      "\<And>x. x \<notin> span (p + 1) (Suc (length s)) \<Longrightarrow> m' x = ?m x"
    by blast
  have "m' p = c" using m'(3) [of p] Cons.prems(2) by (simp add: not_in_span_succ)
  moreover have "m' x = m x" if "x \<notin> span p (Suc (Suc (length s)))" for x
    using that m'(3) [of x] by (auto simp: in_span_Suc [of _ _ "Suc (length s)"])
  moreover have "strcpy_loop m p src = Some m'"
    using Cons.prems(1) m'(1) by (subst strcpy_loop.simps) simp
  ultimately show ?case using Cons.prems(1) m'(2) by auto
qed

lemma strcpy_cstr:
  assumes "cstr m src s" "length s < 2 ^ 64 - 1"
    and "span dst (Suc (length s)) \<inter> span src (Suc (length s)) = {}"
  obtains m' where "strcpy m dst src = Some (m', dst)" "cstr m' dst s"
    "\<And>x. x \<notin> span dst (Suc (length s)) \<Longrightarrow> m' x = m x"
  using strcpy_loop_cstr [OF assms] by (auto simp: strcpy_def)

text \<open>Appending and cutting strings in memory.\<close>

lemma cstr_drop: "cstr m p (s @ t) \<Longrightarrow> cstr m (p + of_nat (length s)) t"
  by (induction s arbitrary: p) (auto simp flip: add.assoc)

lemma cstr_append:
  "cstr m p s \<Longrightarrow> length s < 2 ^ 64 \<Longrightarrow> cstr m' (p + of_nat (length s)) t \<Longrightarrow>
   (\<And>x. x \<in> span p (length s) \<Longrightarrow> m' x = m x) \<Longrightarrow> cstr m' p (s @ t)"
proof (induction s arbitrary: p)
  case (Cons c s)
  have "cstr m' (p + 1) (s @ t)"
    using Cons.prems by (intro Cons.IH) (auto simp: in_span_Suc algebra_simps)
  then show ?case using Cons.prems by simp
qed simp

lemma cstr_cut:
  "cstr m p (s @ t) \<Longrightarrow> length s < 2 ^ 64 \<Longrightarrow> cstr (m(p + of_nat (length s) := 0)) p s"
proof (induction s arbitrary: p)
  case (Cons c s)
  have "cstr (m(p + 1 + of_nat (length s) := 0)) (p + 1) s"
    using Cons.prems by (intro Cons.IH) simp_all
  moreover have "p + 1 + of_nat (length s) \<noteq> p"
  proof
    assume "p + 1 + of_nat (length s) = p"
    then have "(of_nat (Suc (length s)) :: u64) = 0" by (simp add: algebra_simps)
    then have "unat (of_nat (Suc (length s)) :: u64) = 0" by (simp only: unat_0)
    with Cons.prems(2) show False by (subst (asm) unat_of_nat_64) simp_all
  qed
  ultimately show ?case
    using Cons.prems by (simp add: algebra_simps fun_upd_other del: fun_upd_apply)
qed simp

text \<open>\<open>strcat\<close> appends; the pointer it returns is where the old string ended.\<close>

lemma strcat_cstr:
  assumes "cstr m dst s" "cstr m src t" "length s < 2 ^ 32" "length t < 2 ^ 64 - 1"
    and src: "span (dst + of_nat (length s)) (Suc (length t)) \<inter> span src (Suc (length t)) = {}"
    and dst: "span (dst + of_nat (length s)) (Suc (length t)) \<inter> span dst (length s) = {}"
  obtains m' where "strcat m dst src = Some (m', dst + of_nat (length s))" "cstr m' dst (s @ t)"
    "\<And>x. x \<notin> span (dst + of_nat (length s)) (Suc (length t)) \<Longrightarrow> m' x = m x"
proof -
  obtain m' where m': "strcpy m (dst + of_nat (length s)) src = Some (m', dst + of_nat (length s))"
      "cstr m' (dst + of_nat (length s)) t"
      "\<And>x. x \<notin> span (dst + of_nat (length s)) (Suc (length t)) \<Longrightarrow> m' x = m x"
    using strcpy_cstr [OF assms(2,4) src] by metis
  have "cstr m' dst (s @ t)"
    using assms(1,3) m'(2,3) dst by (intro cstr_append [of m]) auto
  moreover have "strcat m dst src = Some (m', dst + of_nat (length s))"
    using assms(1,3) m'(1) by (simp add: strcat_def strlen_cstr ucast_of_nat_32_64)
  ultimately show ?thesis using that m'(3) by blast
qed

text \<open>\<open>strcmp\<close>: zero exactly on equal strings, and otherwise a byte, hence never negative.\<close>

fun str_diff :: "u8 list \<Rightarrow> u8 list \<Rightarrow> u32" where
  "str_diff [] [] = 0"
| "str_diff (c # s) [] = ucast c"
| "str_diff [] (d # t) = ucast (- d)"
| "str_diff (c # s) (d # t) = (if c = d then str_diff s t else ucast (c - d))"

lemma strcmp_loop_cstr:
  "cstr m (a + of_nat i) s \<Longrightarrow> cstr m (b + of_nat i) t \<Longrightarrow> i + length s < 2 ^ 31 \<Longrightarrow>
   strcmp_loop m a b (of_nat i) = Some (str_diff s t)"
proof (induction s t arbitrary: i rule: str_diff.induct)
  case (4 c s d t)
  have "strcmp_loop m a b (of_nat (Suc i)) = Some (str_diff s t)" if "c = d"
    using 4 that by (intro "4.IH") (simp_all add: algebra_simps)
  then show ?case
    using 4 by (subst strcmp_loop.simps) (auto simp: scast_of_nat_32_64 Let_def add.commute)
qed (subst strcmp_loop.simps, auto simp: scast_of_nat_32_64 Let_def)+

lemma strcmp_cstr:
  "cstr m a s \<Longrightarrow> cstr m b t \<Longrightarrow> length s < 2 ^ 31 \<Longrightarrow> strcmp m a b = Some (str_diff s t)"
  using strcmp_loop_cstr [of m a 0 s b t] by (simp add: strcmp_def)

lemma ucast_8_32_eq_0_iff: "(ucast (x :: u8) :: u32) = 0 \<longleftrightarrow> x = 0"
  by (simp flip: unat_eq_0 add: unat_ucast_8_32)

lemma str_diff_eq_0_iff: "0 \<notin> set s \<Longrightarrow> 0 \<notin> set t \<Longrightarrow> str_diff s t = 0 \<longleftrightarrow> s = t"
  by (induction s t rule: str_diff.induct) (auto simp: ucast_8_32_eq_0_iff)

lemma str_diff_byte: "unat (str_diff s t) < 256"
  using unat_bound(1) by (induction s t rule: str_diff.induct) (simp_all add: unat_ucast_8_32)

lemma cstr_nonzero: "cstr m p s \<Longrightarrow> 0 \<notin> set s"
  by (induction s arbitrary: p) auto

text \<open>
  \<open>strchr\<close> finds the first occurrence, and the terminator counts. A string whose bytes do not
  wrap round the address space has no byte at the null pointer, so the result is null exactly when
  the character is missing.
\<close>

definition str_fits :: "u64 \<Rightarrow> u8 list \<Rightarrow> bool" where
  "str_fits p s \<longleftrightarrow> p \<noteq> 0 \<and> unat p + length s < 2 ^ 64"

lemma str_fits_length: "str_fits p s \<Longrightarrow> Suc (length s) < 2 ^ 64"
proof -
  assume "str_fits p s"
  then have "0 < unat p" "unat p + length s < 2 ^ 64"
    by (simp_all add: str_fits_def unat_gt_0)
  then show ?thesis by simp
qed

lemma str_fits_offset:
  "str_fits p s \<Longrightarrow> i \<le> length s \<Longrightarrow> unat (p + of_nat i) = unat p + i"
  by (simp add: str_fits_def unat_plus_of_nat)

lemma str_fits_nonzero:
  assumes "str_fits p s" "i \<le> length s"
  shows "p + of_nat i \<noteq> 0"
proof
  assume "p + of_nat i = 0"
  then have "unat p + i = 0" using str_fits_offset [OF assms] by simp
  with assms(1) show False by (simp add: str_fits_def unat_eq_0)
qed

lemma str_fits_drop: "str_fits p (s @ t) \<Longrightarrow> str_fits (p + of_nat (length s)) t"
  using str_fits_nonzero [of p "s @ t" "length s"] str_fits_offset [of p "s @ t" "length s"]
  by (simp add: str_fits_def)

definition char_index :: "u8 \<Rightarrow> u8 list \<Rightarrow> nat" where
  "char_index c s = length (takeWhile (\<lambda>d. d \<noteq> c) s)"

lemma char_index_le: "char_index c s \<le> length s"
  by (simp add: char_index_def length_takeWhile_le)

lemma strchr_loop_cstr:
  "cstr m p s \<Longrightarrow> strchr_loop m p c =
     Some (if c = 0 \<or> c \<in> set s then p + of_nat (char_index c s) else 0)"
proof (induction s arbitrary: p)
  case Nil
  then show ?case by (subst strchr_loop.simps) (simp add: char_index_def)
next
  case (Cons d s)
  then show ?case
    by (subst strchr_loop.simps) (auto simp: char_index_def add.assoc)
qed

lemma strchr_cstr:
  assumes "cstr m p s" "str_fits p s"
  shows "strchr m p c = Some (if c = 0 \<or> c \<in> set s then p + of_nat (char_index c s) else 0)"
  using assms strchr_loop_cstr by (simp add: strchr_def str_fits_def)

lemma strchr_found:
  assumes "cstr m p s" "str_fits p s"
  obtains r where "strchr m p c = Some r" "r \<noteq> 0 \<longleftrightarrow> c = 0 \<or> c \<in> set s"
  using strchr_cstr [OF assms, of c] str_fits_nonzero [OF assms(2) char_index_le] by auto

text \<open>\<open>strcspn\<close> counts the characters before the first one of the reject set.\<close>

lemma strcspn_loop_cstr:
  assumes "cstr m q r" "str_fits q r"
  shows "cstr m (p + of_nat i) s \<Longrightarrow> i + length s < 2 ^ 32 \<Longrightarrow>
    strcspn_loop m p q (of_nat i) = Some (of_nat (i + length (takeWhile (\<lambda>c. c \<notin> set r) s)))"
proof (induction s arbitrary: i)
  case Nil
  then show ?case by (subst strcspn_loop.simps) (simp add: ucast_of_nat_32_64)
next
  case (Cons c s)
  obtain f where f: "strchr m q c = Some f" "f \<noteq> 0 \<longleftrightarrow> c = 0 \<or> c \<in> set r"
    using strchr_found [OF assms] .
  have IH: "strcspn_loop m p q (of_nat (Suc i)) =
      Some (of_nat (Suc i + length (takeWhile (\<lambda>c. c \<notin> set r) s)))"
    using Cons.prems by (intro Cons.IH) (simp_all add: algebra_simps)
  show ?case
    using Cons.prems f IH by (subst strcspn_loop.simps) (auto simp: ucast_of_nat_32_64 algebra_simps)
qed

lemma strcspn_cstr:
  assumes "cstr m p s" "cstr m q r" "str_fits q r" "length s < 2 ^ 32"
  shows "strcspn m p q = Some (of_nat (length (takeWhile (\<lambda>c. c \<notin> set r) s)))"
  using strcspn_loop_cstr [OF assms(2,3), of p 0 s] assms(1,4) by (simp add: strcspn_def)

section \<open>Tokens\<close>

text \<open>
  The next token of \<open>s\<close> and what is left of the string after it, on lists: leading delimiters are
  dropped, and the delimiter that ends the token is consumed.
\<close>

definition next_token :: "u8 list \<Rightarrow> u8 list \<Rightarrow> u8 list \<times> u8 list" where
  "next_token d s =
     (let r = dropWhile (\<lambda>c. c \<in> set d) s; t = takeWhile (\<lambda>c. c \<notin> set d) r
      in (t, drop (Suc (length t)) r))"

lemma strtok_skip_cstr:
  assumes "cstr m q d" "str_fits q d"
  shows "cstr m p s \<Longrightarrow> strtok_skip m q p = Some
    (let k = length (takeWhile (\<lambda>c. c \<in> set d) s)
     in if k = length s then Inl (p + of_nat k) else Inr (p + of_nat k))"
proof (induction s arbitrary: p)
  case Nil
  obtain f where "strchr m q 0 = Some f" "f \<noteq> 0"
    using strchr_found [OF assms, of 0] by auto
  with Nil show ?case by (subst strtok_skip.simps) simp
next
  case (Cons c s)
  obtain f where f: "strchr m q c = Some f" "f \<noteq> 0 \<longleftrightarrow> c = 0 \<or> c \<in> set d"
    using strchr_found [OF assms] .
  have "strtok_skip m q (p + 1) = Some
    (let k = length (takeWhile (\<lambda>c. c \<in> set d) s)
     in if k = length s then Inl (p + 1 + of_nat k) else Inr (p + 1 + of_nat k))"
    using Cons.prems by (intro Cons.IH) simp
  with Cons.prems f show ?case
    by (subst strtok_skip.simps) (auto simp: Let_def algebra_simps)
qed

lemma strtok_end_cstr:
  assumes "cstr m q d" "str_fits q d"
  shows "cstr m p s \<Longrightarrow>
    strtok_end m q p = Some (p + of_nat (length (takeWhile (\<lambda>c. c \<notin> set d) s)))"
proof (induction s arbitrary: p)
  case Nil
  obtain f where "strchr m q 0 = Some f" "f \<noteq> 0"
    using strchr_found [OF assms, of 0] by auto
  with Nil show ?case by (subst strtok_end.simps) simp
next
  case (Cons c s)
  obtain f where f: "strchr m q c = Some f" "f \<noteq> 0 \<longleftrightarrow> c = 0 \<or> c \<in> set d"
    using strchr_found [OF assms] .
  have "strtok_end m q (p + 1) = Some (p + 1 + of_nat (length (takeWhile (\<lambda>c. c \<notin> set d) s)))"
    using Cons.prems by (intro Cons.IH) simp
  with Cons.prems f show ?case
    by (subst strtok_end.simps) (auto simp: algebra_simps)
qed

lemma in_span_offset:
  assumes "i < n" "n < 2 ^ 64"
  shows "p + of_nat i \<in> span p n"
  using assms by (simp add: span_def unat_of_nat)

lemma strtok_r_resume: "p \<noteq> 0 \<Longrightarrow> q \<noteq> 0 \<Longrightarrow> strtok_r m 0 q p = strtok_r m p q save"
  by (simp add: strtok_r_def)

text \<open>The token part of \<open>strtok_r\<close>, from the first character that is not a delimiter.\<close>

lemma strtok_token:
  assumes d: "cstr m q d" "str_fits q d" and r: "cstr m p (t @ x # rest)" "str_fits p (t @ x # rest)"
    and away: "p + of_nat (length t) \<notin> span q (Suc (length d))"
  defines "e \<equiv> p + of_nat (length t)"
  shows "cstr (m(e := 0)) p t \<and> cstr (m(e := 0)) (e + 1) rest \<and> cstr (m(e := 0)) q d \<and>
    str_fits (e + 1) rest \<and> m e = x"
proof -
  have len: "length t + Suc (length rest) < 2 ^ 64"
    using r(2) by (simp add: str_fits_def)
  have e: "cstr m e (x # rest)" using cstr_drop [OF r(1)] by (simp add: e_def)
  have "cstr (m(e := 0)) p t"
    using r(1) len unfolding e_def by (intro cstr_cut) simp_all
  moreover have "cstr (m(e := 0)) (e + 1) rest \<longleftrightarrow> cstr m (e + 1) rest"
    using len by (intro cstr_cong) (auto simp: not_in_span_succ)
  moreover have "cstr (m(e := 0)) q d \<longleftrightarrow> cstr m q d"
    using away by (intro cstr_cong) (auto simp: e_def)
  moreover have "str_fits (p + of_nat (length (t @ [x]))) rest"
    using r(2) by (intro str_fits_drop) simp
  ultimately show ?thesis
    using e d by (simp add: e_def algebra_simps)
qed

text \<open>A token \<open>t\<close> that starts at \<open>p\<close>, of the string \<open>r\<close> left after the delimiters: it ends with the string or at a delimiter \<open>x\<close>.\<close>

lemma strtok_r_found:
  assumes d: "cstr m q d" "str_fits q d" and r: "cstr m p r" "str_fits p r"
    and skip: "strtok_skip m q s = Some (Inr p)" and nz: "s \<noteq> 0" "q \<noteq> 0"
    and away: "span p (Suc (length r)) \<inter> span q (Suc (length d)) = {}"
  defines "t \<equiv> takeWhile (\<lambda>c. c \<notin> set d) r"
  shows "\<exists>m' sv. strtok_r m s q save = Some (m', p, sv) \<and>
    cstr m' sv (drop (Suc (length t)) r) \<and> str_fits sv (drop (Suc (length t)) r) \<and> cstr m' q d \<and> cstr m' p t"
proof -
  let ?e = "p + of_nat (length t)"
  have fin: "strtok_end m q p = Some ?e"
    using strtok_end_cstr [OF d r(1)] by (simp add: t_def)
  have split: "r = t @ dropWhile (\<lambda>c. c \<notin> set d) r" by (simp add: t_def)
  show ?thesis
  proof (cases "dropWhile (\<lambda>c. c \<notin> set d) r")
    case Nil
    then have rt: "r = t" using split by (metis append_Nil2)
    then have "cstr m ?e []" "str_fits ?e []"
      using cstr_drop [of m p t "[]"] str_fits_drop [of p t "[]"] r by simp_all
    then show ?thesis using skip fin nz r rt d by (auto simp: strtok_r_def)
  next
    case (Cons x u)
    then have rt: "r = t @ x # u" using split by metis
    have "?e \<in> span p (Suc (length r))"
      using str_fits_length [OF r(2)] rt by (intro in_span_offset) simp_all
    then have "?e \<notin> span q (Suc (length d))" using away by blast
    from strtok_token [OF d _ _ this] r rt
    have tok: "cstr (m(?e := 0)) p t" "cstr (m(?e := 0)) (?e + 1) u" "cstr (m(?e := 0)) q d"
      "str_fits (?e + 1) u" "m ?e = x" by auto
    moreover have "x \<noteq> 0" "drop (Suc (length t)) r = u" using cstr_nonzero [OF r(1)] rt by auto
    ultimately show ?thesis using skip fin nz by (auto simp: strtok_r_def)
  qed
qed

lemma strtok_r_cstr:
  assumes d: "cstr m q d" "str_fits q d" and s: "cstr m p s" "str_fits p s"
    and away: "span p (Suc (length s)) \<inter> span q (Suc (length d)) = {}"
    and nt: "next_token d s = (t, rest)"
  shows "\<exists>m' tok sv. strtok_r m p q save = Some (m', tok, sv) \<and>
    cstr m' sv rest \<and> str_fits sv rest \<and> cstr m' q d \<and>
    (if t = [] then tok = 0 \<and> m' = m else tok \<noteq> 0 \<and> cstr m' tok t)"
proof -
  define l where "l = takeWhile (\<lambda>c. c \<in> set d) s"
  define r where "r = dropWhile (\<lambda>c. c \<in> set d) s"
  have s_eq: "s = l @ r" by (simp add: l_def r_def)
  have t: "t = takeWhile (\<lambda>c. c \<notin> set d) r" and rest: "rest = drop (Suc (length t)) r"
    using nt by (auto simp: next_token_def Let_def r_def)
  let ?p = "p + of_nat (length l)"
  have rc: "cstr m ?p r" "str_fits ?p r"
    using cstr_drop [of m p l r] str_fits_drop [of p l r] s s_eq by simp_all
  have nz: "p \<noteq> 0" "q \<noteq> 0" using d s by (simp_all add: str_fits_def)
  have len: "length s = length l + length r" by (simp add: s_eq)
  then have skip: "strtok_skip m q p = Some (if r = [] then Inl ?p else Inr ?p)"
    using strtok_skip_cstr [OF d s(1)] by (simp add: Let_def flip: l_def)
  show ?thesis
  proof (cases "r = []")
    case True
    then have "strtok_r m p q save = Some (m, 0, ?p)"
      using nz skip by (simp add: strtok_r_def)
    moreover have "t = []" "rest = []" using True t rest by simp_all
    ultimately show ?thesis using True rc d by auto
  next
    case False
    have "hd r \<notin> set d"
      using False hd_dropWhile [of "\<lambda>c. c \<in> set d" s] unfolding r_def by blast
    then have "t \<noteq> []" using False t by (cases r) simp_all
    moreover have "?p \<noteq> 0" using rc(2) by (simp add: str_fits_def)
    moreover have "span ?p (Suc (length r)) \<inter> span q (Suc (length d)) = {}"
      using away span_field [of "of_nat (length l)" "Suc (length r)" "Suc (length s)" p] str_fits_length [OF s(2)] len
      by (auto simp: unat_of_nat)
    note strtok_r_found [OF d rc _ nz this, of save, folded t rest]
    ultimately show ?thesis using skip False by auto
  qed
qed

end
