(* ===== verification/Klib_Stdio.thy ===== *)
theory Klib_Stdio
  imports Klib_Mem Klib_String
begin

text \<open>
  Formatted output, \<open>klib/stdio.c\<close>. The console is the list of bytes given to \<open>putc\<close>, oldest
  first. A \<open>va_list\<close> is the list of the 64-bit argument slots that are left, as the RISC-V calling
  convention passes them; \<open>va_arg(args, int)\<close> reads the low half of a slot. A format is the list of
  its characters without the terminator. The arrays \<open>temp\<close> and \<open>digits\<close> of \<open>utoa\<close> are bounded as
  in the code: running past either is \<open>OutOfBounds\<close>.
\<close>

type_synonym console = "u8 list"

section \<open>\<open>putc\<close> and \<open>puts\<close>\<close>

definition putc :: "u8 \<Rightarrow> console \<Rightarrow> console" where
  "putc c con = con @ [c]"

partial_function (option) puts :: "mem \<Rightarrow> u64 \<Rightarrow> console \<Rightarrow> console option" where
  "puts m str con = (if m str \<noteq> 0 then puts m (str + 1) (putc (m str) con) else Some con)"

fun put_all :: "u8 list \<Rightarrow> console \<Rightarrow> console" where
  "put_all [] con = con"
| "put_all (c # cs) con = put_all cs (putc c con)"

lemma put_all_append [simp]: "put_all cs con = con @ cs"
  by (induction cs con rule: put_all.induct) (simp_all add: putc_def)

lemma puts_cstr: "cstr m p s \<Longrightarrow> puts m p con = Some (con @ s)"
proof (induction s arbitrary: p con)
  case Nil
  then show ?case by (subst puts.simps) simp
next
  case (Cons c s)
  then show ?case by (subst puts.simps) (simp add: putc_def)
qed

section \<open>\<open>utoa\<close>\<close>

definition digit_chars :: "u8 list" where
  "digit_chars = bytes_of ''0123456789ABCDEF'' @ [0]"

text \<open>The first loop of \<open>utoa\<close>: \<open>temp\<close> is the filled part of \<open>char temp[32]\<close>.\<close>

function utoa_digits :: "u64 \<Rightarrow> u64 \<Rightarrow> u8 list \<Rightarrow> u8 list res" where
  "utoa_digits v base temp =
     (if v = 0 then Inr temp
      else if base = 0 then Inl DivByZero
      else if length digit_chars \<le> unat (v mod base) then Inl OutOfBounds
      else if 32 \<le> length temp then Inl OutOfBounds
      else utoa_digits (v div base) base (temp @ [digit_chars ! unat (v mod base)]))"
  by pat_completeness auto
termination
  by (relation "measure (\<lambda>(v, base, temp). 32 - length temp)") auto

declare utoa_digits.simps [simp del]

text \<open>The result is the text left in \<open>buffer\<close> before its terminator.\<close>

definition utoa :: "u64 \<Rightarrow> u32 \<Rightarrow> u8 list res" where
  "utoa v base = (if v = 0 then Inr [byte_of CHR ''0''] else bind_res (utoa_digits v (scast base) []) (\<lambda>temp. Inr (rev temp)))"

section \<open>\<open>vprintf\<close>\<close>

fun va_arg :: "u64 list \<Rightarrow> (u64 \<times> u64 list) res" where
  "va_arg [] = Inl MissingArg"
| "va_arg (a # args) = Inr (a, args)"

text \<open>The \<open>switch\<close> of \<open>vprintf\<close> on the character after a percent sign.\<close>

definition printf_conv :: "mem \<Rightarrow> u8 \<Rightarrow> u64 list \<Rightarrow> console \<Rightarrow> (console \<times> u64 list) res" where
  "printf_conv m f args con =
     (if f = byte_of CHR ''d'' then
        bind_res (va_arg args) (\<lambda>(a, args).
          let value = (ucast a :: u32);
              neg = sint value < 0;
              con = (if neg then putc (byte_of CHR ''-'') con else con);
              value = (if neg then - value else value)
          in bind_res (utoa (scast value) 10) (\<lambda>buffer. Inr (put_all buffer con, args)))
      else if f = byte_of CHR ''x'' then
        bind_res (va_arg args) (\<lambda>(a, args).
          bind_res (utoa a 16) (\<lambda>buffer. Inr (put_all buffer con, args)))
      else if f = byte_of CHR ''u'' then
        bind_res (va_arg args) (\<lambda>(a, args).
          let value = (ucast a :: u32)
          in bind_res (utoa (scast value) 10) (\<lambda>buffer. Inr (put_all buffer con, args)))
      else if f = byte_of CHR ''s'' then
        bind_res (va_arg args) (\<lambda>(a, args).
          bind_res (or_hang (puts m a con)) (\<lambda>con. Inr (con, args)))
      else if f = byte_of CHR ''c'' then
        bind_res (va_arg args) (\<lambda>(a, args). Inr (putc (ucast a) con, args))
      else Inr (putc f (putc (byte_of CHR ''%'') con), args))"

text \<open>
  A percent sign at the very end takes the terminator for its conversion character, and
  \<open>format++\<close> then steps over it: the loop goes on past the end of the string.
\<close>

fun vprintf :: "mem \<Rightarrow> u8 list \<Rightarrow> u64 list \<Rightarrow> console \<Rightarrow> console res" where
  "vprintf m [] args con = Inr con"
| "vprintf m (c # fmt) args con =
     (if c = byte_of CHR ''%'' then
        (case fmt of
           [] \<Rightarrow> Inl OutOfBounds
         | f # fmt' \<Rightarrow> bind_res (printf_conv m f args con) (\<lambda>(con, args). vprintf m fmt' args con))
      else
        (let con = (if c = 10 then putc 13 con else con)
         in vprintf m fmt args (putc c con)))"

definition printf :: "mem \<Rightarrow> string \<Rightarrow> u64 list \<Rightarrow> console \<Rightarrow> console res" where
  "printf m format args con = vprintf m (bytes_of format) args con"

section \<open>\<open>vsnprintf\<close>\<close>

text \<open>
  The state of \<open>vsnprintf\<close> is the memory the buffer lies in, the index \<open>bufferIdx\<close> and the console,
  to which the default case also writes. \<open>buf_put\<close> is one \<open>buffer[bufferIdx] = c\<close>. The bound \<open>n\<close>
  is a parameter the code never reads.
\<close>

definition buf_put :: "u64 \<Rightarrow> u32 \<Rightarrow> u8 \<Rightarrow> mem \<Rightarrow> mem" where
  "buf_put buffer idx c m = m(buffer + ucast idx := c)"

definition snprintf_conv ::
  "u64 \<Rightarrow> u8 \<Rightarrow> u64 list \<Rightarrow> mem \<times> u32 \<times> console \<Rightarrow> ((mem \<times> u32 \<times> console) \<times> u64 list) res" where
  "snprintf_conv buffer f args st =
     (case st of (m, idx, con) \<Rightarrow>
      if f = byte_of CHR ''d'' then
        bind_res (va_arg args) (\<lambda>(a, args).
          let value = (ucast a :: u32);
              neg = sint value < 0;
              m = (if neg then buf_put buffer idx (byte_of CHR ''-'') m else m);
              idx = (if neg then idx + 1 else idx);
              value = (if neg then - value else value)
          in bind_res (utoa (scast value) 10) (\<lambda>temp.
               Inr ((buf_put buffer idx (hd temp) m, idx + of_nat (length temp), con), args)))
      else if f = byte_of CHR ''u'' then
        bind_res (va_arg args) (\<lambda>(a, args).
          let value = (ucast a :: u32)
          in bind_res (utoa (scast value) 10) (\<lambda>temp.
               Inr ((buf_put buffer idx (hd temp) m, idx + of_nat (length temp), con), args)))
      else if f = byte_of CHR ''x'' then
        bind_res (va_arg args) (\<lambda>(a, args).
          let value = (ucast a :: u32)
          in bind_res (utoa (ucast value) 16) (\<lambda>temp.
               Inr ((buf_put buffer idx (hd temp) m, idx + of_nat (length temp), con), args)))
      else if f = byte_of CHR ''s'' then
        bind_res (va_arg args) (\<lambda>(a, args).
          let m' = buf_put buffer idx (m a) m
          in bind_res (or_hang (strlen m' a)) (\<lambda>len. Inr ((m', idx + len, con), args)))
      else if f = byte_of CHR ''c'' then
        bind_res (va_arg args) (\<lambda>(a, args). Inr ((buf_put buffer idx (ucast a) m, idx + 1, con), args))
      else
        Inr ((buf_put buffer (idx + 1) f (buf_put buffer idx (byte_of CHR ''%'') m), idx + 2,
              putc f (putc (byte_of CHR ''%'') con)), args))"

fun vsnprintf_loop :: "u64 \<Rightarrow> u8 list \<Rightarrow> u64 list \<Rightarrow> mem \<times> u32 \<times> console \<Rightarrow> (mem \<times> u32 \<times> console) res" where
  "vsnprintf_loop buffer [] args st = Inr st"
| "vsnprintf_loop buffer (c # fmt) args st =
     (if c = byte_of CHR ''%'' then
        (case fmt of
           [] \<Rightarrow> Inl OutOfBounds
         | f # fmt' \<Rightarrow> bind_res (snprintf_conv buffer f args st) (\<lambda>(st, args). vsnprintf_loop buffer fmt' args st))
      else (case st of (m, idx, con) \<Rightarrow> vsnprintf_loop buffer fmt args (buf_put buffer idx c m, idx + 1, con)))"

definition vsnprintf :: "u64 \<Rightarrow> u64 \<Rightarrow> u8 list \<Rightarrow> u64 list \<Rightarrow> mem \<Rightarrow> console \<Rightarrow> (mem \<times> console) res" where
  "vsnprintf buffer n format args m con =
     bind_res (vsnprintf_loop buffer format args (m, 0, con)) (\<lambda>(m, idx, con). Inr (m, con))"

definition snprintf :: "u64 \<Rightarrow> u64 \<Rightarrow> string \<Rightarrow> u64 list \<Rightarrow> mem \<Rightarrow> console \<Rightarrow> (mem \<times> console) res" where
  "snprintf buffer n format args m con = vsnprintf buffer n (bytes_of format) args m con"

section \<open>Numerals\<close>

text \<open>The digits of a number, least significant first, and its numeral as \<open>utoa\<close> spells it.\<close>

fun nat_digits :: "nat \<Rightarrow> nat \<Rightarrow> nat list" where
  "nat_digits b n = (if b < 2 \<or> n = 0 then [] else n mod b # nat_digits b (n div b))"

declare nat_digits.simps [simp del]

definition numeral_of :: "nat \<Rightarrow> nat \<Rightarrow> u8 list" where
  "numeral_of b n = (if n = 0 then [byte_of CHR ''0''] else rev (map (\<lambda>d. digit_chars ! d) (nat_digits b n)))"

definition int_numeral :: "int \<Rightarrow> u8 list" where
  "int_numeral k = (if k < 0 then byte_of CHR ''-'' # numeral_of 10 (nat (- k)) else numeral_of 10 (nat k))"

definition digit_val :: "u8 \<Rightarrow> nat" where
  "digit_val c = (if unat c < 58 then unat c - 48 else unat c - 55)"

definition read_numeral :: "nat \<Rightarrow> u8 list \<Rightarrow> nat" where
  "read_numeral b cs = foldl (\<lambda>n c. n * b + digit_val c) 0 cs"

lemma less_16_cases: "(d :: nat) < 16 \<Longrightarrow> d \<in> {0, 1, 2, 3, 4, 5, 6, 7, 8, 9, 10, 11, 12, 13, 14, 15}"
  by (auto simp: numeral_eq_Suc less_Suc_eq)

lemma digit_val_char: "d < 16 \<Longrightarrow> digit_val (digit_chars ! d) = d"
  by (drule less_16_cases) (auto simp: digit_val_def digit_chars_def)

lemma nat_digits_bound: "d \<in> set (nat_digits b n) \<Longrightarrow> d < b"
  by (induction b n rule: nat_digits.induct) (subst (asm) (2) nat_digits.simps, auto split: if_splits)

lemma nat_digits_length: "2 \<le> b \<Longrightarrow> n < b ^ k \<Longrightarrow> length (nat_digits b n) \<le> k"
proof (induction k arbitrary: n)
  case 0
  then show ?case by (simp add: nat_digits.simps)
next
  case (Suc k)
  then have "length (nat_digits b (n div b)) \<le> k"
    by (intro Suc.IH) (simp_all add: less_mult_imp_div_less mult.commute)
  then show ?case by (subst nat_digits.simps) simp
qed

lemma foldr_nat_digits: "2 \<le> b \<Longrightarrow> foldr (\<lambda>d n. n * b + d) (nat_digits b n) 0 = n"
proof (induction b n rule: nat_digits.induct)
  case (1 b n)
  then show ?case by (subst nat_digits.simps) simp
qed

lemma read_numeral_of:
  assumes "2 \<le> b" "b \<le> 16"
  shows "read_numeral b (numeral_of b n) = n"
proof (cases "n = 0")
  case True
  then show ?thesis by (simp add: read_numeral_def numeral_of_def digit_val_def)
next
  case False
  have "foldr (\<lambda>c n. n * b + digit_val c) (map (\<lambda>d. digit_chars ! d) (nat_digits b n)) 0
      = foldr (\<lambda>d n. n * b + d) (nat_digits b n) 0"
    unfolding foldr_map
    by (intro foldr_cong) (auto dest!: nat_digits_bound intro!: digit_val_char simp: assms less_le_trans [OF _ assms(2)])
  with False show ?thesis
    using assms by (simp add: read_numeral_def numeral_of_def foldl_conv_foldr foldr_nat_digits)
qed

text \<open>\<open>utoa\<close> computes the numeral, in every base whose numerals fit the 32 characters of its buffers.\<close>

lemma utoa_digits_ok:
  assumes "2 \<le> unat b" "unat b \<le> 16" "length temp + length (nat_digits (unat b) (unat v)) \<le> 32"
  shows "utoa_digits v b temp = Inr (temp @ map (\<lambda>d. digit_chars ! d) (nat_digits (unat b) (unat v)))"
  using assms
proof (induction v b temp rule: utoa_digits.induct)
  case (1 v b temp)
  show ?case
  proof (cases "v = 0")
    case True
    then show ?thesis by (simp add: utoa_digits.simps nat_digits.simps)
  next
    case False
    then have nd: "nat_digits (unat b) (unat v) = unat (v mod b) # nat_digits (unat b) (unat (v div b))"
      using "1.prems" by (subst nat_digits.simps) (simp add: unat_eq_0 unat_mod unat_div)
    have b: "b \<noteq> 0" using "1.prems"(1) by auto
    have "unat v mod unat b < unat b" using "1.prems"(1) by simp
    then have "unat (v mod b) < 16" using "1.prems"(2) unfolding unat_mod by (rule less_le_trans)
    then have small: "unat (v mod b) < length digit_chars"
      by (simp add: digit_chars_def)
    have "utoa_digits (v div b) b (temp @ [digit_chars ! unat (v mod b)]) =
        Inr ((temp @ [digit_chars ! unat (v mod b)]) @ map (\<lambda>d. digit_chars ! d) (nat_digits (unat b) (unat (v div b))))"
      using False b small "1.prems" nd by (intro "1.IH") simp_all
    then show ?thesis
      using False b small "1.prems"(3) nd by (subst utoa_digits.simps) simp
  qed
qed

lemma two_64_le: "5 \<le> b \<Longrightarrow> (2 :: nat) ^ 64 \<le> b ^ 31"
  using power_mono [of 5 b 31] by simp

lemma nat_digits_length_64: "5 \<le> b \<Longrightarrow> length (nat_digits b (unat (v :: u64))) \<le> 31"
  using unat_bound(4) [of v] two_64_le [of b] by (intro nat_digits_length) simp_all

lemma utoa_numeral:
  assumes "5 \<le> unat base" "unat base \<le> 16"
  shows "utoa v base = Inr (numeral_of (unat base) (unat v))"
proof -
  have "scast base = (of_nat (unat base) :: u64)"
    using assms scast_of_nat_32_64 [of "unat base"] by simp
  moreover have "unat (of_nat (unat base) :: u64) = unat base"
    by (rule unat_of_nat_64) (use assms in simp)
  ultimately have sb: "unat (scast base :: u64) = unat base"
    by (simp only:)
  have "utoa_digits v (scast base) [] = Inr (map (\<lambda>d. digit_chars ! d) (nat_digits (unat base) (unat v)))"
    using utoa_digits_ok [of "scast base" "[]" v] nat_digits_length_64 [of "unat base" v] assms
    by (simp add: sb)
  then show ?thesis
    by (auto simp: utoa_def numeral_of_def unat_eq_0)
qed

lemma utoa_10: "utoa v 10 = Inr (numeral_of 10 (unat v))"
  using utoa_numeral [of 10 v] by simp

lemma utoa_16: "utoa v 16 = Inr (numeral_of 16 (unat v))"
  using utoa_numeral [of 16 v] by simp

lemma numeral_of_length: "5 \<le> b \<Longrightarrow> length (numeral_of b (unat (v :: u64))) \<le> 31"
  using nat_digits_length_64 [of b v] by (simp add: numeral_of_def)

section \<open>Formats\<close>

text \<open>Text without a percent sign is printed as it is, each newline after a carriage return.\<close>

definition crlf :: "u8 list \<Rightarrow> u8 list" where
  "crlf cs = concat (map (\<lambda>c. if c = 10 then [13, c] else [c]) cs)"

lemma vprintf_literal:
  "byte_of CHR ''%'' \<notin> set cs \<Longrightarrow> vprintf m (cs @ fmt) args con = vprintf m fmt args (con @ crlf cs)"
proof (induction cs arbitrary: con)
  case (Cons c cs)
  then show ?case by (cases "c = 10") (simp_all add: putc_def crlf_def Let_def)
qed (simp add: crlf_def)

lemma vprintf_conv:
  "vprintf m (byte_of CHR ''%'' # f # fmt) args con =
     bind_res (printf_conv m f args con) (\<lambda>(con, args). vprintf m fmt args con)"
  by simp

text \<open>Each conversion, with the sign extension of \<open>(uint64_t) value\<close> resolved.\<close>

lemma scast_nonneg:
  assumes "0 \<le> sint (v :: u32)"
  shows "unat (scast v :: u64) = nat (sint v)"
proof -
  have "sint v < 2 ^ 31" using sint_lt [of v] by simp
  then have "(scast v :: u64) = of_nat (nat (sint v))" "nat (sint v) < 2 ^ 64"
    using assms by (simp_all add: nat_less_iff)
  then show ?thesis by (simp only: unat_of_nat_64)
qed

lemma printf_x: "printf_conv m (byte_of CHR ''x'') (a # args) con = Inr (con @ numeral_of 16 (unat a), args)"
  by (simp add: printf_conv_def utoa_16)

lemma printf_c: "printf_conv m (byte_of CHR ''c'') (a # args) con = Inr (con @ [ucast a], args)"
  by (simp add: printf_conv_def putc_def)

lemma printf_s:
  "cstr m a s \<Longrightarrow> printf_conv m (byte_of CHR ''s'') (a # args) con = Inr (con @ s, args)"
  by (simp add: printf_conv_def puts_cstr)

lemma printf_u:
  "printf_conv m (byte_of CHR ''u'') (a # args) con =
     Inr (con @ numeral_of 10 (unat (scast (ucast a :: u32) :: u64)), args)"
  by (simp add: printf_conv_def utoa_10)

lemma printf_d_raw:
  "printf_conv m (byte_of CHR ''d'') (a # args) con =
     Inr (con @ (if sint (ucast a :: u32) < 0
                 then byte_of CHR ''-'' # numeral_of 10 (unat (scast (- (ucast a :: u32)) :: u64))
                 else numeral_of 10 (unat (scast (ucast a :: u32) :: u64))), args)"
  by (simp add: printf_conv_def utoa_10 Let_def putc_def)

lemma sint_minus_neg:
  assumes "sint (v :: u32) < 0" "sint v \<noteq> - (2 ^ 31)"
  shows "sint (- v) = - sint v"
proof -
  have "- (2 ^ 31) \<le> sint v" using sint_ge [of v] by simp
  with assms show ?thesis
    by (subst sint_word_minus) (simp add: signed_take_bit_int_eq_self)
qed

lemma printf_d:
  assumes "sint (ucast a :: u32) \<noteq> - (2 ^ 31)"
  shows "printf_conv m (byte_of CHR ''d'') (a # args) con = Inr (con @ int_numeral (sint (ucast a :: u32)), args)"
proof (cases "sint (ucast a :: u32) < 0")
  case True
  then have "sint (- (ucast a :: u32)) = - sint (ucast a :: u32)"
    using assms by (rule sint_minus_neg)
  with True show ?thesis
    unfolding printf_d_raw by (simp add: int_numeral_def scast_nonneg)
next
  case False
  then show ?thesis unfolding printf_d_raw by (simp add: int_numeral_def scast_nonneg)
qed

section \<open>The buffer of \<open>vsnprintf\<close>\<close>

text \<open>Literal text is stored whole, whatever the bound \<open>n\<close>, and no terminator follows it.\<close>

lemma vsnprintf_loop_literal:
  assumes "byte_of CHR ''%'' \<notin> set cs" "i + length cs < 2 ^ 32"
  shows "vsnprintf_loop buffer cs args (m, of_nat i, con) =
    Inr (\<lambda>x. if x \<in> span (buffer + of_nat i) (length cs) then cs ! unat (x - (buffer + of_nat i)) else m x,
         of_nat (i + length cs), con)"
  using assms
proof (induction cs arbitrary: i m)
  case (Cons c cs)
  let ?b = "buffer + of_nat i" and ?m = "buf_put buffer (of_nat i) c m"
  have m: "?m = m(?b := c)"
    using Cons.prems by (simp add: buf_put_def ucast_of_nat_32_64)
  have b: "?b + 1 = buffer + of_nat (Suc i)" by (simp add: algebra_simps)
  have "vsnprintf_loop buffer cs args (?m, of_nat (Suc i), con) =
    Inr (\<lambda>x. if x \<in> span (?b + 1) (length cs) then cs ! unat (x - (?b + 1)) else ?m x,
         of_nat (Suc i + length cs), con)"
    unfolding b by (rule Cons.IH) (use Cons.prems in simp_all)
  moreover have "(\<lambda>x. if x \<in> span (?b + 1) (length cs) then cs ! unat (x - (?b + 1)) else ?m x) =
      (\<lambda>x. if x \<in> span ?b (length (c # cs)) then (c # cs) ! unat (x - ?b) else m x)"
  proof
    fix x
    have "unat (x - ?b) = Suc (unat (x - (?b + 1)))" if "x \<in> span (?b + 1) (length cs)"
    proof -
      have "unat (x - (?b + 1)) + 1 < 2 ^ 64" using that Cons.prems(2) by (simp add: span_def)
      then have "unat (x - (?b + 1) + 1) = Suc (unat (x - (?b + 1)))" by (rule unat_succ)
      then show ?thesis by (simp add: algebra_simps)
    qed
    moreover have "?b \<notin> span (?b + 1) (length cs)"
      using Cons.prems(2) by (intro not_in_span_succ) simp
    ultimately show "(if x \<in> span (?b + 1) (length cs) then cs ! unat (x - (?b + 1)) else ?m x) =
        (if x \<in> span ?b (length (c # cs)) then (c # cs) ! unat (x - ?b) else m x)"
      by (simp add: m in_span_Suc del: nth_Cons_Suc)
  qed
  ultimately show ?case
    using Cons.prems by (simp add: add.commute)
qed simp

lemma hd_numeral_of: "numeral_of b n \<noteq> []" if "2 \<le> b"
  using that by (subst numeral_of_def) (subst nat_digits.simps, simp)

end
