(* ===== verification/Klib_Props.thy ===== *)
theory Klib_Props
  imports Klib_Stdio
begin

text \<open>
  The properties of the kernel library's memory, string and output routines, each with a concrete
  instance. They are put together from the lemmas of the component theories.
\<close>

section \<open>Memory\<close>

text \<open>
  \<open>memset\<close> writes the low byte of its value to exactly the \<open>n\<close> bytes at \<open>dest\<close>, for every
  range that does not wrap around the address space and does not start at the null pointer.
\<close>

theorem memset_fills:
  assumes "dest \<noteq> 0" "unat dest + unat n \<le> 2 ^ 64"
  shows "\<exists>m'. memset m dest v n = Inr m' \<and>
    (\<forall>x. m' x = (if unat dest \<le> unat x \<and> unat x < unat dest + unat n then ucast v else m x))"
  using memset_ok [OF assms, of m v] in_span_iff [OF assms(2)] by auto

theorem memset_fills_witness:
  "\<exists>m'. memset (\<lambda>_. 7) 0x1000 0x1ff 3 = Inr m' \<and> m' 0x1002 = 0xff \<and> m' 0x1003 = 7"
  using memset_fills [of "0x1000" 3 "\<lambda>_. 7" "0x1ff"] by auto

text \<open>
  \<open>memcpy\<close> copies: every byte of the destination gets the byte the source had before the call,
  and nothing else changes. The ranges may overlap as long as the destination does not start inside
  the source, since the copy runs upwards.
\<close>

theorem memcpy_copies:
  assumes "dest \<noteq> 0" "src \<noteq> 0" "unat dest + unat n \<le> 2 ^ 64" "unat src + unat n \<le> 2 ^ 64"
    and "unat dest \<le> unat src \<or> unat src + unat n \<le> unat dest"
  shows "\<exists>m'. memcpy m dest src n = Inr m' \<and>
    (\<forall>i < unat n. m' (dest + of_nat i) = m (src + of_nat i)) \<and>
    (\<forall>x. \<not> (unat dest \<le> unat x \<and> unat x < unat dest + unat n) \<longrightarrow> m' x = m x)"
proof -
  have safe: "copy_safe dest src (unat n)" using assms(3-5) by (simp add: copy_safe_def)
  have "dest + of_nat i \<in> span dest (unat n)" if "i < unat n" for i
    using that unat_bound(4) [of n] by (simp add: span_def unat_of_nat_64)
  then show ?thesis using memcpy_ok [OF assms(1,2) safe, of m] in_span_iff [OF assms(3)] by auto
qed

theorem memcpy_copies_witness:
  "\<exists>m'. memcpy (\<lambda>a. ucast a) 0x1000 0x1002 4 = Inr m' \<and> m' 0x1001 = 3 \<and> m' 0x1004 = 4"
proof -
  obtain m' where m': "memcpy (\<lambda>a. ucast a) 0x1000 0x1002 4 = Inr m'"
    "\<forall>i < unat (4 :: u64). m' (0x1000 + of_nat i) = ucast (0x1002 + of_nat i :: u64)"
    "\<forall>x. \<not> (unat (0x1000 :: u64) \<le> unat x \<and> unat x < unat (0x1000 :: u64) + unat (4 :: u64)) \<longrightarrow> m' x = ucast x"
    using memcpy_copies [of "0x1000" "0x1002" 4 "\<lambda>a. ucast a"] by auto
  have "m' 0x1001 = 3" using m'(2) [rule_format, of 1] by simp
  moreover have "m' 0x1004 = 4" using m'(3) [rule_format, of "0x1004"] by simp
  ultimately show ?thesis using m'(1) by blast
qed

text \<open>
  \<open>memcmp\<close> of less than \<open>2 ^ 32\<close> bytes returns 0 exactly when the buffers agree, and otherwise
  the difference of the first two bytes that differ, as a signed integer.
\<close>

theorem memcmp_first_difference:
  assumes "unat n < 2 ^ 32"
  shows "\<exists>r. memcmp m a b n = Some r \<and>
    ((\<forall>i < unat n. m (a + of_nat i) = m (b + of_nat i)) \<and> r = 0 \<or>
     (\<exists>j < unat n. (\<forall>i < j. m (a + of_nat i) = m (b + of_nat i)) \<and>
        m (a + of_nat j) \<noteq> m (b + of_nat j) \<and> sint r = uint (m (a + of_nat j)) - uint (m (b + of_nat j)) \<and> r \<noteq> 0))"
proof -
  let ?d = "\<lambda>i. m (a + of_nat i) \<noteq> m (b + of_nat i)"
  have spec: "memcmp m a b n = Some (case first_diff m a b 0 (unat n) of
      None \<Rightarrow> 0 | Some j \<Rightarrow> byte_diff (m (a + of_nat j)) (m (b + of_nat j)))"
    using memcmp_loop_spec [of 0 n m a b] assms by (simp add: memcmp_def)
  show ?thesis
  proof (cases "first_diff m a b 0 (unat n)")
    case None
    then have "\<forall>i < unat n. m (a + of_nat i) = m (b + of_nat i)"
      by (auto simp: first_diff_def find_None_iff)
    then show ?thesis using spec None by auto
  next
    case (Some j)
    then have j: "j < unat n" "?d j" "\<And>i. i < j \<Longrightarrow> \<not> ?d i"
      by (auto simp: first_diff_def find_Some_iff)
    have "sint (byte_diff (m (a + of_nat j)) (m (b + of_nat j))) \<noteq> 0"
      using j(2) by (simp add: sint_byte_diff word_uint_eq_iff)
    then have "byte_diff (m (a + of_nat j)) (m (b + of_nat j)) \<noteq> 0" by auto
    then show ?thesis using spec Some j by (auto simp: sint_byte_diff)
  qed
qed

theorem memcmp_first_difference_witness:
  "\<exists>r. memcmp (\<lambda>x. if x = 0x1001 then 3 else 5) 0x1000 0x2000 4 = Some r \<and> sint r = - 2"
proof -
  let ?m = "\<lambda>x :: u64. if x = 0x1001 then 3 else 5 :: u8"
  have diff: "?m (0x1000 + of_nat i) = ?m (0x2000 + of_nat i) \<longleftrightarrow> i \<noteq> 1" if "i < 4" for i
  proof -
    have "i = 0 \<or> i = 1 \<or> i = 2 \<or> i = 3" using that by linarith
    then show ?thesis by auto
  qed
  have "\<not> (\<forall>i < unat (4 :: u64). ?m (0x1000 + of_nat i) = ?m (0x2000 + of_nat i))"
    using diff [of 1] by (intro notI) (drule spec [of _ 1], simp)
  moreover have "unat (4 :: u64) < 2 ^ 32" by simp
  ultimately obtain r j where r: "memcmp ?m 0x1000 0x2000 4 = Some r" and j: "j < unat (4 :: u64)"
    "?m (0x1000 + of_nat j) \<noteq> ?m (0x2000 + of_nat j)"
    "sint r = uint (?m (0x1000 + of_nat j)) - uint (?m (0x2000 + of_nat j))"
    using memcmp_first_difference [of 4 ?m "0x1000" "0x2000"] by meson
  have "j = 1" using diff [of j] j(1,2) by (simp only: unat_numeral) simp
  then show ?thesis using r j(3) by simp
qed

text \<open>
  \<open>memcmp\<close> counts with a 32-bit index but takes a 64-bit length: on buffers that agree at every
  offset below \<open>2 ^ 32\<close> a length of \<open>2 ^ 32\<close> or more makes it run for ever.
\<close>

theorem memcmp_spins:
  assumes "2 ^ 32 \<le> unat n" "\<And>i :: u32. m (a + ucast i) = m (b + ucast i)"
  shows "memcmp m a b n = None"
  using memcmp_loop_None [OF assms] by (simp add: memcmp_def)

theorem memcmp_spins_witness: "memcmp (\<lambda>_. 0) 0x1000 0x2000 0x100000000 = None"
  by (rule memcmp_spins) simp_all

text \<open>
  \<open>align_up\<close> to a power of two gives the least multiple that is not below the value, unless
  rounding leaves the 64 bits.
\<close>

theorem align_up_least:
  assumes "k < 64" "unat v + 2 ^ k \<le> 2 ^ 64"
  shows "2 ^ k dvd unat (align_up v (2 ^ k)) \<and> unat v \<le> unat (align_up v (2 ^ k)) \<and>
    unat (align_up v (2 ^ k)) < unat v + 2 ^ k"
proof -
  let ?p = "2 ^ k :: nat" and ?q = "(unat v + 2 ^ k - 1) div 2 ^ k"
  have "0 < ?p" by simp
  have "?q * ?p + (unat v + ?p - 1) mod ?p = unat v + ?p - 1" by (rule div_mult_mod_eq)
  moreover have "(unat v + ?p - 1) mod ?p < ?p" using \<open>0 < ?p\<close> by simp
  ultimately have "unat v \<le> ?q * ?p" "?q * ?p < unat v + ?p" using \<open>0 < ?p\<close> by linarith+
  then show ?thesis unfolding align_up_div [OF assms] by simp
qed

theorem align_up_least_witness: "unat (align_up 4097 (2 ^ 12)) = 8192"
proof -
  have "4096 dvd unat (align_up 4097 (2 ^ 12)) \<and> 4097 \<le> unat (align_up 4097 (2 ^ 12)) \<and> unat (align_up 4097 (2 ^ 12)) < 8193"
    using align_up_least [of 12 4097] by simp
  then obtain q where "unat (align_up 4097 (2 ^ 12)) = 4096 * q" "4097 \<le> 4096 * q" "4096 * q < 8193" by (auto elim!: dvdE)
  moreover from this have "q = 2" by simp
  ultimately show ?thesis by simp
qed

section \<open>Strings\<close>

text \<open>A string laid out in memory, for the concrete instances.\<close>

fun put_str :: "u64 \<Rightarrow> u8 list \<Rightarrow> mem \<Rightarrow> mem" where
  "put_str p [] m = m(p := 0)"
| "put_str p (c # cs) m = (put_str (p + 1) cs m)(p := c)"

text \<open>
  \<open>strcat\<close> puts the second string behind the first when it fits there, touches no other byte,
  and returns the address where the first string ended, not the destination it was given.
\<close>

theorem strcat_appends:
  assumes "cstr m dst s" "cstr m src t" "length s < 2 ^ 32" "length t < 2 ^ 64 - 1"
    and "span (dst + of_nat (length s)) (Suc (length t)) \<inter> span src (Suc (length t)) = {}"
    and "span (dst + of_nat (length s)) (Suc (length t)) \<inter> span dst (length s) = {}"
  shows "\<exists>m'. strcat m dst src = Some (m', dst + of_nat (length s)) \<and> cstr m' dst (s @ t) \<and>
    (\<forall>x. x \<notin> span (dst + of_nat (length s)) (Suc (length t)) \<longrightarrow> m' x = m x)"
  using strcat_cstr [OF assms] by metis

theorem strcat_appends_witness:
  "\<exists>m'. strcat (put_str 0x1000 [104, 105] (put_str 0x2000 [33] (\<lambda>_. 7))) 0x1000 0x2000 = Some (m', 0x1002) \<and>
     cstr m' 0x1000 [104, 105, 33]"
proof -
  let ?m = "put_str 0x1000 [104, 105] (put_str 0x2000 [33] (\<lambda>_. 7))"
  have "cstr ?m 0x1000 [104, 105]" "cstr ?m 0x2000 [33]" by simp_all
  moreover have "span (0x1000 + of_nat (length [104, 105 :: u8])) (Suc (length [33 :: u8])) \<inter> span 0x2000 (Suc (length [33 :: u8])) = {}"
    "span (0x1000 + of_nat (length [104, 105 :: u8])) (Suc (length [33 :: u8])) \<inter> span 0x1000 (length [104, 105 :: u8]) = {}"
    by (rule span_disjoint; simp)+
  ultimately show ?thesis using strcat_appends [of ?m "0x1000" "[104, 105]" "0x2000" "[33]"] by auto
qed

text \<open>
  \<open>strcmp\<close> of two strings of less than \<open>2 ^ 31\<close> bytes ends, and returns 0 exactly when they
  are equal; any other result is a single byte, since the difference is kept in a \<open>char\<close>.
\<close>

theorem strcmp_zero_iff_equal:
  assumes "cstr m a s" "cstr m b t" "length s < 2 ^ 31"
  shows "\<exists>r. strcmp m a b = Some r \<and> (r = 0 \<longleftrightarrow> s = t) \<and> unat r < 256"
  using strcmp_cstr [OF assms] str_diff_eq_0_iff [OF cstr_nonzero [OF assms(1)] cstr_nonzero [OF assms(2)]] str_diff_byte
  by simp

theorem strcmp_zero_iff_equal_witness:
  "\<exists>r. strcmp (put_str 0x1000 [104, 105] (put_str 0x2000 [104, 33] (\<lambda>_. 7))) 0x1000 0x2000 = Some r \<and> r \<noteq> 0"
  using strcmp_zero_iff_equal [of "put_str 0x1000 [104, 105] (put_str 0x2000 [104, 33] (\<lambda>_. 7))" "0x1000" "[104, 105]" "0x2000" "[104, 33]"]
  by auto

text \<open>
  (C40) \<open>strtok_r\<close> implements splitting at delimiters: called on a string it returns the next token,
  terminated in place, and leaves in \<open>save_ptr\<close> the rest of the string, on which a call with a null
  first argument goes on; when only delimiters are left it returns the null pointer and changes nothing.
\<close>

theorem strtok_r_next_token:
  assumes "cstr m delim d" "str_fits delim d" "cstr m p s" "str_fits p s"
    and "span p (Suc (length s)) \<inter> span delim (Suc (length d)) = {}" "next_token d s = (t, rest)"
  shows "\<exists>m' tok sv. strtok_r m p delim save = Some (m', tok, sv) \<and> strtok_r m 0 delim p = Some (m', tok, sv) \<and>
    cstr m' sv rest \<and> str_fits sv rest \<and> cstr m' delim d \<and>
    (if t = [] then tok = 0 \<and> m' = m else tok \<noteq> 0 \<and> cstr m' tok t)"
proof -
  have "p \<noteq> 0" "delim \<noteq> 0" using assms(2,4) by (simp_all add: str_fits_def)
  then have "strtok_r m 0 delim p = strtok_r m p delim save" by (rule strtok_r_resume)
  then show ?thesis using strtok_r_cstr [OF assms, of save] by metis
qed

theorem strtok_r_next_token_witness:
  "\<exists>m' tok sv. strtok_r (put_str 0x1000 [32, 104, 105, 32, 33] (put_str 0x2000 [32] (\<lambda>_. 7))) 0x1000 0x2000 0 = Some (m', tok, sv) \<and>
     cstr m' tok [104, 105] \<and> cstr m' sv [33]"
proof -
  let ?m = "put_str 0x1000 [32, 104, 105, 32, 33] (put_str 0x2000 [32] (\<lambda>_. 7))"
  have "cstr ?m 0x2000 [32]" "cstr ?m 0x1000 [32, 104, 105, 32, 33]" by simp_all
  moreover have "span 0x1000 (Suc (length [32, 104, 105, 32, 33 :: u8])) \<inter> span 0x2000 (Suc (length [32 :: u8])) = {}"
    by (rule span_disjoint) simp_all
  ultimately show ?thesis
    using strtok_r_next_token [of ?m "0x2000" "[32]" "0x1000" "[32, 104, 105, 32, 33]" "[104, 105]" "[33]" 0]
    by (auto simp: str_fits_def next_token_def)
qed

section \<open>Output\<close>



text \<open>
  \<open>vprintf\<close> on text followed by \<open>%d\<close> prints the text, with a carriage return before every
  newline, then the argument in decimal with its sign, and goes on with the rest of the format. The
  smallest 32-bit integer is the one exception.
\<close>

theorem vprintf_decimal:
  assumes "byte_of CHR ''%'' \<notin> set cs" "sint (ucast a :: u32) \<noteq> - (2 ^ 31)"
  shows "vprintf m (cs @ byte_of CHR ''%'' # byte_of CHR ''d'' # fmt) (a # args) con =
    vprintf m fmt args (con @ crlf cs @ int_numeral (sint (ucast a :: u32)))"
  unfolding vprintf_literal [OF assms(1)] vprintf_conv printf_d [OF assms(2)] by simp

theorem vprintf_decimal_witness:
  "vprintf (\<lambda>_. 0) ([110, 10] @ byte_of CHR ''%'' # byte_of CHR ''d'' # []) [0xFFFFFFD6] [] = Inr [110, 13, 10, 45, 52, 50]"
proof -
  have "nat_digits 10 42 = [2, 4]" by (simp add: nat_digits.simps)
  then have "int_numeral (- 42) = [45, 52, 50]" by (simp add: int_numeral_def numeral_of_def digit_chars_def)
  then show ?thesis
    by (subst vprintf_decimal) (simp_all add: crlf_def)
qed

text \<open>
  \<open>%u\<close> reads an \<open>int\<close> and widens it with its sign: every unsigned argument from \<open>2 ^ 31\<close> on is
  printed \<open>2 ^ 64 - 2 ^ 32\<close> too large.
\<close>

theorem printf_unsigned_widens_sign:
  assumes "2 ^ 31 \<le> unat (ucast a :: u32)"
  shows "printf_conv m (byte_of CHR ''u'') (a # args) con =
    Inr (con @ numeral_of 10 (unat (ucast a :: u32) + (2 ^ 64 - 2 ^ 32)), args)"
proof -
  let ?v = "ucast a :: u32"
  let ?k = "int (unat ?v) - 2 ^ 32"
  have v: "?v = word_of_int ?k" by (simp add: wi_hom_sub [symmetric])
  have range: "- 2147483648 \<le> ?k" "?k < 2147483648" using assms unat_bound(3) [of ?v] by (simp_all del: of_nat_unat)
  have sk: "sint ?v = ?k"
    by (subst v) (use range in \<open>simp only: sint_sbintrunc'\<close>, use range in \<open>simp add: signed_take_bit_int_eq_self\<close>)
  have "(scast ?v :: u64) = word_of_int ?k" by (metis of_int_sint sk)
  also have "\<dots> = of_nat (unat ?v + (2 ^ 64 - 2 ^ 32))" by (simp add: wi_hom_sub [symmetric])
  finally have "unat (scast ?v :: u64) = unat ?v + (2 ^ 64 - 2 ^ 32)"
    using unat_bound(3) [of ?v] unat_of_nat_64 [of "unat ?v + (2 ^ 64 - 2 ^ 32)"] by simp
  then show ?thesis by (subst printf_u) simp
qed

theorem printf_unsigned_widens_sign_witness:
  "printf_conv (\<lambda>_. 0) (byte_of CHR ''u'') [0x80000000] [] = Inr (numeral_of 10 18446744071562067968, [])"
  by (subst printf_unsigned_widens_sign) simp_all

text \<open>
  A format that ends in a percent sign makes \<open>vprintf\<close> step over the terminator and read on
  behind the string, whatever was printed before.
\<close>

theorem vprintf_trailing_percent:
  assumes "byte_of CHR ''%'' \<notin> set cs"
  shows "vprintf m (cs @ [byte_of CHR ''%'']) args con = Inl OutOfBounds"
  unfolding vprintf_literal [OF assms] by simp

theorem vprintf_trailing_percent_witness: "vprintf (\<lambda>_. 0) ([104] @ [byte_of CHR ''%'']) [] [] = Inl OutOfBounds"
  by (rule vprintf_trailing_percent) simp

text \<open>
  \<open>vsnprintf\<close> does not look at its size argument and does not terminate its result: a format
  without conversions is copied whole, for every \<open>n\<close>, and the byte behind it keeps its old value.
\<close>

theorem vsnprintf_ignores_size:
  assumes "byte_of CHR ''%'' \<notin> set cs" "length cs < 2 ^ 32"
  shows "\<exists>m'. vsnprintf buffer n cs args m con = Inr (m', con) \<and>
    (\<forall>i < length cs. m' (buffer + of_nat i) = cs ! i) \<and>
    m' (buffer + of_nat (length cs)) = m (buffer + of_nat (length cs))"
proof -
  let ?m' = "\<lambda>x. if x \<in> span buffer (length cs) then cs ! unat (x - buffer) else m x"
  have "vsnprintf buffer n cs args m con = Inr (?m', con)"
    using vsnprintf_loop_literal [of cs 0 buffer args m con] assms by (simp add: vsnprintf_def cong: if_cong)
  moreover have "?m' (buffer + of_nat i) = cs ! i" if "i < length cs" for i
    using that assms(2) by (simp add: span_def unat_of_nat_64)
  moreover have "buffer + of_nat (length cs) \<notin> span buffer (length cs)"
    using assms(2) by (simp add: span_def unat_of_nat_64)
  ultimately show ?thesis by auto
qed

theorem vsnprintf_ignores_size_witness:
  "\<exists>m'. vsnprintf 0x1000 1 [104, 105] [] (\<lambda>_. 7) [] = Inr (m', []) \<and> m' 0x1001 = 105 \<and> m' 0x1002 = 7"
proof -
  obtain m' where m': "vsnprintf 0x1000 1 [104, 105] [] (\<lambda>_. 7) [] = Inr (m', [])"
    "\<forall>i < length [104, 105 :: u8]. m' (0x1000 + of_nat i) = [104, 105 :: u8] ! i"
    "m' (0x1000 + of_nat (length [104, 105 :: u8])) = 7"
    using vsnprintf_ignores_size [of "[104, 105]" "0x1000" 1 "[]" "\<lambda>_. 7" "[]"] by auto
  have "m' 0x1001 = 105" using m'(2) [rule_format, of 1] by simp
  then show ?thesis using m'(1,3) by simp
qed

end
