(* ===== verification/Page_Source.thy ===== *)
theory Page_Source
  imports Prelude
begin

text \<open>
  The contract between the page allocator and its clients, the page tables and the process table:
  what \<open>kalloc(1)\<close> promises about the page it returns, and what a client may do to memory without
  breaking the allocator. \<open>inv s F\<close> reads: the allocator is consistent in state \<open>s\<close> and the bytes at
  the addresses \<open>F\<close> are free. The clients' view of allocation is derived here once; the allocator's
  theory interprets the locale on the code's model.
\<close>

definition page_at :: "u64 \<Rightarrow> nat set" where
  "page_at p = {unat p ..< unat p + 4096}"

lemma finite_page [simp]: "finite (page_at p)"
  by (simp add: page_at_def)

lemma card_page [simp]: "card (page_at p) = 4096"
  by (simp add: page_at_def)

lemma page_ne: "unat p \<in> page_at p"
  by (simp add: page_at_def)

text \<open>An aligned word inside an aligned page.\<close>

lemma page_no_wrap: "4096 dvd unat (p :: u64) \<Longrightarrow> unat p + 4096 \<le> 2 ^ 64"
proof -
  assume "4096 dvd unat p"
  then obtain q where "unat p = 4096 * q" by (auto elim: dvdE)
  moreover have "unat p < 2 ^ 64" by (rule unat_bound(4))
  ultimately have "4096 * (q + 1) \<le> 4096 * 2 ^ 52" by simp
  with \<open>unat p = 4096 * q\<close> show ?thesis by simp
qed

lemma pages_disjoint:
  assumes "4096 dvd unat p" "4096 dvd unat q" "p \<noteq> q"
  shows "page_at p \<inter> page_at q = {}"
proof -
  obtain i j where ij: "unat p = 4096 * i" "unat q = 4096 * j" using assms(1,2) by (auto elim!: dvdE)
  moreover have "unat p \<noteq> unat q" using assms(3) by (metis word_unat_eq_iff)
  ultimately have "i < j \<or> j < i" by auto
  then show ?thesis using ij by (auto simp: page_at_def)
qed

locale page_source =
  fixes alloc :: "'s \<Rightarrow> (u64 \<times> 's) res"
    and inv :: "'s \<Rightarrow> nat set \<Rightarrow> bool"
    and mem_of :: "'s \<Rightarrow> mem"
    and set_mem :: "mem \<Rightarrow> 's \<Rightarrow> 's"
  assumes alloc_page: "inv s F \<Longrightarrow> alloc s = Inr (p, s') \<Longrightarrow>
      p \<noteq> 0 \<and> 4096 dvd unat p \<and> page_at p \<subseteq> F \<and> inv s' (F - page_at p)"
    and alloc_zero: "inv s F \<Longrightarrow> alloc s = Inr (p, s') \<Longrightarrow> unat a \<in> page_at p \<Longrightarrow> mem_of s' a = 0"
    and alloc_keeps: "inv s F \<Longrightarrow> alloc s = Inr (p, s') \<Longrightarrow> unat a \<notin> F \<Longrightarrow> mem_of s' a = mem_of s a"
    and alloc_succeeds: "inv s F \<Longrightarrow> F \<noteq> {} \<Longrightarrow> \<exists>p s'. alloc s = Inr (p, s')"
    and inv_frame: "inv s F \<Longrightarrow> (\<And>a. unat a \<in> F \<Longrightarrow> m a = mem_of s a) \<Longrightarrow> inv (set_mem m s) F"
    and mem_of_set_mem: "mem_of (set_mem m s) = m"
begin

text \<open>A page the client owns is one outside the free set; an allocated page becomes owned.\<close>

lemma alloc_owned: "inv s F \<Longrightarrow> alloc s = Inr (p, s') \<Longrightarrow> page_at p \<inter> (F - page_at p) = {}"
  by blast

lemma alloc_keeps_owned:
  "inv s F \<Longrightarrow> alloc s = Inr (p, s') \<Longrightarrow> page_at q \<inter> F = {} \<Longrightarrow> page_at q \<inter> (F - page_at p) = {} \<and> page_at p \<inter> page_at q = {}"
  using alloc_page by blast

lemma alloc_twice_disjoint:
  assumes "inv s F" "alloc s = Inr (p, s')" "alloc s' = Inr (q, s'')"
  shows "page_at p \<inter> page_at q = {}"
  using alloc_page [OF assms(1,2)] alloc_page [of s' "F - page_at p" q s''] assms(3) by blast

text \<open>Writing a word that is not free.\<close>

lemma store_owned:
  assumes "inv s F" "\<And>a. a \<in> span x 8 \<Longrightarrow> unat a \<notin> F"
  shows "inv (set_mem (store64 (mem_of s) x v) s) F"
  using assms by (intro inv_frame) (auto intro!: store64_other)

text \<open>The number of free bytes goes down by a page, so enough free bytes are enough for every call.\<close>

lemma alloc_card:
  assumes "inv s F" "alloc s = Inr (p, s')" "finite F"
  shows "card (F - page_at p) + 4096 = card F"
proof -
  have sub: "page_at p \<subseteq> F" using alloc_page [OF assms(1,2)] by blast
  then have "card (page_at p) \<le> card F" using assms(3) by (rule card_mono [rotated])
  with sub show ?thesis by (simp add: card_Diff_subset)
qed

lemma alloc_enough:
  assumes "inv s F" "0 < card F"
  obtains p s' where "alloc s = Inr (p, s')"
  using alloc_succeeds [OF assms(1)] assms(2) by fastforce

end

end
