(* ===== verification/Buddy.thy ===== *)
theory Buddy
  imports Klib_Stdio Page_Source
begin

text \<open>
  The page allocator of \<open>klib/stdlib.c\<close>: a buddy allocator whose free lists are threaded through
  the free blocks themselves. \<open>kst\<close> is the state of the kernel library: the memory, the console
  and the static variables of the allocator. An address \<open>x\<close> on list \<open>k\<close> is a free block of
  \<open>2 ^ k\<close> pages whose first eight bytes hold the address of the next one.
\<close>

section \<open>State\<close>

record kst =
  kmem :: mem
  console :: console
  free_lists :: "u64 list"
  heap_start :: u64
  heap_end :: u64

definition MAX_ORDER :: nat where
  "MAX_ORDER = 10"

section \<open>The routines\<close>

function order_loop :: "nat \<Rightarrow> nat \<Rightarrow> nat \<Rightarrow> nat" where
  "order_loop pages sz order =
     (if sz < pages \<and> order \<le> MAX_ORDER then order_loop pages (2 * sz) (Suc order) else order)"
  by pat_completeness auto
termination
  by (relation "measure (\<lambda>(pages, sz, order). Suc MAX_ORDER - order)") auto

declare order_loop.simps [simp del]

definition order_for_pages :: "u64 \<Rightarrow> nat" where
  "order_for_pages pages = order_loop (unat pages) 1 0"

definition block_size :: "nat \<Rightarrow> u64" where
  "block_size order = push_bit order PAGE_SIZE"

definition buddy_addr :: "u64 \<Rightarrow> nat \<Rightarrow> u64" where
  "buddy_addr addr order = addr XOR block_size order"

text \<open>\<open>block->next = free_lists[order]; free_lists[order] = block;\<close>\<close>

definition push_free :: "u64 \<Rightarrow> nat \<Rightarrow> kst \<Rightarrow> kst" where
  "push_free block order s =
     s\<lparr>kmem := store64 (kmem s) block (free_lists s ! order), free_lists := (free_lists s)[order := block]\<rparr>"

function init_inner :: "nat \<Rightarrow> u64 \<Rightarrow> nat \<Rightarrow> kst \<Rightarrow> u64 \<times> nat \<times> kst" where
  "init_inner order addr total_pages s =
     (if 2 ^ order \<le> total_pages
      then init_inner order (addr + block_size order) (total_pages - 2 ^ order) (push_free addr order s)
      else (addr, total_pages, s))"
  by pat_completeness auto
termination
proof (relation "measure (\<lambda>(order, addr, total_pages, s). total_pages)")
  fix order total_pages :: nat and addr :: u64 and s :: kst
  assume "2 ^ order \<le> total_pages"
  moreover have "0 < (2 :: nat) ^ order" by simp
  ultimately have "total_pages - 2 ^ order < total_pages" by linarith
  then show "((order, addr + block_size order, total_pages - 2 ^ order, push_free addr order s), order, addr, total_pages, s)
      \<in> measure (\<lambda>(order, addr, total_pages, s). total_pages)" by simp
qed simp

declare init_inner.simps [simp del]

text \<open>The argument counts the orders still to do: \<open>for (order = MAX_ORDER; order >= 0; order--)\<close>.\<close>

fun init_outer :: "nat \<Rightarrow> u64 \<Rightarrow> nat \<Rightarrow> kst \<Rightarrow> kst" where
  "init_outer 0 addr total_pages s = s"
| "init_outer (Suc order) addr total_pages s =
     (case init_inner order addr total_pages s of
        (addr, total_pages, s) \<Rightarrow> init_outer order addr total_pages s)"

definition init_memory :: "kst \<Rightarrow> kst res" where
  "init_memory s =
     (let total_pages = (heap_end s - heap_start s) div PAGE_SIZE in
      bind_res (printf (kmem s) (''klibc: Pages available: %d'' @ [CHR 0x0A]) [total_pages] (console s)) (\<lambda>con.
        Inr (init_outer (Suc MAX_ORDER) (heap_start s) (unat total_pages) (s\<lparr>console := con\<rparr>))))"

function find_order :: "u64 list \<Rightarrow> nat \<Rightarrow> nat" where
  "find_order fl cur = (if cur \<le> MAX_ORDER \<and> fl ! cur = 0 then find_order fl (Suc cur) else cur)"
  by pat_completeness auto
termination
  by (relation "measure (\<lambda>(fl, cur). Suc MAX_ORDER - cur)") auto

declare find_order.simps [simp del]

text \<open>One round of the splitting loop, from order \<open>Suc k\<close> to \<open>k\<close>.\<close>

definition split_block :: "nat \<Rightarrow> kst \<Rightarrow> kst" where
  "split_block k s =
     (let block = free_lists s ! Suc k;
          fl = (free_lists s)[Suc k := load64 (kmem s) block];
          b1 = block;
          b2 = b1 + block_size k;
          m = store64 (kmem s) b1 b2;
          m = store64 m b2 (fl ! k)
      in s\<lparr>kmem := m, free_lists := fl[k := b1]\<rparr>)"

fun split_down :: "nat \<Rightarrow> nat \<Rightarrow> kst \<Rightarrow> kst" where
  "split_down 0 order s = s"
| "split_down (Suc k) order s = (if order < Suc k then split_down k order (split_block k s) else s)"

text \<open>The result 0 is the null pointer.\<close>

definition kalloc_order :: "nat \<Rightarrow> kst \<Rightarrow> u64 \<times> kst" where
  "kalloc_order order s =
     (if MAX_ORDER < order then (0, s)
      else let cur = find_order (free_lists s) order in
        if MAX_ORDER < cur then (0, s)
        else let s = split_down cur order s;
                 result = free_lists s ! order
             in (result, s\<lparr>free_lists := (free_lists s)[order := load64 (kmem s) result]\<rparr>))"

definition kalloc :: "u64 \<Rightarrow> kst \<Rightarrow> (u64 \<times> kst) res" where
  "kalloc n s =
     (case kalloc_order (order_for_pages n) s of (page, s) \<Rightarrow>
        bind_res (memset (kmem s) page 0 (PAGE_SIZE * n)) (\<lambda>m. Inr (page, s\<lparr>kmem := m\<rparr>)))"

text \<open>
  The search of a free list for the buddy: \<open>Some None\<close> when the list ends, \<open>Some (Some prev)\<close> when
  the buddy is found behind \<open>prev\<close> (0 at the head), \<open>None\<close> when the list has no end.
\<close>

partial_function (option) buddy_search :: "mem \<Rightarrow> u64 \<Rightarrow> u64 \<Rightarrow> u64 \<Rightarrow> u64 option option" where
  "buddy_search m buddy prev cur =
     (if cur = 0 then Some None
      else if cur = buddy then Some (Some prev)
      else buddy_search m buddy cur (load64 m cur))"

definition unlink :: "nat \<Rightarrow> u64 \<Rightarrow> u64 \<Rightarrow> kst \<Rightarrow> kst" where
  "unlink order prev cur s =
     (if prev \<noteq> 0 then s\<lparr>kmem := store64 (kmem s) prev (load64 (kmem s) cur)\<rparr>
      else s\<lparr>free_lists := (free_lists s)[order := load64 (kmem s) cur]\<rparr>)"

function kfree_merge :: "u64 \<Rightarrow> nat \<Rightarrow> kst \<Rightarrow> (u64 \<times> nat \<times> kst) option" where
  "kfree_merge addr order s =
     (if order < MAX_ORDER then
        (let buddy = buddy_addr addr order in
         case buddy_search (kmem s) buddy 0 (free_lists s ! order) of
           None \<Rightarrow> None
         | Some None \<Rightarrow> Some (addr, order, s)
         | Some (Some prev) \<Rightarrow>
             kfree_merge (if addr < buddy then addr else buddy) (Suc order) (unlink order prev buddy s))
      else Some (addr, order, s))"
  by pat_completeness auto
termination
  by (relation "measure (\<lambda>(addr, order, s). MAX_ORDER - order)") auto

declare kfree_merge.simps [simp del]

definition kfree_order :: "u64 \<Rightarrow> nat \<Rightarrow> kst \<Rightarrow> kst option" where
  "kfree_order ptr order s =
     (if MAX_ORDER < order then Some s
      else map_option (\<lambda>(addr, order, s). push_free addr order s) (kfree_merge ptr order s))"

definition kfree_size :: "u64 \<Rightarrow> u64 \<Rightarrow> kst \<Rightarrow> kst option" where
  "kfree_size ptr bytes s = kfree_order ptr (order_for_pages ((bytes + PAGE_SIZE - 1) div PAGE_SIZE)) s"

end
