(* ===== verification/Buddy_Lists.thy ===== *)
theory Buddy_Lists
  imports Buddy
begin

text \<open>
  The free lists of the page allocator. The well-formedness \<open>buddy_wf s Ls\<close> says what the lists \<open>Ls\<close>
  hold; \<open>buddy_inv s F\<close> is its abstraction, with \<open>F\<close> the set of the addresses of the free bytes. The block
  operations \<open>pop\<close>, \<open>push_free\<close> and \<open>unlink\<close> are shown to keep well-formedness once and the routines are
  composed of them.
\<close>

section \<open>Linked lists in memory\<close>

fun chain :: "mem \<Rightarrow> u64 \<Rightarrow> u64 list \<Rightarrow> bool" where
  "chain m p [] \<longleftrightarrow> p = 0"
| "chain m p (x # xs) \<longleftrightarrow> p = x \<and> x \<noteq> 0 \<and> chain m (load64 m x) xs"

lemma chain_cong:
  "(\<And>x a. x \<in> set xs \<Longrightarrow> a \<in> span x 8 \<Longrightarrow> m' a = m a) \<Longrightarrow> chain m' p xs \<longleftrightarrow> chain m p xs"
proof (induction xs arbitrary: p)
  case (Cons x xs)
  have "load64 m' x = load64 m x" by (intro load64_cong Cons.prems) simp_all
  moreover have "chain m' q xs \<longleftrightarrow> chain m q xs" for q by (intro Cons.IH) (auto intro: Cons.prems)
  ultimately show ?case by simp
qed simp

lemma chain_head: "chain m p xs \<Longrightarrow> p = 0 \<longleftrightarrow> xs = []"
  by (cases xs) auto

lemma chain_middle: "chain m p (ys @ b # zs) \<Longrightarrow> chain m (load64 m b) zs"
  by (induction ys arbitrary: p) auto

text \<open>The first word of each block is its own.\<close>

definition words_apart :: "u64 list \<Rightarrow> bool" where
  "words_apart xs \<longleftrightarrow> distinct xs \<and> (\<forall>x \<in> set xs. \<forall>y \<in> set xs. x \<noteq> y \<longrightarrow> span x 8 \<inter> span y 8 = {})"

lemma chain_unlink:
  assumes "chain m p (ys @ b # zs)" "words_apart (ys @ b # zs)" "ys \<noteq> []"
  shows "chain (store64 m (last ys) (load64 m b)) p (ys @ zs)"
  using assms
proof (induction ys arbitrary: p)
  case (Cons y ys)
  let ?m = "store64 m (last (y # ys)) (load64 m b)"
  show ?case
  proof (cases "ys = []")
    case True
    have "chain ?m (load64 m b) zs \<longleftrightarrow> chain m (load64 m b) zs"
    proof (rule chain_cong)
      fix x a assume x: "x \<in> set zs" "a \<in> span x 8"
      then have "span y 8 \<inter> span x 8 = {}"
        using Cons.prems(2) by (auto simp: words_apart_def)
      with x show "?m a = m a" using True by (intro store64_other) auto
    qed
    with Cons.prems(1) True show ?thesis by (simp add: load64_store64_same)
  next
    case False
    then have "last ys \<in> set ys" by simp
    then have "span (last ys) 8 \<inter> span y 8 = {}"
      using Cons.prems(2) by (auto simp: words_apart_def)
    then have "load64 ?m y = load64 m y" using False by (simp add: load64_store64_other)
    moreover have "chain ?m (load64 m y) (ys @ zs)"
      using Cons False by (auto simp: words_apart_def)
    ultimately show ?thesis using Cons.prems(1) by simp
  qed
qed simp

lemma buddy_search_chain:
  "chain m p xs \<Longrightarrow> buddy_search m b prev p =
     (if b \<in> set xs then Some (Some (last (prev # takeWhile (\<lambda>x. x \<noteq> b) xs))) else Some None)"
proof (induction xs arbitrary: p prev)
  case Nil
  then show ?case by (subst buddy_search.simps) simp
next
  case (Cons x xs)
  then show ?case by (subst buddy_search.simps) auto
qed

section \<open>Blocks\<close>

definition blk :: "u64 \<Rightarrow> nat \<Rightarrow> nat set" where
  "blk x k = {unat x ..< unat x + 4096 * 2 ^ k}"

definition in_heap :: "kst \<Rightarrow> u64 \<Rightarrow> nat \<Rightarrow> bool" where
  "in_heap s x k \<longleftrightarrow> x \<noteq> 0 \<and> 4096 dvd unat x \<and>
     unat (heap_start s) \<le> unat x \<and> unat x + 4096 * 2 ^ k \<le> unat (heap_end s)"

lemma blk_ne: "unat x \<in> blk x k"
  by (simp add: blk_def)

lemma span_page_blk:
  assumes "in_heap s x k" "a \<in> span x n" "n \<le> 4096 * 2 ^ k"
  shows "unat a \<in> blk x k"
proof -
  have "unat x + n \<le> 2 ^ 64"
    using assms(1,3) unat_bound(4) [of "heap_end s"] by (simp add: in_heap_def)
  with assms show ?thesis by (auto simp: in_span_iff blk_def)
qed

lemma one_le_pow: "(1 :: nat) \<le> 2 ^ k"
  by simp

lemma word_blk: "in_heap s x k \<Longrightarrow> a \<in> span x 8 \<Longrightarrow> unat a \<in> blk x k"
  using one_le_pow [of k] by (intro span_page_blk [of s x k a 8]) linarith+

lemma unat_block_size: "k \<le> 10 \<Longrightarrow> unat (block_size k) = 4096 * 2 ^ k"
proof -
  assume k: "k \<le> 10"
  then have "(2 :: nat) ^ k \<le> 2 ^ 10" by (intro power_increasing) simp_all
  then have "4096 * 2 ^ k < (2 :: nat) ^ 64" by simp
  moreover have "block_size k = of_nat (4096 * 2 ^ k)"
    by (simp add: block_size_def PAGE_SIZE_def push_bit_eq_mult)
  ultimately show ?thesis by (simp only: unat_of_nat_64)
qed

lemma unat_second_half:
  assumes "in_heap s x (Suc k)" "k \<le> 9"
  shows "unat (x + block_size k) = unat x + 4096 * 2 ^ k"
proof -
  have "unat x + unat (block_size k) < 2 ^ 64"
    using assms unat_bound(4) [of "heap_end s"] by (simp add: in_heap_def unat_block_size)
  then show ?thesis using assms(2) by (simp add: unat_add_lem [THEN iffD1] unat_block_size)
qed

lemma in_heap_halves:
  assumes "in_heap s x (Suc k)" "k \<le> 9"
  shows "in_heap s x k" "in_heap s (x + block_size k) k"
    "blk x (Suc k) = blk x k \<union> blk (x + block_size k) k" "blk x k \<inter> blk (x + block_size k) k = {}"
proof -
  note u = unat_second_half [OF assms]
  show "in_heap s x k" using assms(1) by (simp add: in_heap_def)
  have "x + block_size k \<noteq> 0"
  proof
    assume "x + block_size k = 0"
    with u have "unat x + 4096 * 2 ^ k = 0" by simp
    then show False by simp
  qed
  with u assms(1) show "in_heap s (x + block_size k) k" by (simp add: in_heap_def)
  show "blk x (Suc k) = blk x k \<union> blk (x + block_size k) k" "blk x k \<inter> blk (x + block_size k) k = {}"
    by (auto simp: blk_def u)
qed

text \<open>The buddy of a block is one of its two neighbours of the same size.\<close>

lemma unat_set_bit:
  assumes "\<not> bit (a :: u64) n" "n < 64"
  shows "unat (set_bit n a) = unat a + 2 ^ n"
proof -
  have "unat (set_bit n a) = set_bit n (unat a)"
    using assms(2) by (intro bit_eqI) (auto simp: bit_simps)
  moreover have "\<not> bit (unat a) n" using assms(1) by (simp add: bit_unsigned_iff)
  ultimately show ?thesis by (simp add: set_bit_eq)
qed

lemma buddy_addr_cases:
  assumes "k \<le> 10" "b = buddy_addr a k"
  obtains "unat b = unat a + 4096 * 2 ^ k" "a < b" | "unat a = unat b + 4096 * 2 ^ k" "b < a"
proof -
  have "block_size k = push_bit (k + 12) 1"
    by (simp add: block_size_def PAGE_SIZE_def push_bit_eq_mult power_add)
  then have b: "b = flip_bit (k + 12) a"
    by (simp add: assms(2) buddy_addr_def flip_bit_eq_xor)
  show ?thesis
  proof (cases "bit a (k + 12)")
    case True
    then have "a = set_bit (k + 12) b" "\<not> bit b (k + 12)"
      using assms(1) by (auto simp: b intro!: bit_word_eqI simp: bit_simps)
    then have "unat a = unat b + 4096 * 2 ^ k"
      using assms(1) by (simp add: unat_set_bit power_add)
    then show ?thesis using that(2) by (simp add: word_less_nat_alt)
  next
    case False
    then have "b = set_bit (k + 12) a"
      using assms(1) by (auto simp: b intro!: bit_word_eqI simp: bit_simps)
    then have "unat b = unat a + 4096 * 2 ^ k"
      using assms(1) False by (simp add: unat_set_bit power_add)
    then show ?thesis using that(1) by (simp add: word_less_nat_alt)
  qed
qed

section \<open>Well-formed states\<close>

definition free_set :: "u64 list list \<Rightarrow> nat set" where
  "free_set Ls = (\<Union>k < 11. \<Union>x \<in> set (Ls ! k). blk x k)"

definition buddy_wf :: "kst \<Rightarrow> u64 list list \<Rightarrow> bool" where
  "buddy_wf s Ls \<longleftrightarrow> length (free_lists s) = 11 \<and> length Ls = 11 \<and>
     (\<forall>k < 11. chain (kmem s) (free_lists s ! k) (Ls ! k) \<and> distinct (Ls ! k)) \<and>
     (\<forall>k < 11. \<forall>x \<in> set (Ls ! k). in_heap s x k) \<and>
     (\<forall>k < 11. \<forall>j < 11. \<forall>x \<in> set (Ls ! k). \<forall>y \<in> set (Ls ! j).
        (x, k) \<noteq> (y, j) \<longrightarrow> blk x k \<inter> blk y j = {})"

definition buddy_inv :: "kst \<Rightarrow> nat set \<Rightarrow> bool" where
  "buddy_inv s F \<longleftrightarrow> (\<exists>Ls. buddy_wf s Ls \<and> F = free_set Ls)"

text \<open>
  While nothing is freed, the lists below the largest order never hold more than one block each: they are
  \<open>thin\<close>, and during a split the list \<open>k\<close> the last halves were put on holds two. \<open>alloc_inv tight\<close> adds that
  to the invariant when \<open>tight\<close> holds, so that a block can be had whenever that many bytes are free.
\<close>

definition thin_but :: "nat \<Rightarrow> u64 list list \<Rightarrow> bool" where
  "thin_but k Ls \<longleftrightarrow> (\<forall>j < 10. length (Ls ! j) \<le> (if j = k then 2 else 1))"

definition thin :: "u64 list list \<Rightarrow> bool" where
  "thin Ls \<longleftrightarrow> (\<forall>j < 10. length (Ls ! j) \<le> 1)"

definition alloc_inv :: "bool \<Rightarrow> kst \<Rightarrow> nat set \<Rightarrow> bool" where
  "alloc_inv tight s F \<longleftrightarrow> (\<exists>Ls. buddy_wf s Ls \<and> F = free_set Ls \<and> (tight \<longrightarrow> thin Ls))"

lemma alloc_inv_False [simp]: "alloc_inv False = buddy_inv"
  by (simp add: alloc_inv_def buddy_inv_def fun_eq_iff)

lemma alloc_inv_buddy: "alloc_inv b s F \<Longrightarrow> buddy_inv s F"
  by (auto simp: alloc_inv_def buddy_inv_def)

text \<open>The lists, and so the free bytes, are determined by the state.\<close>

lemma chain_unique: "chain m p xs \<Longrightarrow> chain m p ys \<Longrightarrow> xs = ys"
proof (induction xs arbitrary: p ys)
  case Nil
  then show ?case by (cases ys) auto
next
  case (Cons x xs)
  then show ?case by (cases ys) auto
qed

lemma buddy_inv_unique:
  assumes "alloc_inv b s F" "alloc_inv b' s F'"
  shows "F = F'"
proof -
  obtain Ls Ls' where W: "buddy_wf s Ls" "F = free_set Ls" "buddy_wf s Ls'" "F' = free_set Ls'"
    using assms by (auto simp: alloc_inv_def)
  have "Ls = Ls'"
  proof (rule nth_equalityI)
    show "length Ls = length Ls'" using W(1,3) by (simp add: buddy_wf_def)
    show "Ls ! i = Ls' ! i" if "i < length Ls" for i
      using that W(1,3) by (intro chain_unique [of "kmem s" "free_lists s ! i"]) (simp_all add: buddy_wf_def)
  qed
  then show ?thesis using W by simp
qed

lemma thin_thin_but: "thin Ls \<Longrightarrow> thin_but k Ls"
  by (fastforce simp: thin_def thin_but_def)

lemma thin_pop:
  assumes "thin_but k Ls" "Ls ! k = x # xs" "length Ls = 11"
  shows "thin (Ls[k := xs])"
  unfolding thin_def
proof (intro allI impI)
  fix j :: nat assume "j < 10"
  then have "length (Ls ! j) \<le> (if j = k then 2 else 1)" using assms(1) by (simp add: thin_but_def)
  then show "length (Ls[k := xs] ! j) \<le> 1" using assms(2,3) \<open>j < 10\<close> by (cases "j = k") simp_all
qed

lemma thin_split:
  assumes "thin_but (Suc k) Ls" "Ls ! Suc k = x # xs" "Ls ! k = []" "length Ls = 11"
  shows "thin_but k (Ls[Suc k := xs, k := [a, b]])"
  unfolding thin_but_def
proof (intro allI impI)
  fix j :: nat assume "j < 10"
  then have "length (Ls ! j) \<le> (if j = Suc k then 2 else 1)" using assms(1) by (simp add: thin_but_def)
  then show "length (Ls[Suc k := xs, k := [a, b]] ! j) \<le> (if j = k then 2 else 1)"
    using assms(2,4) \<open>j < 10\<close> by (cases "j = Suc k"; cases "j = k") simp_all
qed

lemma buddy_wfD:
  assumes "buddy_wf s Ls"
  shows "length (free_lists s) = 11" "length Ls = 11"
    "k < 11 \<Longrightarrow> chain (kmem s) (free_lists s ! k) (Ls ! k)" "k < 11 \<Longrightarrow> distinct (Ls ! k)"
    "k < 11 \<Longrightarrow> x \<in> set (Ls ! k) \<Longrightarrow> in_heap s x k"
    "k < 11 \<Longrightarrow> j < 11 \<Longrightarrow> x \<in> set (Ls ! k) \<Longrightarrow> y \<in> set (Ls ! j) \<Longrightarrow> (x, k) \<noteq> (y, j) \<Longrightarrow> blk x k \<inter> blk y j = {}"
    "k < 11 \<Longrightarrow> x \<in> set (Ls ! k) \<Longrightarrow> blk x k \<subseteq> free_set Ls"
  using assms by (auto simp: buddy_wf_def free_set_def)

lemma words_apart_list:
  assumes "buddy_wf s Ls" "k < 11"
  shows "words_apart (Ls ! k)"
  unfolding words_apart_def
proof (intro conjI ballI impI)
  fix x y assume xy: "x \<in> set (Ls ! k)" "y \<in> set (Ls ! k)" "x \<noteq> y"
  then have "blk x k \<inter> blk y k = {}" using buddy_wfD(6) [OF assms(1,2,2)] by blast
  moreover have "unat a \<in> blk x k" if "a \<in> span x 8" for a
    using that buddy_wfD(5) [OF assms xy(1)] by (rule word_blk [rotated])
  moreover have "unat a \<in> blk y k" if "a \<in> span y 8" for a
    using that buddy_wfD(5) [OF assms xy(2)] by (rule word_blk [rotated])
  ultimately show "span x 8 \<inter> span y 8 = {}" by blast
qed (use buddy_wfD(4) [OF assms] in simp)

text \<open>The free lists only depend on the bytes of free blocks.\<close>

lemma buddy_wf_cong:
  assumes wf: "buddy_wf s Ls" and "free_lists s' = free_lists s" "heap_start s' = heap_start s" "heap_end s' = heap_end s"
    and eq: "\<And>a. unat a \<in> free_set Ls \<Longrightarrow> kmem s' a = kmem s a"
  shows "buddy_wf s' Ls"
proof -
  have "chain (kmem s') p (Ls ! k) \<longleftrightarrow> chain (kmem s) p (Ls ! k)" if k: "k < 11" for p k
  proof (rule chain_cong)
    fix x a assume x: "x \<in> set (Ls ! k)" "a \<in> span x 8"
    then have "unat a \<in> blk x k" using buddy_wfD(5) [OF wf k] by (auto intro: word_blk)
    then show "kmem s' a = kmem s a" using buddy_wfD(7) [OF wf k x(1)] by (intro eq) blast
  qed
  with wf assms(2-4) show ?thesis by (simp add: buddy_wf_def in_heap_def)
qed

lemma nth_update_11: "length xs = 11 \<Longrightarrow> k < 11 \<Longrightarrow> j < 11 \<Longrightarrow> xs[k := y] ! j = (if j = k then y else xs ! j)"
  by (simp add: nth_list_update)

text \<open>Taking the head off a free list.\<close>

definition pop :: "nat \<Rightarrow> kst \<Rightarrow> kst" where
  "pop k s = s\<lparr>free_lists := (free_lists s)[k := load64 (kmem s) (free_lists s ! k)]\<rparr>"

lemma buddy_wf_pop:
  assumes wf: "buddy_wf s Ls" and k: "k < 11" and Ls: "Ls ! k = x # xs"
  shows "buddy_wf (pop k s) (Ls[k := xs])" "free_lists s ! k = x" "in_heap s x k"
    "free_set Ls = blk x k \<union> free_set (Ls[k := xs])" "blk x k \<inter> free_set (Ls[k := xs]) = {}"
proof -
  note D = buddy_wfD [OF wf]
  have sub: "set (Ls[k := xs] ! j) \<subseteq> set (Ls ! j)" if "j < 11" for j
    using that k Ls D(2) by (auto simp: nth_update_11)
  show "free_lists s ! k = x" using D(3) [OF k] Ls by simp
  show "in_heap s x k" using D(5) [OF k] Ls by simp
  have ch: "chain (kmem s) (load64 (kmem s) (free_lists s ! k)) xs" using D(3) [OF k] Ls by simp
  have "chain (kmem (pop k s)) (free_lists (pop k s) ! j) (Ls[k := xs] ! j) \<and> distinct (Ls[k := xs] ! j)" if "j < 11" for j
    using that k ch D(3) [OF that] D(4) [OF that] Ls D(1,2) by (auto simp: pop_def nth_update_11)
  moreover have "in_heap (pop k s) y j" if "j < 11" "y \<in> set (Ls[k := xs] ! j)" for y j
    using D(5) [OF that(1)] sub [OF that(1)] that by (auto simp: pop_def in_heap_def)
  moreover have "blk y j \<inter> blk z i = {}"
    if "j < 11" "i < 11" "y \<in> set (Ls[k := xs] ! j)" "z \<in> set (Ls[k := xs] ! i)" "(y, j) \<noteq> (z, i)" for y j z i
    using D(6) [OF that(1,2) _ _ that(5)] sub that by blast
  ultimately show "buddy_wf (pop k s) (Ls[k := xs])"
    using D(1,2) by (simp add: buddy_wf_def pop_def)
  have "x \<notin> set xs" using D(4) [OF k] Ls by simp
  then have "blk x k \<inter> blk y j = {}" if "j < 11" "y \<in> set (Ls[k := xs] ! j)" for y j
    using that k Ls sub [OF that(1)] D(2) by (intro D(6)) (auto simp: nth_update_11 split: if_splits)
  then show "blk x k \<inter> free_set (Ls[k := xs]) = {}" by (auto simp: free_set_def)
  have "(\<Union>y \<in> set (Ls ! j). blk y j) = (if j = k then blk x k else {}) \<union> (\<Union>y \<in> set (Ls[k := xs] ! j). blk y j)"
    if "j < 11" for j
    using that k Ls D(2) by (simp add: nth_update_11)
  then show "free_set Ls = blk x k \<union> free_set (Ls[k := xs])"
    using k by (auto simp: free_set_def split: if_splits)
qed

text \<open>Putting a block at the head of a free list.\<close>

lemma buddy_wf_push:
  assumes wf: "buddy_wf s Ls" and k: "k < 11" and b: "in_heap s b k" "blk b k \<inter> free_set Ls = {}"
  shows "buddy_wf (push_free b k s) (Ls[k := b # Ls ! k])" "free_set (Ls[k := b # Ls ! k]) = blk b k \<union> free_set Ls"
proof -
  note D = buddy_wfD [OF wf]
  let ?s = "push_free b k s" and ?L = "Ls[k := b # Ls ! k]"
  have Lj: "?L ! j = (if j = k then b # Ls ! k else Ls ! j)" if "j < 11" for j
    using that k D(2) by (simp add: nth_update_11)
  have out: "blk b k \<inter> blk y j = {}" if "j < 11" "y \<in> set (Ls ! j)" for y j
    using b(2) D(7) [OF that] by blast
  have b_new: "b \<notin> set (Ls ! k)"
    using out [OF k, of b] blk_ne [of b k] by blast
  have keep: "chain (kmem ?s) p (Ls ! j) \<longleftrightarrow> chain (kmem s) p (Ls ! j)" if j: "j < 11" for p j
  proof (rule chain_cong)
    fix x a assume x: "x \<in> set (Ls ! j)" "a \<in> span x 8"
    then have "unat a \<in> blk x j" using D(5) [OF j] by (auto intro: word_blk)
    then have "a \<notin> span b 8" using out [OF j x(1)] b(1) by (auto dest: word_blk)
    then show "kmem ?s a = kmem s a" by (simp add: push_free_def store64_other)
  qed
  have "b \<noteq> 0" using b(1) by (simp add: in_heap_def)
  then have "chain (kmem ?s) (free_lists ?s ! j) (?L ! j) \<and> distinct (?L ! j)" if j: "j < 11" for j
    using that k D(1) D(3,4) [OF j] keep [OF j] b_new
    by (auto simp: Lj push_free_def nth_update_11 load64_store64_same)
  moreover have "in_heap ?s y j" if "j < 11" "y \<in> set (?L ! j)" for y j
    using that D(5) [OF that(1)] b(1) by (auto simp: Lj in_heap_def push_free_def split: if_splits)
  moreover have "blk y j \<inter> blk z i = {}"
    if "j < 11" "i < 11" "y \<in> set (?L ! j)" "z \<in> set (?L ! i)" "(y, j) \<noteq> (z, i)" for y j z i
  proof (cases "(y, j) = (b, k) \<or> (z, i) = (b, k)")
    case True
    then show ?thesis
      using that out [of i z] out [of j y] by (auto simp: Lj split: if_splits)
  next
    case False
    then show ?thesis
      using that by (intro D(6)) (auto simp: Lj split: if_splits)
  qed
  ultimately show "buddy_wf ?s ?L"
    using D(1,2) by (simp add: buddy_wf_def push_free_def)
  have "(\<Union>y \<in> set (?L ! j). blk y j) = (if j = k then blk b k else {}) \<union> (\<Union>y \<in> set (Ls ! j). blk y j)"
    if "j < 11" for j
    using that by (simp add: Lj)
  then show "free_set ?L = blk b k \<union> free_set Ls"
    using k by (auto simp: free_set_def split: if_splits)
qed

text \<open>Taking a block out of the middle of a free list.\<close>

lemma free_set_middle:
  assumes wf: "buddy_wf s Ls" and k: "k < 11" and Ls: "Ls ! k = ys @ b # zs"
  shows "free_set Ls = blk b k \<union> free_set (Ls[k := ys @ zs])" "blk b k \<inter> free_set (Ls[k := ys @ zs]) = {}"
proof -
  note D = buddy_wfD [OF wf]
  have Lj: "Ls[k := ys @ zs] ! j = (if j = k then ys @ zs else Ls ! j)" if "j < 11" for j
    using that k D(2) by (simp add: nth_update_11)
  have "b \<notin> set (ys @ zs)" using D(4) [OF k] Ls by auto
  then have "blk b k \<inter> blk y j = {}" if "j < 11" "y \<in> set (Ls[k := ys @ zs] ! j)" for y j
    using that k Ls by (intro D(6)) (auto simp: Lj split: if_splits)
  then show "blk b k \<inter> free_set (Ls[k := ys @ zs]) = {}" by (auto simp: free_set_def)
  have "(\<Union>y \<in> set (Ls ! j). blk y j) = (if j = k then blk b k else {}) \<union> (\<Union>y \<in> set (Ls[k := ys @ zs] ! j). blk y j)"
    if "j < 11" for j
    using that Ls by (auto simp: Lj)
  then show "free_set Ls = blk b k \<union> free_set (Ls[k := ys @ zs])"
    using k by (auto simp: free_set_def split: if_splits)
qed

lemma unlink_writes:
  assumes "buddy_wf s Ls" "k < 11" "Ls ! k = ys @ b # zs" "unat a \<notin> (\<Union>y \<in> set (Ls ! k). blk y k)"
  shows "kmem (unlink k (last (0 # ys)) b s) a = kmem s a"
proof (cases "ys = []")
  case False
  then have "last ys \<in> set (Ls ! k)" using assms(3) by simp
  then have "a \<notin> span (last ys) 8" using assms(4) buddy_wfD(5) [OF assms(1,2)] by (blast dest: word_blk)
  with False show ?thesis by (auto simp: unlink_def store64_other)
qed (simp add: unlink_def)

lemma buddy_wf_unlink:
  assumes wf: "buddy_wf s Ls" and k: "k < 11" and Ls: "Ls ! k = ys @ b # zs"
  defines "s' \<equiv> unlink k (last (0 # ys)) b s"
  shows "buddy_wf s' (Ls[k := ys @ zs])" "\<And>a. unat a \<notin> free_set Ls \<Longrightarrow> kmem s' a = kmem s a"
proof -
  note D = buddy_wfD [OF wf] and W = unlink_writes [OF wf k Ls, folded s'_def]
  let ?L = "Ls[k := ys @ zs]"
  have Lj: "?L ! j = (if j = k then ys @ zs else Ls ! j)" if "j < 11" for j
    using that k D(2) by (simp add: nth_update_11)
  have sub: "set (?L ! j) \<subseteq> set (Ls ! j)" if "j < 11" for j
    using that Ls by (auto simp: Lj)
  have chk: "chain (kmem s) (free_lists s ! k) (ys @ b # zs)" using D(3) [OF k] Ls by simp
  show "kmem s' a = kmem s a" if "unat a \<notin> free_set Ls" for a
    using that D(7) [OF k] by (intro W) blast
  have other: "chain (kmem s') p (Ls ! j) \<longleftrightarrow> chain (kmem s) p (Ls ! j)" if j: "j < 11" "j \<noteq> k" for p j
  proof (rule chain_cong)
    fix x a assume x: "x \<in> set (Ls ! j)" "a \<in> span x 8"
    then have "unat a \<in> blk x j" using D(5) [OF j(1)] by (auto intro: word_blk)
    then show "kmem s' a = kmem s a" using D(6) [OF j(1) k x(1)] j(2) by (intro W) blast
  qed
  have "chain (kmem s') (free_lists s' ! k) (ys @ zs)"
  proof (cases "ys = []")
    case True
    then show ?thesis using chk k D(1) by (simp add: s'_def unlink_def)
  next
    case False
    then have "last ys \<noteq> 0" using D(5) [OF k, of "last ys"] Ls by (simp add: in_heap_def)
    moreover have "words_apart (ys @ b # zs)" using words_apart_list [OF wf k] Ls by simp
    ultimately show ?thesis using chain_unlink [OF chk _ False] False by (simp add: s'_def unlink_def)
  qed
  moreover have "free_lists s' ! j = free_lists s ! j" if "j < 11" "j \<noteq> k" for j
    using that by (simp add: s'_def unlink_def)
  ultimately have "chain (kmem s') (free_lists s' ! j) (?L ! j) \<and> distinct (?L ! j)" if "j < 11" for j
    using that D(3,4) [OF that] other D(4) [OF k] Ls by (auto simp: Lj)
  moreover have heap: "heap_start s' = heap_start s" "heap_end s' = heap_end s" "length (free_lists s') = 11"
    using D(1) by (simp_all add: s'_def unlink_def)
  then have "in_heap s' y j" if "j < 11" "y \<in> set (?L ! j)" for y j
    using D(5) [OF that(1)] sub that by (auto simp: in_heap_def)
  moreover have "blk y j \<inter> blk z i = {}"
    if "j < 11" "i < 11" "y \<in> set (?L ! j)" "z \<in> set (?L ! i)" "(y, j) \<noteq> (z, i)" for y j z i
    using D(6) [OF that(1,2) _ _ that(5)] sub that by blast
  ultimately show "buddy_wf s' ?L" using D(2) heap by (simp add: buddy_wf_def)
qed

end
