(* ===== verification/Buddy_Alloc.thy ===== *)
theory Buddy_Alloc
  imports Buddy_Lists
begin

text \<open>Allocation and release of blocks on well-formed free lists.\<close>

section \<open>Orders\<close>

lemma order_loop_spec:
  assumes "k \<le> 11" "k = 0 \<or> 2 ^ (k - 1) < pages"
  defines "r \<equiv> order_loop pages (2 ^ k) k"
  shows "k \<le> r \<and> r \<le> 11 \<and> (pages \<le> 2 ^ r \<or> r = 11) \<and> (r = 0 \<or> 2 ^ (r - 1) < pages)"
  using assms(1,2) unfolding r_def
proof (induction "11 - k" arbitrary: k)
  case 0
  then have "k = 11" by simp
  with 0 show ?case by (simp add: order_loop.simps [of pages 2048 11] MAX_ORDER_def)
next
  case (Suc d)
  show ?case
  proof (cases "2 ^ k < pages")
    case True
    then have "Suc k \<le> order_loop pages (2 ^ Suc k) (Suc k) \<and> order_loop pages (2 ^ Suc k) (Suc k) \<le> 11 \<and>
      (pages \<le> 2 ^ order_loop pages (2 ^ Suc k) (Suc k) \<or> order_loop pages (2 ^ Suc k) (Suc k) = 11) \<and>
      (order_loop pages (2 ^ Suc k) (Suc k) = 0 \<or> 2 ^ (order_loop pages (2 ^ Suc k) (Suc k) - 1) < pages)"
      using Suc by (intro Suc.hyps(1)) simp_all
    moreover have "k \<le> 10" using Suc.hyps(2) by simp
    then have "order_loop pages (2 ^ k) k = order_loop pages (2 ^ Suc k) (Suc k)"
      using True by (subst order_loop.simps) (simp add: MAX_ORDER_def)
    ultimately show ?thesis by auto
  next
    case False
    then have "order_loop pages (2 ^ k) k = k" by (subst order_loop.simps) simp
    with False Suc.prems show ?thesis by simp
  qed
qed

lemma order_for_pages_spec:
  "order_for_pages p \<le> 11"
  "unat p \<le> 2 ^ order_for_pages p \<or> order_for_pages p = 11"
  "order_for_pages p = 0 \<or> 2 ^ (order_for_pages p - 1) < unat p"
  using order_loop_spec [of 0 "unat p"] by (simp_all add: order_for_pages_def)

lemma order_for_pages_fits:
  assumes "unat p \<le> 1024"
  shows "order_for_pages p \<le> 10" "unat p \<le> 2 ^ order_for_pages p"
proof -
  show "order_for_pages p \<le> 10"
  proof (rule ccontr)
    assume "\<not> order_for_pages p \<le> 10"
    then have "order_for_pages p = 11" using order_for_pages_spec(1) [of p] by simp
    then show False using order_for_pages_spec(3) [of p] assms by simp
  qed
  then show "unat p \<le> 2 ^ order_for_pages p" using order_for_pages_spec(2) [of p] by auto
qed

lemma find_order_spec:
  assumes "k \<le> 11"
  shows "k \<le> find_order fl k \<and> find_order fl k \<le> 11 \<and> (\<forall>j. k \<le> j \<and> j < find_order fl k \<longrightarrow> fl ! j = 0) \<and>
    (find_order fl k \<le> 10 \<longrightarrow> fl ! find_order fl k \<noteq> 0)"
  using assms
proof (induction "11 - k" arbitrary: k)
  case 0
  then show ?case by (subst find_order.simps) (auto simp: MAX_ORDER_def find_order.simps)
next
  case (Suc d)
  show ?case
  proof (cases "fl ! k = 0")
    case True
    moreover have "k \<le> 10" using Suc.hyps(2) by simp
    ultimately have "find_order fl k = find_order fl (Suc k)"
      by (subst find_order.simps) (simp add: MAX_ORDER_def)
    moreover have IH: "Suc k \<le> find_order fl (Suc k) \<and> find_order fl (Suc k) \<le> 11 \<and>
      (\<forall>j. Suc k \<le> j \<and> j < find_order fl (Suc k) \<longrightarrow> fl ! j = 0) \<and>
      (find_order fl (Suc k) \<le> 10 \<longrightarrow> fl ! find_order fl (Suc k) \<noteq> 0)"
      using Suc by (intro Suc.hyps(1)) simp_all
    moreover have "fl ! j = 0" if "k \<le> j" "j < find_order fl (Suc k)" for j
      using that True IH by (cases "j = k") auto
    ultimately show ?thesis by simp
  next
    case False
    then have "find_order fl k = k" by (subst find_order.simps) simp
    with False Suc.prems show ?thesis by auto
  qed
qed

section \<open>Allocation\<close>

lemma split_block_eq:
  assumes "buddy_wf s Ls" "Suc k < 11" "Ls ! Suc k = x # xs"
  shows "split_block k s = push_free x k (push_free (x + block_size k) k (pop (Suc k) s))"
proof -
  note P = buddy_wf_pop [OF assms]
  have k9: "k \<le> 9" using assms(2) by simp
  note H = in_heap_halves [OF P(3) k9]
  have disj: "span x 8 \<inter> span (x + block_size k) 8 = {}"
    using word_blk [OF H(1)] word_blk [OF H(2)] H(4) by blast
  have len: "length (free_lists s) = 11" using buddy_wfD(1) [OF assms(1)] .
  have "store64 (store64 (kmem s) x (x + block_size k)) (x + block_size k) (free_lists s ! k) =
    store64 (store64 (kmem s) (x + block_size k) (free_lists s ! k)) x (x + block_size k)"
    by (rule store64_commute [OF disj])
  then show ?thesis
    using P(2) len assms(2) by (simp add: split_block_def push_free_def pop_def Let_def)
qed

lemma split_block_wf:
  assumes wf: "buddy_wf s Ls" and k: "Suc k < 11" and Ls: "Ls ! Suc k \<noteq> []"
  shows "\<exists>Ls'. buddy_wf (split_block k s) Ls' \<and> free_set Ls' = free_set Ls \<and> Ls' ! k \<noteq> [] \<and> (\<forall>j < k. Ls' ! j = Ls ! j) \<and>
      (thin_but (Suc k) Ls \<and> Ls ! k = [] \<longrightarrow> thin_but k Ls')"
    "heap_start (split_block k s) = heap_start s" "heap_end (split_block k s) = heap_end s"
    "console (split_block k s) = console s"
    "\<And>a. unat a \<notin> free_set Ls \<Longrightarrow> kmem (split_block k s) a = kmem s a"
proof -
  obtain x xs where x: "Ls ! Suc k = x # xs" using Ls by (cases "Ls ! Suc k") auto
  note P = buddy_wf_pop [OF wf k x] and E = split_block_eq [OF wf k x]
  have k9: "k \<le> 9" using k by simp
  note H = in_heap_halves [OF P(3) k9]
  let ?b = "x + block_size k" and ?L1 = "Ls[Suc k := xs]" and ?s1 = "pop (Suc k) s"
  let ?L2 = "?L1[k := ?b # ?L1 ! k]" and ?s2 = "push_free ?b k ?s1"
  have h1: "in_heap ?s1 ?b k" "in_heap ?s1 x k" using H(1,2) by (simp_all add: in_heap_def pop_def)
  have "blk ?b k \<inter> free_set ?L1 = {}" using P(5) H(3) by blast
  note W2 = buddy_wf_push [OF P(1) _ h1(1) this]
  have k11: "k < 11" using k by simp
  have h2: "in_heap ?s2 x k" using h1(2) by (simp add: in_heap_def push_free_def)
  have "blk x k \<inter> free_set ?L2 = {}" using W2(2) [OF k11] P(5) H(3,4) by blast
  note W3 = buddy_wf_push [OF W2(1) [OF k11] k11 h2 this]
  have "free_set (?L2[k := x # ?L2 ! k]) = free_set Ls"
    using W3(2) W2(2) [OF k11] P(4) H(3) by blast
  moreover have ne: "?L2[k := x # ?L2 ! k] ! k \<noteq> []" using buddy_wfD(2) [OF wf] k by simp
  moreover have "?L2[k := x # ?L2 ! k] ! j = Ls ! j": "?L2[k := x # ?L2 ! k] ! j = Ls ! j" if "j < k" for j
    using buddy_wfD(2) [OF wf] k that by simp
  moreover have "thin_but k (?L2[k := x # ?L2 ! k])" if "thin_but (Suc k) Ls" "Ls ! k = []"
    using thin_split [OF that(1) x that(2) buddy_wfD(2) [OF wf], of x ?b] that(2) buddy_wfD(2) [OF wf] k by simp
  ultimately show "\<exists>Ls'. buddy_wf (split_block k s) Ls' \<and> free_set Ls' = free_set Ls \<and> Ls' ! k \<noteq> [] \<and> (\<forall>j < k. Ls' ! j = Ls ! j) \<and>
      (thin_but (Suc k) Ls \<and> Ls ! k = [] \<longrightarrow> thin_but k Ls')"
    using W3(1) ne unfolding E by (intro exI [of _ "?L2[k := x # ?L2 ! k]"]) blast
  show "heap_start (split_block k s) = heap_start s" "heap_end (split_block k s) = heap_end s"
    "console (split_block k s) = console s"
    by (simp_all add: split_block_def Let_def)
  show "kmem (split_block k s) a = kmem s a" if a: "unat a \<notin> free_set Ls" for a
  proof -
    have "a \<notin> span x 8" "a \<notin> span ?b 8"
      using a P(4) H(3) word_blk [OF H(1)] word_blk [OF H(2)] by blast+
    then show ?thesis using P(2) by (simp add: split_block_def Let_def store64_other)
  qed
qed

lemma split_down_wf:
  assumes "buddy_wf s Ls" "cur < 11" "order \<le> cur" "Ls ! cur \<noteq> []"
  shows "\<exists>Ls'. buddy_wf (split_down cur order s) Ls' \<and> free_set Ls' = free_set Ls \<and> Ls' ! order \<noteq> [] \<and>
    (thin_but cur Ls \<and> (\<forall>j. order \<le> j \<and> j < cur \<longrightarrow> Ls ! j = []) \<longrightarrow> thin_but order Ls') \<and>
    heap_start (split_down cur order s) = heap_start s \<and> heap_end (split_down cur order s) = heap_end s \<and>
    console (split_down cur order s) = console s \<and>
    (\<forall>a. unat a \<notin> free_set Ls \<longrightarrow> kmem (split_down cur order s) a = kmem s a)"
  using assms
proof (induction cur arbitrary: s Ls)
  case (Suc k)
  show ?case
  proof (cases "order < Suc k")
    case True
    note S = split_block_wf [OF Suc.prems(1,2,4)]
    obtain L where L: "buddy_wf (split_block k s) L" "free_set L = free_set Ls" "L ! k \<noteq> []" "\<forall>j < k. L ! j = Ls ! j"
      "thin_but (Suc k) Ls \<and> Ls ! k = [] \<longrightarrow> thin_but k L"
      using S(1) by blast
    have k: "k < 11" "order \<le> k" using Suc.prems(2) True by simp_all
    have "thin_but k L \<and> (\<forall>j. order \<le> j \<and> j < k \<longrightarrow> L ! j = [])"
      if "thin_but (Suc k) Ls \<and> (\<forall>j. order \<le> j \<and> j < Suc k \<longrightarrow> Ls ! j = [])" using that L(4,5) k(2) by simp
    with Suc.IH [OF L(1) k L(3)] True S(2-5) L(2) show ?thesis by auto
  next
    case False
    with Suc.prems show ?thesis by (intro exI [of _ Ls]) (simp add: le_Suc_eq)
  qed
qed auto

text \<open>
  Allocation takes a block of the wanted size out of the free set, and fails only when every list
  of that order or a larger one is empty; then nothing changes.
\<close>

lemma kalloc_order_cases:
  assumes inv: "alloc_inv b s F" and order: "order \<le> 10" and r: "kalloc_order order s = (p, s')"
  shows "p = 0 \<and> s' = s \<and> (\<forall>k. order \<le> k \<and> k \<le> 10 \<longrightarrow> free_lists s ! k = 0) \<or>
    p \<noteq> 0 \<and> in_heap s p order \<and> blk p order \<subseteq> F \<and> alloc_inv b s' (F - blk p order) \<and>
    heap_start s' = heap_start s \<and> heap_end s' = heap_end s \<and> console s' = console s \<and>
    (\<forall>a. unat a \<notin> F \<longrightarrow> kmem s' a = kmem s a)"
proof -
  obtain Ls where wf: "buddy_wf s Ls" and F: "F = free_set Ls" and th: "b \<longrightarrow> thin Ls" using inv by (auto simp: alloc_inv_def)
  let ?c = "find_order (free_lists s) order"
  have c: "order \<le> ?c" "?c \<le> 11" "\<And>j. order \<le> j \<Longrightarrow> j < ?c \<Longrightarrow> free_lists s ! j = 0"
    "?c \<le> 10 \<Longrightarrow> free_lists s ! ?c \<noteq> 0"
    using find_order_spec [of order "free_lists s"] order by auto
  show ?thesis
  proof (cases "?c = 11")
    case True
    then show ?thesis using r c(3) order by (auto simp: kalloc_order_def MAX_ORDER_def)
  next
    case False
    then have c11: "?c < 11" using c(2) by simp
    then have "Ls ! ?c \<noteq> []" using c(4) chain_head [OF buddy_wfD(3) [OF wf c11]] by auto
    from split_down_wf [OF wf c11 c(1) this]
    moreover have "Ls ! j = []" if "order \<le> j" "j < ?c" for j
      using that c(3) [OF that] c11 chain_head [OF buddy_wfD(3) [OF wf, of j]] by simp
    ultimately obtain L where L: "buddy_wf (split_down ?c order s) L" "free_set L = F" "L ! order \<noteq> []"
      "heap_start (split_down ?c order s) = heap_start s" "heap_end (split_down ?c order s) = heap_end s"
      "console (split_down ?c order s) = console s"
      "\<forall>a. unat a \<notin> F \<longrightarrow> kmem (split_down ?c order s) a = kmem s a" "b \<longrightarrow> thin_but order L"
      using F th thin_thin_but by blast
    obtain x xs where x: "L ! order = x # xs" using L(3) by (cases "L ! order") auto
    have o11: "order < 11" using order by simp
    note P = buddy_wf_pop [OF L(1) o11 x]
    have "p = x" "s' = pop order (split_down ?c order s)"
      using r P(2) c11 order by (auto simp: kalloc_order_def MAX_ORDER_def Let_def pop_def)
    moreover have "free_set (L[order := xs]) = F - blk x order" using P(4,5) L(2) by blast
    moreover have "blk x order \<subseteq> F" using P(4) L(2) by blast
    moreover have "in_heap s x order" using P(3) L(4,5) by (simp add: in_heap_def)
    moreover from this have "x \<noteq> 0" by (simp add: in_heap_def)
    moreover have "b \<longrightarrow> thin (L[order := xs])" using thin_pop [OF _ x buddy_wfD(2) [OF L(1)]] L(8) by blast
    ultimately show ?thesis
      using P(1) L(4-7) by (auto simp: alloc_inv_def pop_def)
  qed
qed

lemma kalloc_order_null_iff:
  assumes "buddy_inv s F" "order \<le> 10"
  shows "fst (kalloc_order order s) = 0 \<longleftrightarrow> (\<forall>k. order \<le> k \<and> k \<le> 10 \<longrightarrow> free_lists s ! k = 0)"
proof (cases "kalloc_order order s")
  case (Pair p s')
  have "find_order (free_lists s) order = 11" if "\<forall>k. order \<le> k \<and> k \<le> 10 \<longrightarrow> free_lists s ! k = 0"
  proof (rule ccontr)
    assume "find_order (free_lists s) order \<noteq> 11"
    then show False using that find_order_spec [of order "free_lists s"] assms(2) by auto
  qed
  then have "p = 0" if "\<forall>k. order \<le> k \<and> k \<le> 10 \<longrightarrow> free_lists s ! k = 0"
    using that Pair assms(2) by (simp add: kalloc_order_def MAX_ORDER_def)
  with kalloc_order_cases [where b = False, simplified, OF assms Pair] Pair show ?thesis by auto
qed

lemma all_lists_empty_iff:
  assumes "buddy_wf s Ls"
  shows "(\<forall>k \<le> 10. free_lists s ! k = 0) \<longleftrightarrow> free_set Ls = {}"
proof -
  have "free_lists s ! k = 0 \<longleftrightarrow> Ls ! k = []" if "k \<le> 10" for k
    using that by (intro chain_head [OF buddy_wfD(3) [OF assms]]) simp
  moreover have "free_set Ls = {} \<longleftrightarrow> (\<forall>k \<le> 10. Ls ! k = [])"
  proof
    assume empty: "free_set Ls = {}"
    show "\<forall>k \<le> 10. Ls ! k = []"
    proof (intro allI impI)
      fix k :: nat assume "k \<le> 10"
      then have "unat x \<in> free_set Ls" if "x \<in> set (Ls ! k)" for x
        using that buddy_wfD(7) [OF assms, of k x] blk_ne [of x k] by auto
      with empty show "Ls ! k = []" by (cases "Ls ! k") auto
    qed
  qed (auto simp: free_set_def less_Suc_eq_le)
  ultimately show ?thesis by simp
qed

lemma kalloc_order_0_null_iff:
  assumes "buddy_inv s F"
  shows "fst (kalloc_order 0 s) = 0 \<longleftrightarrow> F = {}"
proof -
  obtain Ls where "buddy_wf s Ls" "F = free_set Ls" using assms by (auto simp: buddy_inv_def)
  then show ?thesis
    using kalloc_order_null_iff [OF assms, of 0] all_lists_empty_iff [of s Ls] by simp
qed

lemma alloc_inv_frame:
  assumes "alloc_inv b s F" "\<And>a. unat a \<in> F \<Longrightarrow> m a = kmem s a"
  shows "alloc_inv b (s\<lparr>kmem := m\<rparr>) F"
  using assms buddy_wf_cong [of s _ "s\<lparr>kmem := m\<rparr>"] unfolding alloc_inv_def by fastforce

lemmas buddy_inv_frame = alloc_inv_frame [where b = False, unfolded alloc_inv_False]

lemma alloc_inv_console: "alloc_inv b s F \<Longrightarrow> alloc_inv b (s\<lparr>console := con\<rparr>) F"
  unfolding alloc_inv_def using buddy_wf_cong [of s _ "s\<lparr>console := con\<rparr>"] by auto

text \<open>\<open>kalloc\<close>: the block, its first \<open>n\<close> pages cleared.\<close>

lemma unat_page_bytes: "unat n \<le> 1024 \<Longrightarrow> unat (PAGE_SIZE * n) = 4096 * unat n"
  by (simp add: PAGE_SIZE_def unat_mult_lem [THEN iffD1])

lemma kalloc_inv_cases:
  assumes inv: "alloc_inv b s F" and n: "0 < unat n" "unat n \<le> 1024"
  defines "k \<equiv> order_for_pages n"
  shows "(kalloc n s = Inl NullAccess \<and> (\<forall>j. k \<le> j \<and> j \<le> 10 \<longrightarrow> free_lists s ! j = 0)) \<or>
    (\<exists>p s'. kalloc n s = Inr (p, s') \<and> in_heap s p k \<and> blk p k \<subseteq> F \<and> alloc_inv b s' (F - blk p k) \<and>
      heap_start s' = heap_start s \<and> heap_end s' = heap_end s \<and> console s' = console s \<and>
      (\<forall>a. unat a \<notin> F \<longrightarrow> kmem s' a = kmem s a) \<and>
      (\<forall>a. unat p \<le> unat a \<and> unat a < unat p + 4096 * unat n \<longrightarrow> kmem s' a = 0))"
proof (cases "kalloc_order k s")
  case (Pair p s1)
  have k: "k \<le> 10" "unat n \<le> 2 ^ k" using order_for_pages_fits [OF n(2)] by (simp_all add: k_def)
  have np: "unat (PAGE_SIZE * n) = 4096 * unat n" using n(2) by (rule unat_page_bytes)
  from kalloc_order_cases [OF inv k(1) Pair] show ?thesis
  proof (elim disjE conjE)
    assume "p = 0" "s1 = s" "\<forall>j. k \<le> j \<and> j \<le> 10 \<longrightarrow> free_lists s ! j = 0"
    moreover have "PAGE_SIZE * n \<noteq> 0" using np n(1) by (metis less_numeral_extra(3) nat_0_less_mult_iff unat_0 zero_less_numeral)
    ultimately show ?thesis using Pair by (simp add: kalloc_def k_def memset_null)
  next
    assume p: "p \<noteq> 0" "in_heap s p k" "blk p k \<subseteq> F" "alloc_inv b s1 (F - blk p k)"
      and eq: "heap_start s1 = heap_start s" "heap_end s1 = heap_end s" "console s1 = console s"
        "\<forall>a. unat a \<notin> F \<longrightarrow> kmem s1 a = kmem s a"
    have le: "4096 * unat n \<le> 4096 * 2 ^ k" using k(2) by simp
    then have le64: "unat p + 4096 * unat n \<le> 2 ^ 64"
      using p(2) unat_bound(4) [of "heap_end s"] by (simp add: in_heap_def)
    let ?m = "\<lambda>x. if x \<in> span p (4096 * unat n) then 0 else kmem s1 x"
    have "memset (kmem s1) p 0 (PAGE_SIZE * n) = Inr ?m"
      using memset_ok [of p "PAGE_SIZE * n" "kmem s1" 0] p(1) le64 by (simp add: np cong: if_cong)
    then have "kalloc n s = Inr (p, s1\<lparr>kmem := ?m\<rparr>)"
      using Pair by (simp add: kalloc_def k_def)
    moreover have in_blk: "unat a \<in> blk p k" if "a \<in> span p (4096 * unat n)" for a
      using span_page_blk [OF p(2) that le] .
    then have "alloc_inv b (s1\<lparr>kmem := ?m\<rparr>) (F - blk p k)"
      by (intro alloc_inv_frame p(4)) auto
    moreover have "?m a = kmem s a" if "unat a \<notin> F" for a
      using that p(3) in_blk eq(4) by auto
    moreover have "?m a = 0" if "unat p \<le> unat a \<and> unat a < unat p + 4096 * unat n" for a
      using that in_span_iff [OF le64] by simp
    ultimately show ?thesis using p eq by auto
  qed
qed

lemmas kalloc_cases = kalloc_inv_cases [where b = False, unfolded alloc_inv_False]

text \<open>
  On thin lists there is no fragmentation: when the lists from order \<open>k\<close> up are empty, less than a block of
  order \<open>k\<close> is free in all. So a request succeeds exactly when as many bytes are free as its block has.
\<close>

lemma card_blk [simp]: "card (blk x k) = 4096 * 2 ^ k"
  by (simp add: blk_def)

lemma thin_card:
  assumes wf: "buddy_wf s Ls" and th: "thin Ls" and k: "k \<le> 10" "\<And>j. k \<le> j \<Longrightarrow> j \<le> 10 \<Longrightarrow> Ls ! j = []"
  shows "card (free_set Ls) < 4096 * 2 ^ k"
proof -
  have one: "card (\<Union>x \<in> set (Ls ! j). blk x j) \<le> 4096 * 2 ^ j" if "j < k" for j
  proof (cases "Ls ! j")
    case (Cons x xs)
    have "length (Ls ! j) \<le> 1" using th that k(1) by (simp add: thin_def)
    then show ?thesis using Cons by simp
  qed simp
  have "free_set Ls = (\<Union>j < k. \<Union>x \<in> set (Ls ! j). blk x j)"
  proof -
    have "(\<Union>x \<in> set (Ls ! j). blk x j) = {}" if "j < 11" "\<not> j < k" for j using that k(2) [of j] by simp
    then show ?thesis using k(1) unfolding free_set_def by fastforce
  qed
  also have "card \<dots> \<le> (\<Sum>j < k. card (\<Union>x \<in> set (Ls ! j). blk x j))" by (rule card_UN_le) simp
  also have "\<dots> \<le> (\<Sum>j < k. 4096 * 2 ^ j)" using one by (intro sum_mono) simp
  also have "\<dots> = 4096 * (2 ^ k - 1)" by (simp add: sum_distrib_left [symmetric] lessThan_atLeast0 sum_power2)
  finally show ?thesis using one_le_pow [of k] by linarith
qed

lemma kalloc_thin_iff:
  assumes inv: "alloc_inv True s F" and n: "0 < unat n" "unat n \<le> 1024"
  shows "(\<exists>p s'. kalloc n s = Inr (p, s')) \<longleftrightarrow> 4096 * 2 ^ order_for_pages n \<le> card F"
proof -
  let ?k = "order_for_pages n"
  obtain Ls where wf: "buddy_wf s Ls" and F: "F = free_set Ls" and th: "thin Ls" using inv by (auto simp: alloc_inv_def)
  have k: "?k \<le> 10" using n(2) by (rule order_for_pages_fits(1))
  have fin: "finite F" by (simp add: F free_set_def blk_def)
  have "card F < 4096 * 2 ^ ?k" if "\<forall>j. ?k \<le> j \<and> j \<le> 10 \<longrightarrow> free_lists s ! j = 0"
    unfolding F using that by (intro thin_card [OF wf th k]) (simp add: chain_head [OF buddy_wfD(3) [OF wf]])
  moreover have "4096 * 2 ^ ?k \<le> card F" if "blk p ?k \<subseteq> F" for p using card_mono [OF fin that] by simp
  ultimately show ?thesis using kalloc_inv_cases [OF inv n] by fastforce
qed

lemma kalloc_thin:
  assumes "alloc_inv True s F" "0 < unat n" "unat n \<le> 1024" "4096 * 2 ^ order_for_pages n \<le> card F"
  obtains p s' where "kalloc n s = Inr (p, s')" "in_heap s p (order_for_pages n)" "blk p (order_for_pages n) \<subseteq> F"
    "alloc_inv True s' (F - blk p (order_for_pages n))" "card (F - blk p (order_for_pages n)) + 4096 * 2 ^ order_for_pages n = card F"
    "heap_start s' = heap_start s" "heap_end s' = heap_end s" "console s' = console s"
    "\<And>a. unat a \<notin> F \<Longrightarrow> kmem s' a = kmem s a"
    "\<And>a. unat p \<le> unat a \<Longrightarrow> unat a < unat p + 4096 * unat n \<Longrightarrow> kmem s' a = 0"
proof -
  have fin: "finite F" using assms(1) by (auto simp: alloc_inv_def free_set_def blk_def)
  have "card (F - blk p (order_for_pages n)) + 4096 * 2 ^ order_for_pages n = card F" if "blk p (order_for_pages n) \<subseteq> F" for p
    using that card_mono [OF fin that] fin by (simp add: card_Diff_subset finite_subset)
  then show thesis
    using that kalloc_inv_cases [OF assms(1-3)] kalloc_thin_iff [OF assms(1-3)] assms(4) by (metis (no_types, lifting) Inl_Inr_False)
qed

section \<open>Release\<close>

lemma merged_block:
  assumes p: "in_heap s p k" and b: "in_heap s b k" and k: "k \<le> 9" and bud: "b = buddy_addr p k"
  defines "a \<equiv> (if p < b then p else b)"
  shows "in_heap s a (Suc k)" "blk a (Suc k) = blk p k \<union> blk b k"
proof -
  have k10: "k \<le> 10" using k by simp
  have "in_heap s a (Suc k) \<and> blk a (Suc k) = blk p k \<union> blk b k"
  proof (rule buddy_addr_cases [OF k10 bud])
    assume "unat b = unat p + 4096 * 2 ^ k" "p < b"
    then show ?thesis using p b by (auto simp: a_def in_heap_def blk_def)
  next
    assume "unat p = unat b + 4096 * 2 ^ k" "b < p"
    then show ?thesis using p b by (auto simp: a_def in_heap_def blk_def)
  qed
  then show "in_heap s a (Suc k)" "blk a (Suc k) = blk p k \<union> blk b k" by simp_all
qed

text \<open>One merge: the buddy leaves its list, and the two blocks are one of the next order.\<close>

lemma merge_step:
  assumes wf: "buddy_wf s Ls" and p: "in_heap s p k" "k \<le> 9" "blk p k \<inter> free_set Ls = {}" and bud: "buddy_addr p k \<in> set (Ls ! k)"
  obtains s1 L a where "kfree_merge p k s = kfree_merge a (Suc k) s1" "buddy_wf s1 L" "in_heap s1 a (Suc k)"
    "blk a (Suc k) \<inter> free_set L = {}" "blk a (Suc k) \<union> free_set L = blk p k \<union> free_set Ls" "free_set L \<subseteq> free_set Ls"
    "heap_start s1 = heap_start s" "heap_end s1 = heap_end s" "console s1 = console s" "\<forall>a. unat a \<notin> free_set Ls \<longrightarrow> kmem s1 a = kmem s a"
proof -
  let ?b = "buddy_addr p k"
  have k: "k < 11" using p(2) by simp
  let ?ys = "takeWhile (\<lambda>x. x \<noteq> ?b) (Ls ! k)" and ?zs = "tl (dropWhile (\<lambda>x. x \<noteq> ?b) (Ls ! k))"
  have ne: "dropWhile (\<lambda>x. x \<noteq> ?b) (Ls ! k) \<noteq> []" using bud by auto
  then have "hd (dropWhile (\<lambda>x. x \<noteq> ?b) (Ls ! k)) = ?b" using hd_dropWhile by blast
  then have Lk: "Ls ! k = ?ys @ ?b # ?zs"
    using takeWhile_dropWhile_id [of "\<lambda>x. x \<noteq> ?b" "Ls ! k"] ne by (metis list.collapse)
  let ?s = "unlink k (last (0 # ?ys)) ?b s" and ?L = "Ls[k := ?ys @ ?zs]" and ?a = "if p < ?b then p else ?b"
  note U = buddy_wf_unlink [OF wf k Lk] and F = free_set_middle [OF wf k Lk]
    and M = merged_block [OF p(1) buddy_wfD(5) [OF wf k bud] p(2) refl]
  have "buddy_search (kmem s) ?b 0 (free_lists s ! k) = Some (Some (last (0 # ?ys)))"
    using buddy_search_chain [OF buddy_wfD(3) [OF wf k]] bud by simp
  then have step: "kfree_merge p k s = kfree_merge ?a (Suc k) ?s"
    using p(2) by (subst kfree_merge.simps) (simp add: Let_def MAX_ORDER_def)
  have same: "heap_start ?s = heap_start s" "heap_end ?s = heap_end s" "console ?s = console s" by (simp_all add: unlink_def)
  have "in_heap ?s ?a (Suc k)" using M(1) same by (simp add: in_heap_def)
  moreover have "blk ?a (Suc k) \<inter> free_set ?L = {}" "blk ?a (Suc k) \<union> free_set ?L = blk p k \<union> free_set Ls" "free_set ?L \<subseteq> free_set Ls"
    using M(2) F p(3) by blast+
  ultimately show thesis using that [OF step U(1)] same U(2) by blast
qed

lemma kfree_merge_wf:
  assumes "buddy_wf s Ls" "in_heap s p k" "k \<le> 10" "blk p k \<inter> free_set Ls = {}"
  shows "\<exists>addr order s' Ls'. kfree_merge p k s = Some (addr, order, s') \<and> order \<le> 10 \<and>
    buddy_wf s' Ls' \<and> in_heap s' addr order \<and> blk addr order \<inter> free_set Ls' = {} \<and>
    blk addr order \<union> free_set Ls' = blk p k \<union> free_set Ls \<and>
    heap_start s' = heap_start s \<and> heap_end s' = heap_end s \<and> console s' = console s \<and>
    (\<forall>a. unat a \<notin> free_set Ls \<longrightarrow> kmem s' a = kmem s a)"
  using assms
proof (induction "10 - k" arbitrary: k p s Ls)
  case 0
  then show ?case
    by (intro exI [of _ p] exI [of _ k] exI [of _ s] exI [of _ Ls])
      (subst kfree_merge.simps, simp add: MAX_ORDER_def)
next
  case (Suc d)
  have k: "k < 11" "k \<le> 9" "k < MAX_ORDER" using Suc.hyps(2) by (simp_all add: MAX_ORDER_def)
  show ?case
  proof (cases "buddy_addr p k \<in> set (Ls ! k)")
    case False
    then have "kfree_merge p k s = Some (p, k, s)"
      using buddy_search_chain [OF buddy_wfD(3) [OF Suc.prems(1) k(1)]] k(3) by (subst kfree_merge.simps) simp
    with Suc.prems show ?thesis by blast
  next
    case True
    obtain s1 L a where M: "kfree_merge p k s = kfree_merge a (Suc k) s1" "buddy_wf s1 L" "in_heap s1 a (Suc k)"
      "blk a (Suc k) \<inter> free_set L = {}" "blk a (Suc k) \<union> free_set L = blk p k \<union> free_set Ls" "free_set L \<subseteq> free_set Ls"
      "heap_start s1 = heap_start s" "heap_end s1 = heap_end s" "console s1 = console s" "\<forall>a. unat a \<notin> free_set Ls \<longrightarrow> kmem s1 a = kmem s a"
      by (rule merge_step [OF Suc.prems(1,2) k(2) Suc.prems(4) True])
    have "d = 10 - Suc k" "Suc k \<le> 10" using Suc.hyps(2) by simp_all
    from Suc.hyps(1) [OF this(1) M(2,3) this(2) M(4)]
    obtain addr order s' Ls' where R: "kfree_merge p k s = Some (addr, order, s')" "order \<le> 10" "buddy_wf s' Ls'" "in_heap s' addr order"
      "blk addr order \<inter> free_set Ls' = {}" "blk addr order \<union> free_set Ls' = blk p k \<union> free_set Ls"
      "heap_start s' = heap_start s" "heap_end s' = heap_end s" "console s' = console s" "\<forall>a. unat a \<notin> free_set L \<longrightarrow> kmem s' a = kmem s1 a"
      unfolding M(1,5,7-9) by blast
    moreover have "\<forall>a. unat a \<notin> free_set Ls \<longrightarrow> kmem s' a = kmem s a" using R(10) M(6,10) by auto
    ultimately show ?thesis by blast
  qed
qed

text \<open>A released block joins the free set, whatever it merges with.\<close>

lemma kfree_order_inv:
  assumes "buddy_inv s F" "in_heap s p k" "k \<le> 10" "blk p k \<inter> F = {}"
  shows "\<exists>s'. kfree_order p k s = Some s' \<and> buddy_inv s' (F \<union> blk p k) \<and>
    heap_start s' = heap_start s \<and> heap_end s' = heap_end s \<and> console s' = console s \<and>
    (\<forall>a. unat a \<notin> F \<union> blk p k \<longrightarrow> kmem s' a = kmem s a)"
proof -
  obtain Ls where wf: "buddy_wf s Ls" and F: "F = free_set Ls" using assms(1) by (auto simp: buddy_inv_def)
  from kfree_merge_wf [OF wf assms(2,3)] assms(4) F
  obtain addr order s1 L where M: "kfree_merge p k s = Some (addr, order, s1)" "order \<le> 10"
    "buddy_wf s1 L" "in_heap s1 addr order" "blk addr order \<inter> free_set L = {}"
    "blk addr order \<union> free_set L = blk p k \<union> F"
    "heap_start s1 = heap_start s" "heap_end s1 = heap_end s" "console s1 = console s"
    "\<forall>a. unat a \<notin> F \<longrightarrow> kmem s1 a = kmem s a"
    by blast
  have o11: "order < 11" using M(2) by simp
  note P = buddy_wf_push [OF M(3) o11 M(4,5)]
  have "kfree_order p k s = Some (push_free addr order s1)"
    using M(1) assms(3) by (simp add: kfree_order_def MAX_ORDER_def)
  moreover have "free_set (L[order := addr # L ! order]) = F \<union> blk p k"
    using P(2) M(6) by blast
  then have "buddy_inv (push_free addr order s1) (F \<union> blk p k)"
    using P(1) unfolding buddy_inv_def by metis
  moreover have "kmem (push_free addr order s1) a = kmem s a" if "unat a \<notin> F \<union> blk p k" for a
  proof -
    have "unat a \<notin> blk addr order" using that M(6) by blast
    then have "a \<notin> span addr 8" using word_blk [OF M(4)] by blast
    then show ?thesis using that M(10) by (simp add: push_free_def store64_other)
  qed
  ultimately show ?thesis using M(7-9) by (auto simp: push_free_def)
qed

end
