(* ===== verification/Buddy_Pages.thy ===== *)
theory Buddy_Pages
  imports Buddy_Alloc
begin

text \<open>
  The initialisation of the page allocator, and the allocator as the source of pages that the page tables,
  the processes and the drivers are written against.
\<close>

section \<open>Initialisation\<close>

text \<open>
  While the heap is handed over, the free bytes are those from its start to \<open>addr\<close>, and \<open>n\<close> pages are left
  from there. A step moves \<open>addr\<close> on and writes only what it passes.
\<close>

definition filling :: "u64 \<Rightarrow> nat \<Rightarrow> kst \<Rightarrow> u64 list list \<Rightarrow> bool" where
  "filling addr n s Ls \<longleftrightarrow> buddy_wf s Ls \<and> free_set Ls = {unat (heap_start s) ..< unat addr} \<and> addr \<noteq> 0 \<and>
     4096 dvd unat addr \<and> unat (heap_start s) \<le> unat addr \<and> unat addr + 4096 * n \<le> unat (heap_end s)"

definition moved_on :: "u64 \<Rightarrow> kst \<Rightarrow> u64 \<Rightarrow> kst \<Rightarrow> bool" where
  "moved_on addr s addr' s' \<longleftrightarrow> unat addr \<le> unat addr' \<and> heap_start s' = heap_start s \<and> heap_end s' = heap_end s \<and>
     console s' = console s \<and> (\<forall>a. unat a \<notin> {unat addr ..< unat addr'} \<longrightarrow> kmem s' a = kmem s a)"

lemma moved_on_refl: "moved_on addr s addr s"
  by (simp add: moved_on_def)

lemma moved_on_trans: "moved_on a s b t \<Longrightarrow> moved_on b t c u \<Longrightarrow> moved_on a s c u"
  by (auto simp: moved_on_def)

lemma init_step:
  assumes fill: "filling addr n s Ls" and k: "k \<le> 10" "2 ^ k \<le> n"
  shows "filling (addr + block_size k) (n - 2 ^ k) (push_free addr k s) (Ls[k := addr # Ls ! k])"
    "moved_on addr s (addr + block_size k) (push_free addr k s)" "unat (addr + block_size k) = unat addr + 4096 * 2 ^ k"
proof -
  let ?s = "push_free addr k s" and ?a = "addr + block_size k" and ?L = "Ls[k := addr # Ls ! k]"
  have F: "buddy_wf s Ls" "free_set Ls = {unat (heap_start s) ..< unat addr}" "addr \<noteq> 0" "4096 dvd unat addr"
    "unat (heap_start s) \<le> unat addr" "unat addr + 4096 * n \<le> unat (heap_end s)" using fill by (simp_all add: filling_def)
  have le: "4096 * 2 ^ k \<le> 4096 * n" using k(2) by simp
  have h: "in_heap s addr k" using F(3-6) le by (simp add: in_heap_def)
  have "blk addr k \<inter> free_set Ls = {}" "k < 11" using F(2) k(1) by (auto simp: blk_def)
  note W = buddy_wf_push [OF F(1) this(2) h this(1)]
  have "unat addr + unat (block_size k) < 2 ^ 64"
    using le k(1) F(6) unat_bound(4) [of "heap_end s"] by (simp add: unat_block_size)
  then show ua: "unat ?a = unat addr + 4096 * 2 ^ k" using k(1) by (simp add: unat_add_lem [THEN iffD1] unat_block_size)
  have same: "heap_start ?s = heap_start s" "heap_end ?s = heap_end s" "console ?s = console s" by (simp_all add: push_free_def)
  have "?a \<noteq> 0" using ua one_le_pow [of k] by (metis add_is_0 mult_eq_0_iff unat_0 not_one_le_zero zero_neq_numeral)
  moreover have "free_set ?L = {unat (heap_start ?s) ..< unat ?a}" using W(2) F(2,5) by (auto simp: blk_def ua same)
  moreover have "4096 dvd unat ?a" "unat (heap_start ?s) \<le> unat ?a" "unat ?a + 4096 * (n - 2 ^ k) \<le> unat (heap_end ?s)"
    using F(4-6) k(2) by (simp_all add: ua same diff_mult_distrib2)
  ultimately show "filling ?a (n - 2 ^ k) ?s ?L" using W(1) by (simp add: filling_def)
  have "kmem ?s a = kmem s a" if "unat a \<notin> {unat addr ..< unat ?a}" for a
  proof -
    have "a \<notin> span addr 8" using that word_blk [OF h] ua by (auto simp: blk_def)
    then show ?thesis by (simp add: push_free_def store64_other)
  qed
  then show "moved_on addr s ?a ?s" by (simp add: moved_on_def same ua)
qed

lemma init_inner_wf:
  assumes "filling addr n s Ls" "k \<le> 10"
  shows "\<exists>addr' n' s' Ls'. init_inner k addr n s = (addr', n', s') \<and> filling addr' n' s' Ls' \<and> moved_on addr s addr' s' \<and>
    unat addr' + 4096 * n' = unat addr + 4096 * n \<and> n' < 2 ^ k \<and>
    length (Ls' ! k) \<le> length (Ls ! k) + n div 2 ^ k \<and> (\<forall>j. j \<noteq> k \<longrightarrow> Ls' ! j = Ls ! j)"
  using assms(1)
proof (induction n arbitrary: addr s Ls rule: less_induct)
  case (less n)
  show ?case
  proof (cases "2 ^ k \<le> n")
    case False
    then have "init_inner k addr n s = (addr, n, s)" by (subst init_inner.simps) simp
    then show ?thesis
      using False less.prems moved_on_refl by (intro exI [of _ addr] exI [of _ n] exI [of _ s] exI [of _ Ls]) simp
  next
    case True
    note S = init_step [OF less.prems assms(2) True]
    have n: "n - 2 ^ k < n" using True one_le_pow [of k] by linarith
    have len: "length Ls = 11" using less.prems buddy_wfD(2) [of s Ls] by (simp add: filling_def)
    obtain addr' n' s' Ls' where R: "init_inner k (addr + block_size k) (n - 2 ^ k) (push_free addr k s) = (addr', n', s')" "filling addr' n' s' Ls'"
      "moved_on (addr + block_size k) (push_free addr k s) addr' s'" "unat addr' + 4096 * n' = unat (addr + block_size k) + 4096 * (n - 2 ^ k)"
      "n' < 2 ^ k" "length (Ls' ! k) \<le> length (Ls[k := addr # Ls ! k] ! k) + (n - 2 ^ k) div 2 ^ k"
      "\<forall>j. j \<noteq> k \<longrightarrow> Ls' ! j = Ls[k := addr # Ls ! k] ! j" using less.IH [OF n S(1)] by blast
    have "init_inner k addr n s = (addr', n', s')" using True R(1) by (subst init_inner.simps) simp
    moreover have "unat addr' + 4096 * n' = unat addr + 4096 * n" using R(4) S(3) True by (simp add: diff_mult_distrib2)
    moreover have "n div 2 ^ k = Suc ((n - 2 ^ k) div 2 ^ k)" using True by (intro le_div_geq) simp_all
    ultimately show ?thesis
      using R(2,5-7) moved_on_trans [OF S(2) R(3)] len assms(2) by (intro exI [of _ addr'] exI [of _ n'] exI [of _ s'] exI [of _ Ls']) simp
  qed
qed

lemma init_outer_wf:
  assumes "filling addr n s Ls" "thin Ls" "\<And>j. j < k \<Longrightarrow> Ls ! j = []" "k \<le> 11" "k \<le> 10 \<Longrightarrow> n < 2 ^ k"
  shows "\<exists>addr' Ls'. filling addr' 0 (init_outer k addr n s) Ls' \<and> moved_on addr s addr' (init_outer k addr n s) \<and>
    unat addr' = unat addr + 4096 * n \<and> thin Ls'"
  using assms
proof (induction k arbitrary: addr n s Ls)
  case 0
  then have "n = 0" by simp
  then show ?case using 0 moved_on_refl by (intro exI [of _ addr] exI [of _ Ls]) simp
next
  case (Suc k)
  have k10: "k \<le> 10" using Suc.prems(4) by simp
  obtain addr' n' s' Ls' where R: "init_inner k addr n s = (addr', n', s')" "filling addr' n' s' Ls'" "moved_on addr s addr' s'"
    "unat addr' + 4096 * n' = unat addr + 4096 * n" "n' < 2 ^ k" "length (Ls' ! k) \<le> length (Ls ! k) + n div 2 ^ k"
    "\<forall>j. j \<noteq> k \<longrightarrow> Ls' ! j = Ls ! j" using init_inner_wf [OF Suc.prems(1) k10] by blast
  have "n div 2 ^ k < 2" if "k < 10" using Suc.prems(5) that by (intro less_mult_imp_div_less) simp
  then have "length (Ls' ! k) \<le> 1" if "k < 10" using that R(6) Suc.prems(3) [of k] by simp
  then have "thin Ls'" using Suc.prems(2) R(7) unfolding thin_def by metis
  moreover have "Ls' ! j = []" if "j < k" for j using that R(7) Suc.prems(3) by simp
  ultimately obtain addr2 L2 where "filling addr2 0 (init_outer k addr' n' s') L2" "moved_on addr' s' addr2 (init_outer k addr' n' s')"
    "unat addr2 = unat addr' + 4096 * n'" "thin L2" using Suc.IH [OF R(2)] k10 R(5) by auto
  then show ?case using R(1,4) moved_on_trans [OF R(3)] by auto
qed

lemma empty_lists_wf:
  "free_lists s = replicate 11 0 \<Longrightarrow> buddy_wf s (replicate 11 []) \<and> free_set (replicate 11 []) = {}"
  by (simp add: buddy_wf_def free_set_def)

lemma pages_line:
  assumes "unat t = n" "n < 2 ^ 31"
  shows "printf m (''klibc: Pages available: %d'' @ [CHR 0x0A]) [t] con =
    Inr (con @ bytes_of ''klibc: Pages available: '' @ numeral_of 10 n @ [13, 10])"
proof -
  have "t = of_nat n" using assms(1) by (metis word_unat_eq_iff unat_of_nat_64 unat_bound(4))
  then have "(ucast t :: u32) = of_nat n" using assms(2) by (simp add: unsigned_of_nat take_bit_nat_eq_self)
  then have "sint (ucast t :: u32) = int n" using assms(2) by (simp add: signed_of_nat signed_take_bit_int_eq_self)
  then have conv: "printf_conv m (byte_of CHR ''d'') [t] con = Inr (con @ numeral_of 10 n, [])" for con
    by (subst printf_d) (simp_all add: int_numeral_def)
  let ?lit = "bytes_of ''klibc: Pages available: ''"
  have "vprintf m (?lit @ byte_of CHR ''%'' # byte_of CHR ''d'' # [10]) [t] con =
      vprintf m (byte_of CHR ''%'' # byte_of CHR ''d'' # [10]) [t] (con @ crlf ?lit)"
    by (rule vprintf_literal) simp
  also have "crlf ?lit = ?lit" by (simp add: crlf_def)
  also have "vprintf m (byte_of CHR ''%'' # byte_of CHR ''d'' # [10]) [t] (con @ ?lit) =
      Inr (con @ ?lit @ numeral_of 10 n @ [13, 10])"
    unfolding vprintf_conv conv by (simp add: putc_def)
  finally show ?thesis by (simp add: printf_def)
qed

lemma init_memory_ok:
  assumes "free_lists s = replicate 11 0" "heap_start s \<noteq> 0" "4096 dvd unat (heap_start s)"
    and "unat (heap_start s) \<le> unat (heap_end s)"
  defines "n \<equiv> (unat (heap_end s) - unat (heap_start s)) div 4096"
  assumes n: "n < 2 ^ 31"
  shows "\<exists>s'. init_memory s = Inr s' \<and> alloc_inv True s' {unat (heap_start s) ..< unat (heap_start s) + 4096 * n} \<and>
    heap_start s' = heap_start s \<and> heap_end s' = heap_end s \<and>
    console s' = console s @ bytes_of ''klibc: Pages available: '' @ numeral_of 10 n @ [13, 10] \<and>
    (\<forall>a. unat a \<notin> {unat (heap_start s) ..< unat (heap_start s) + 4096 * n} \<longrightarrow> kmem s' a = kmem s a)"
proof -
  have total: "unat ((heap_end s - heap_start s) div PAGE_SIZE) = n"
    using assms(4) by (simp add: unat_div unat_sub word_le_nat_alt n_def PAGE_SIZE_def)
  let ?con = "console s @ bytes_of ''klibc: Pages available: '' @ numeral_of 10 n @ [13, 10]"
  let ?s = "s\<lparr>console := ?con\<rparr>"
  have init: "init_memory s = Inr (init_outer 11 (heap_start s) n ?s)"
    unfolding init_memory_def Let_def pages_line [OF total n] total by (simp add: MAX_ORDER_def)
  have "4096 * n \<le> unat (heap_end s) - unat (heap_start s)" by (simp add: n_def)
  then have le: "unat (heap_start s) + 4096 * n \<le> unat (heap_end s)" using assms(4) by simp
  then have "filling (heap_start s) n ?s (replicate 11 [])"
    using empty_lists_wf [of ?s] assms(1-3) by (simp add: filling_def)
  moreover have "thin (replicate 11 [])" by (simp add: thin_def)
  ultimately obtain addr Ls where "filling addr 0 (init_outer 11 (heap_start s) n ?s) Ls" "thin Ls"
    "moved_on (heap_start s) ?s addr (init_outer 11 (heap_start s) n ?s)" "unat addr = unat (heap_start s) + 4096 * n"
    using init_outer_wf [of "heap_start s" n ?s "replicate 11 []" 11] by auto
  then show ?thesis using init by (fastforce simp: filling_def moved_on_def alloc_inv_def)
qed

section \<open>The allocator as a source of pages\<close>

lemma page_blk: "page_at p = blk p 0"
  by (simp add: page_at_def blk_def)

lemma order_for_one: "order_for_pages 1 = 0"
proof -
  have "\<not> 0 < order_for_pages 1"
  proof
    assume "0 < order_for_pages 1"
    then have "(2 :: nat) ^ (order_for_pages 1 - 1) < 1" using order_for_pages_spec(3) [of 1] by simp
    then show False by simp
  qed
  then show ?thesis by simp
qed

abbreviation kalloc_page :: "kst \<Rightarrow> (u64 \<times> kst) res" where
  "kalloc_page \<equiv> kalloc 1"

lemma kalloc_page_cases:
  assumes "alloc_inv b s F"
  shows "kalloc_page s = Inl NullAccess \<and> F = {} \<or>
    (\<exists>p s'. kalloc_page s = Inr (p, s') \<and> p \<noteq> 0 \<and> 4096 dvd unat p \<and> page_at p \<subseteq> F \<and> alloc_inv b s' (F - page_at p) \<and>
      heap_start s' = heap_start s \<and> heap_end s' = heap_end s \<and> console s' = console s \<and>
      (\<forall>a. unat a \<notin> F \<longrightarrow> kmem s' a = kmem s a) \<and> (\<forall>a. unat a \<in> page_at p \<longrightarrow> kmem s' a = 0))"
proof -
  have "F = {}" if "\<forall>j. 0 \<le> j \<and> j \<le> 10 \<longrightarrow> free_lists s ! j = 0"
    using that kalloc_order_0_null_iff [OF alloc_inv_buddy [OF assms]] kalloc_order_null_iff [OF alloc_inv_buddy [OF assms], of 0] by simp
  then show ?thesis
    using kalloc_inv_cases [OF assms, of 1]
    by (auto simp: order_for_one page_blk in_heap_def) (auto simp: blk_def)
qed

interpretation pages: page_source kalloc_page "alloc_inv b" kmem "\<lambda>m s. s\<lparr>kmem := m\<rparr>" for b
proof
  fix s F p s' assume "alloc_inv b s F" "kalloc_page s = Inr (p, s')"
  with kalloc_page_cases [of b s F] show "p \<noteq> 0 \<and> 4096 dvd unat p \<and> page_at p \<subseteq> F \<and> alloc_inv b s' (F - page_at p)"
    by auto
next
  fix s F p s' and a :: u64 assume "alloc_inv b s F" "kalloc_page s = Inr (p, s')" "unat a \<in> page_at p"
  with kalloc_page_cases [of b s F] show "kmem s' a = 0" by auto
next
  fix s F p s' and a :: u64 assume "alloc_inv b s F" "kalloc_page s = Inr (p, s')" "unat a \<notin> F"
  with kalloc_page_cases [of b s F] show "kmem s' a = kmem s a" by auto
next
  fix s and F :: "nat set" assume "alloc_inv b s F" "F \<noteq> {}"
  with kalloc_page_cases [of b s F] show "\<exists>p s'. kalloc_page s = Inr (p, s')" by auto
qed (simp_all add: alloc_inv_frame)

lemma pages_alloc_frame:
  assumes "alloc_inv b s F" "kalloc 1 s = Inr (p, s')"
  shows "heap_start s' = heap_start s" "heap_end s' = heap_end s" "console s' = console s"
  using kalloc_page_cases [OF assms(1)] assms(2) by auto

lemmas kalloc_page_plain = kalloc_page_cases [where b = False, unfolded alloc_inv_False]

interpretation blocks: page_source kalloc_page buddy_inv kmem "\<lambda>m s. s\<lparr>kmem := m\<rparr>"
  using pages.page_source_axioms [of False] by simp

text \<open>A block of two pages, as the queues of the drivers need it.\<close>

lemma order_for_two: "order_for_pages 2 = 1"
  by (simp add: order_for_pages_def order_loop.simps MAX_ORDER_def)

lemma kalloc_two:
  assumes "alloc_inv True s F" "8192 \<le> card F"
  obtains p s' where "kalloc 2 s = Inr (p, s')" "p \<noteq> 0" "4096 dvd unat p" "unat p + 8192 < 2 ^ 64" "{unat p ..< unat p + 8192} \<subseteq> F"
    "alloc_inv True s' (F - {unat p ..< unat p + 8192})" "card (F - {unat p ..< unat p + 8192}) + 8192 = card F"
    "heap_start s' = heap_start s" "heap_end s' = heap_end s" "console s' = console s"
    "\<And>a. unat a \<notin> F \<Longrightarrow> kmem s' a = kmem s a" "\<And>a. unat p \<le> unat a \<Longrightarrow> unat a < unat p + 8192 \<Longrightarrow> kmem s' a = 0"
proof -
  have size: "4096 * 2 ^ order_for_pages 2 = (8192 :: nat)" by (simp add: order_for_two)
  obtain p s' where R: "kalloc 2 s = Inr (p, s')" "in_heap s p 1" "blk p 1 \<subseteq> F" "alloc_inv True s' (F - blk p 1)"
    "card (F - blk p 1) + 8192 = card F" "heap_start s' = heap_start s" "heap_end s' = heap_end s" "console s' = console s"
    "\<And>a. unat a \<notin> F \<Longrightarrow> kmem s' a = kmem s a"
    "\<And>a. unat p \<le> unat a \<Longrightarrow> unat a < unat p + 4096 * unat (2 :: u64) \<Longrightarrow> kmem s' a = 0"
    using kalloc_thin [OF assms(1), of 2, unfolded size order_for_two] assms(2) by auto
  have "unat p + 8192 < 2 ^ 64" using R(2) unat_bound(4) [of "heap_end s"] by (simp add: in_heap_def)
  then show thesis using that [OF R(1)] R(2-) by (simp add: in_heap_def blk_def)
qed

section \<open>A small heap\<close>

text \<open>
  Sixty-four pages at the address where the linker script puts kernel memory, before
  \<open>init_memory\<close>; the concrete instances of the properties are taken from it.
\<close>

definition small_heap :: kst where
  "small_heap = \<lparr>kmem = (\<lambda>_. 0), console = [], free_lists = replicate 11 0,
     heap_start = 0x80300000, heap_end = 0x80340000\<rparr>"

definition small_free :: "nat set" where
  "small_free = {0x80300000 ..< 0x80340000}"

lemma small_heap_init:
  obtains s where "init_memory small_heap = Inr s" "alloc_inv True s small_free" "buddy_inv s small_free" "heap_start s = 0x80300000"
    "heap_end s = 0x80340000" "console s = bytes_of ''klibc: Pages available: '' @ numeral_of 10 64 @ [13, 10]"
    "\<And>a. unat a \<notin> small_free \<Longrightarrow> kmem s a = 0"
  using init_memory_ok [of small_heap] that alloc_inv_buddy by (auto simp: small_heap_def small_free_def)

end
