(* ===== verification/Mapper.thy ===== *)
theory Mapper
  imports Prelude
begin

text \<open>
  The contract between the page tables and the process table: one mapping is one update of the
  view (the translation); it needs a set of nodes (tables), makes those that are missing out of
  \<open>unit\<close> free bytes each, and succeeds when there is memory for them. \<open>keeps\<close> relates states that
  differ only where the mapper may write. Building an address space is running the mapper over a
  list of mappings; what that gives, what it costs and when it succeeds is derived here once.
\<close>

locale mapper =
  fixes map1 :: "'x \<Rightarrow> 's \<Rightarrow> 's res"
    and key :: "'x \<Rightarrow> 'k" and val :: "'x \<Rightarrow> 'v" and good :: "'x \<Rightarrow> bool"
    and unit :: nat and nodes :: "'s \<Rightarrow> 'n set" and need :: "'x \<Rightarrow> 'n set"
    and inv :: "'s \<Rightarrow> nat set \<Rightarrow> bool" and view :: "'s \<Rightarrow> 'k \<Rightarrow> 'v option"
    and keeps :: "'s \<Rightarrow> nat set \<Rightarrow> 's \<Rightarrow> nat set \<Rightarrow> bool"
  assumes step: "inv s F \<Longrightarrow> map1 x s = Inr s' \<Longrightarrow>
      \<exists>F'. inv s' F' \<and> view s' = (view s)(key x \<mapsto> val x) \<and> keeps s F s' F' \<and>
        nodes s' = nodes s \<union> need x \<and> card F = card F' + unit * card (need x - nodes s)"
    and total: "inv s F \<Longrightarrow> good x \<Longrightarrow> unit * card (need x - nodes s) \<le> card F \<Longrightarrow> \<exists>s'. map1 x s = Inr s'"
    and need_finite: "finite (need x)"
    and keeps_refl: "keeps s F s F"
    and keeps_trans: "keeps s F s' F' \<Longrightarrow> keeps s' F' s'' F'' \<Longrightarrow> keeps s F s'' F''"
begin

definition need_all :: "'x list \<Rightarrow> 'n set" where
  "need_all xs = (\<Union>x \<in> set xs. need x)"

lemma need_all_Cons: "need_all (x # xs) = need x \<union> need_all xs"
  by (simp add: need_all_def)

lemma need_all_append: "need_all (xs @ ys) = need_all xs \<union> need_all ys"
  by (simp add: need_all_def)

lemma finite_need_all: "finite (need_all xs)"
  by (simp add: need_all_def need_finite)

lemma card_need_all:
  "card (need_all (x # xs) - N) = card (need x - N) + card (need_all xs - (N \<union> need x))"
proof -
  have eq: "need_all (x # xs) - N = (need x - N) \<union> (need_all xs - (N \<union> need x))"
    by (auto simp: need_all_Cons)
  show ?thesis
    unfolding eq by (rule card_Un_disjoint) (auto simp: need_finite finite_need_all)
qed

lemma run_all_view:
  assumes "inv s F" "run_all map1 xs s = Inr s'"
  shows "\<exists>F'. inv s' F' \<and> view s' = view s ++ map_of (rev (map (\<lambda>x. (key x, val x)) xs)) \<and>
    keeps s F s' F' \<and> nodes s' = nodes s \<union> need_all xs \<and> card F = card F' + unit * card (need_all xs - nodes s)"
  using assms
proof (induction xs arbitrary: s F)
  case Nil
  then show ?case using keeps_refl by (auto simp: need_all_def)
next
  case (Cons x xs)
  then obtain s1 where s1: "map1 x s = Inr s1" "run_all map1 xs s1 = Inr s'"
    by (auto simp: bind_res_Inr_iff)
  obtain F1 where F1: "inv s1 F1" "view s1 = (view s)(key x \<mapsto> val x)" "keeps s F s1 F1"
    "nodes s1 = nodes s \<union> need x" "card F = card F1 + unit * card (need x - nodes s)"
    using step [OF Cons.prems(1) s1(1)] by blast
  obtain F' where F': "inv s' F'" "view s' = view s1 ++ map_of (rev (map (\<lambda>x. (key x, val x)) xs))"
    "keeps s1 F1 s' F'" "nodes s' = nodes s1 \<union> need_all xs" "card F1 = card F' + unit * card (need_all xs - nodes s1)"
    using Cons.IH [OF F1(1) s1(2)] by blast
  have "view s' = view s ++ map_of (rev (map (\<lambda>x. (key x, val x)) (x # xs)))"
    using F'(2) F1(2) by (simp add: map_of_append map_add_assoc flip: map_add_upd_left)
  moreover have "nodes s' = nodes s \<union> need_all (x # xs)"
    using F'(4) F1(4) by (auto simp: need_all_Cons)
  moreover have "card F = card F' + unit * card (need_all (x # xs) - nodes s)"
    using F'(5) F1(4,5) by (simp add: card_need_all algebra_simps)
  ultimately show ?case using F'(1) keeps_trans [OF F1(3) F'(3)] by blast
qed

lemma run_all_total:
  assumes "inv s F" "\<And>x. x \<in> set xs \<Longrightarrow> good x" "unit * card (need_all xs - nodes s) \<le> card F"
  shows "\<exists>s'. run_all map1 xs s = Inr s'"
  using assms
proof (induction xs arbitrary: s F)
  case (Cons x xs)
  have split: "unit * card (need_all (x # xs) - nodes s) =
      unit * card (need x - nodes s) + unit * card (need_all xs - (nodes s \<union> need x))"
    by (simp add: card_need_all algebra_simps)
  then obtain s1 where s1: "map1 x s = Inr s1" using total [OF Cons.prems(1), of x] Cons.prems(2,3) by auto
  obtain F1 where F1: "inv s1 F1" "nodes s1 = nodes s \<union> need x" "card F = card F1 + unit * card (need x - nodes s)"
    using step [OF Cons.prems(1) s1] by blast
  have "\<exists>s'. run_all map1 xs s1 = Inr s'"
    using Cons.prems(2,3) F1 split by (intro Cons.IH [OF F1(1)]) auto
  with s1 show ?case by simp
qed simp

end

end
