(* ===== verification/Paging.thy ===== *)
theory Paging
  imports Buddy_Pages Mapper
begin

text \<open>
  Sv39 page tables, \<open>arch/paging.c\<close> and \<open>arch/paging.h\<close>. A table is a page of 512 eight-byte
  entries in memory; \<open>map_page\<close> walks from the root, allocates the missing tables with \<open>kalloc(1)\<close>
  and writes the leaf, and \<open>vaddr_to_paddr\<close> walks down and rebuilds the physical address.

  \<open>table_at m root path\<close> is the table reached from the root along a list of indices, and
  \<open>translation m root\<close> the partial map from index triples to leaf entries that the tables denote:
  the specification is that \<open>map_page\<close> is a map update and \<open>vaddr_to_paddr\<close> a lookup. The
  invariant \<open>pt_inv\<close> keeps the tables apart from each other and from the allocator's free memory.
\<close>

section \<open>Constants and entries\<close>

definition PAGE_V :: u64 where "PAGE_V = 1"
definition PAGE_R :: u32 where "PAGE_R = 2"
definition PAGE_W :: u32 where "PAGE_W = 4"
definition PAGE_X :: u32 where "PAGE_X = 8"
definition PAGE_U :: u32 where "PAGE_U = 16"

definition VPN_MASK :: u64 where "VPN_MASK = 0x1ff"
definition PPN_MASK :: u64 where "PPN_MASK = 0x00000FFFFFFFFFFF"

definition vpn2 :: "u64 \<Rightarrow> u64" where "vpn2 vaddr = drop_bit 30 vaddr AND VPN_MASK"
definition vpn1 :: "u64 \<Rightarrow> u64" where "vpn1 vaddr = drop_bit 21 vaddr AND VPN_MASK"
definition vpn0 :: "u64 \<Rightarrow> u64" where "vpn0 vaddr = drop_bit 12 vaddr AND VPN_MASK"

text \<open>The address of \<open>table[idx]\<close>.\<close>

definition slot :: "u64 \<Rightarrow> u64 \<Rightarrow> u64" where
  "slot table idx = table + 8 * idx"

definition pte_ppn :: "u64 \<Rightarrow> u64" where
  "pte_ppn paddr = PPN_MASK AND push_bit 10 (paddr div PAGE_SIZE)"

definition pte_branch :: "u64 \<Rightarrow> u64" where
  "pte_branch paddr = pte_ppn paddr OR PAGE_V"

definition pte_leaf :: "u64 \<Rightarrow> u32 \<Rightarrow> u64" where
  "pte_leaf paddr flags = pte_ppn paddr OR ucast flags OR PAGE_V"

definition pte_next :: "u64 \<Rightarrow> u64" where
  "pte_next pte = push_bit 12 (drop_bit 10 pte)"

section \<open>The routines\<close>

text \<open>One level of \<open>map_page\<close>: the table that entry \<open>idx\<close> points to, made if there is none.\<close>

definition next_table :: "u64 \<Rightarrow> u64 \<Rightarrow> kst \<Rightarrow> (u64 \<times> kst) res" where
  "next_table table idx s =
     bind_res
       (if load64 (kmem s) (slot table idx) AND PAGE_V = 0 then
          bind_res (kalloc 1 s) (\<lambda>(paddr, s).
            Inr (s\<lparr>kmem := store64 (kmem s) (slot table idx) (pte_branch paddr)\<rparr>))
        else Inr s)
       (\<lambda>s. Inr (pte_next (load64 (kmem s) (slot table idx)), s))"

definition map_page :: "u64 \<Rightarrow> u64 \<Rightarrow> u64 \<Rightarrow> u32 \<Rightarrow> kst \<Rightarrow> kst res" where
  "map_page root_table vaddr paddr flags s =
     (if \<not> is_aligned vaddr PAGE_SIZE then Inl (Panic ''unaligned vaddr %x'' [vaddr])
      else if \<not> is_aligned paddr PAGE_SIZE then Inl (Panic ''unaligned paddr %x'' [paddr])
      else if flags AND 0xe = 0 then Inl (Panic ''Attempted map with no permissions!'' [])
      else
        bind_res (next_table root_table (vpn2 vaddr) s) (\<lambda>(table1, s).
        bind_res (next_table table1 (vpn1 vaddr) s) (\<lambda>(table0, s).
          Inr (s\<lparr>kmem := store64 (kmem s) (slot table0 (vpn0 vaddr)) (pte_leaf paddr flags)\<rparr>))))"

text \<open>The result 0 is the null pointer of an address that is not mapped.\<close>

definition vaddr_to_paddr :: "mem \<Rightarrow> u64 \<Rightarrow> u64 \<Rightarrow> u64" where
  "vaddr_to_paddr m root_table vaddr =
     (let pte2 = load64 m (slot root_table (vpn2 vaddr)) in
      if pte2 AND PAGE_V = 0 then 0
      else let table1 = pte_next pte2; pte1 = load64 m (slot table1 (vpn1 vaddr)) in
        if pte1 AND PAGE_V = 0 then 0
        else let table0 = pte_next pte1; pte0 = load64 m (slot table0 (vpn0 vaddr)) in
          if pte0 AND PAGE_V = 0 then 0
          else let ppn = drop_bit 10 pte0 AND PPN_MASK;
                   page_offset = vaddr AND (PAGE_SIZE - 1)
               in push_bit 12 ppn OR page_offset)"

section \<open>Bits of entries\<close>

lemma PPN_MASK_mask: "PPN_MASK = mask 44"
  by (simp add: PPN_MASK_def mask_eq_exp_minus_1)

lemma VPN_MASK_mask: "VPN_MASK = mask 9"
  by (simp add: VPN_MASK_def mask_eq_exp_minus_1)

lemma div_PAGE_SIZE: "paddr div PAGE_SIZE = drop_bit 12 paddr"
  by (simp add: PAGE_SIZE_def drop_bit_eq_div)

lemma and_one_bit: "x AND 1 = 0 \<longleftrightarrow> \<not> bit (x :: u64) 0"
  by (metis and_one_eq bit_0 even_iff_mod_2_eq_zero of_bool_eq_0_iff one_and_eq)

lemma PAGE_V_set: "x OR PAGE_V = (x :: u64) OR 1" "(y :: u64) AND PAGE_V = y AND 1"
  by (simp_all add: PAGE_V_def)

lemma vpn_less: "unat (vpn2 v) < 512" "unat (vpn1 v) < 512" "unat (vpn0 v) < 512"
  by (simp_all add: vpn2_def vpn1_def vpn0_def VPN_MASK_mask flip: take_bit_eq_mask)
    (use take_bit_nat_less_exp [of 9] in \<open>simp_all add: unsigned_take_bit_eq\<close>)

lemma aligned_bits: "4096 dvd unat p \<Longrightarrow> bit (p :: u64) n \<Longrightarrow> 12 \<le> n"
proof (rule ccontr)
  assume a: "4096 dvd unat p" "bit p n" "\<not> 12 \<le> n"
  then have "take_bit 12 (unat p) = 0" by (simp add: take_bit_eq_mod)
  then have "\<not> bit (take_bit 12 (unat p)) n" by simp
  with a(2,3) show False by (simp add: bit_take_bit_iff bit_unsigned_iff)
qed

lemma high_bits: "unat p < 2 ^ k \<Longrightarrow> bit (p :: 'a :: len word) n \<Longrightarrow> n < k"
proof (rule ccontr)
  assume a: "unat p < 2 ^ k" "bit p n" "\<not> n < k"
  then have "take_bit k (unat p) = unat p" by (simp add: take_bit_nat_eq_self)
  then have "\<not> bit (unat p) n" using a(3) by (metis bit_take_bit_iff)
  with a(2) show False by (simp add: bit_unsigned_iff)
qed

lemma pte_branch_valid: "pte_branch p AND PAGE_V \<noteq> 0" "pte_leaf q f AND PAGE_V \<noteq> 0"
  by (simp_all add: pte_branch_def pte_leaf_def PAGE_V_set and_one_bit bit_simps)

lemma pte_next_branch:
  assumes "4096 dvd unat p" "unat p < 2 ^ 46"
  shows "pte_next (pte_branch p) = p"
  using le_add_diff_inverse [OF aligned_bits [OF assms(1)]]
  by (intro bit_word_eqI)
    (auto simp: pte_next_def pte_branch_def pte_ppn_def PPN_MASK_mask div_PAGE_SIZE PAGE_V_def bit_simps
      dest: aligned_bits [OF assms(1)] high_bits [OF assms(2)])

text \<open>
  The frame that a leaf stands for, as \<open>vaddr_to_paddr\<close> reads it. \<open>PPN_MASK\<close> is 44 bits wide and
  is applied after the shift by ten, so only bits 12 to 45 of the frame's address are kept.
\<close>

definition pte_frame :: "u64 \<Rightarrow> u64" where
  "pte_frame pte = push_bit 12 (drop_bit 10 pte AND PPN_MASK)"

lemma pte_frame_leaf:
  assumes "unat flags < 1024"
  shows "pte_frame (pte_leaf p flags) = p AND mask 46 AND NOT (mask 12)"
proof -
  have "n < 10" if "bit flags n" for n
    using that assms by (intro high_bits [of flags 10]) simp_all
  then show ?thesis
    by (intro bit_word_eqI)
      (auto simp: pte_frame_def pte_leaf_def pte_ppn_def PPN_MASK_mask div_PAGE_SIZE PAGE_V_def bit_simps)
qed

lemma pte_frame_exact:
  assumes "4096 dvd unat p" "unat p < 2 ^ 46" "unat flags < 1024"
  shows "pte_frame (pte_leaf p flags) = p"
  unfolding pte_frame_leaf [OF assms(3)]
  by (intro bit_word_eqI) (auto simp: bit_simps dest: aligned_bits [OF assms(1)] high_bits [OF assms(2)])

section \<open>Tables in memory\<close>

definition entry :: "mem \<Rightarrow> u64 \<Rightarrow> u64 \<Rightarrow> u64 option" where
  "entry m t i = (let e = load64 m (slot t i) in if e AND PAGE_V = 0 then None else Some e)"

fun table_at :: "mem \<Rightarrow> u64 \<Rightarrow> u64 list \<Rightarrow> u64 option" where
  "table_at m t [] = Some t"
| "table_at m t (i # is) =
     (case entry m t i of None \<Rightarrow> None | Some e \<Rightarrow> table_at m (pte_next e) is)"

lemma table_at_snoc:
  "table_at m t (is @ [i]) =
     (case table_at m t is of None \<Rightarrow> None | Some u \<Rightarrow> map_option pte_next (entry m u i))"
  by (induction "is" arbitrary: t) (auto split: option.splits)

text \<open>The leaf entry of an index triple, and the translation that a root denotes.\<close>

definition leaf_at :: "mem \<Rightarrow> u64 \<Rightarrow> u64 list \<Rightarrow> u64 \<Rightarrow> u64 option" where
  "leaf_at m root is i = (case table_at m root is of None \<Rightarrow> None | Some t \<Rightarrow> entry m t i)"

definition vpns :: "u64 \<Rightarrow> u64 \<times> u64 \<times> u64" where
  "vpns v = (vpn2 v, vpn1 v, vpn0 v)"

definition translation :: "mem \<Rightarrow> u64 \<Rightarrow> u64 \<times> u64 \<times> u64 \<Rightarrow> u64 option" where
  "translation m root k = (case k of (i, j, l) \<Rightarrow>
     if unat i < 512 \<and> unat j < 512 \<and> unat l < 512 then leaf_at m root [i, j] l else None)"

definition is_table_path :: "u64 list \<Rightarrow> bool" where
  "is_table_path is \<longleftrightarrow> length is \<le> 2 \<and> (\<forall>i \<in> set is. unat i < 512)"

definition pt_inv :: "mem \<Rightarrow> u64 \<Rightarrow> nat set \<Rightarrow> bool" where
  "pt_inv m root F \<longleftrightarrow>
     (\<forall>p t. is_table_path p \<longrightarrow> table_at m root p = Some t \<longrightarrow> t \<noteq> 0 \<and> 4096 dvd unat t \<and> page_at t \<inter> F = {}) \<and>
     (\<forall>p q t. is_table_path p \<longrightarrow> is_table_path q \<longrightarrow> table_at m root p = Some t \<longrightarrow> table_at m root q = Some t \<longrightarrow> p = q)"

lemma pt_invD:
  assumes "pt_inv m root F" "is_table_path p" "table_at m root p = Some t"
  shows "t \<noteq> 0" "4096 dvd unat t" "page_at t \<inter> F = {}"
    "is_table_path q \<Longrightarrow> table_at m root q = Some t \<Longrightarrow> p = q"
  using assms unfolding pt_inv_def by blast+

definition table_bytes :: "mem \<Rightarrow> u64 \<Rightarrow> nat set" where
  "table_bytes m root = {a. \<exists>p t. is_table_path p \<and> table_at m root p = Some t \<and> a \<in> page_at t}"

definition tables :: "mem \<Rightarrow> u64 \<Rightarrow> u64 list set" where
  "tables m root = {p. is_table_path p \<and> table_at m root p \<noteq> None}"

lemma table_path_Nil [simp]: "is_table_path []"
  by (simp add: is_table_path_def)

lemma table_path_snoc: "is_table_path (p @ [i]) \<longleftrightarrow> length p \<le> 1 \<and> is_table_path p \<and> unat i < 512"
  by (auto simp: is_table_path_def)

lemma unat_slot:
  assumes "4096 dvd unat t" "unat i < 512"
  shows "unat (slot t i) = unat t + 8 * unat i"
proof -
  have i: "unat (8 * i) = 8 * unat i" using assms(2) by (simp add: unat_mult_lem [THEN iffD1])
  have "unat t + unat (8 * i) < 2 ^ 64" using page_no_wrap [OF assms(1)] assms(2) i by simp
  then show ?thesis by (simp add: slot_def unat_add_lem [THEN iffD1] i)
qed

lemma slot_in_page:
  assumes "4096 dvd unat t" "unat i < 512" "a \<in> span (slot t i) 8"
  shows "unat a \<in> page_at t"
proof -
  have "unat (slot t i) + 8 \<le> 2 ^ 64" using page_no_wrap [OF assms(1)] assms(2) unat_slot [OF assms(1,2)] by simp
  with assms(3) unat_slot [OF assms(1,2)] assms(2) show ?thesis by (simp add: in_span_iff page_at_def)
qed

lemma slots_disjoint:
  assumes "4096 dvd unat t" "4096 dvd unat u" "unat i < 512" "unat j < 512" "(t, i) \<noteq> (u, j)"
  shows "span (slot t i) 8 \<inter> span (slot u j) 8 = {}"
proof (cases "t = u")
  case True
  then have "unat i \<noteq> unat j" using assms(5) by (auto simp: word_unat_eq_iff)
  then show ?thesis
    using True assms(2-4) page_no_wrap [OF assms(2)]
    by (intro span_disjoint) (auto simp: unat_slot)
next
  case False
  then show ?thesis
    using pages_disjoint [OF assms(1,2)] slot_in_page [OF assms(1,3)] slot_in_page [OF assms(2,4)] by blast
qed

lemma entry_cong:
  assumes "4096 dvd unat t" "unat i < 512" "\<And>a. unat a \<in> page_at t \<Longrightarrow> m' a = m a"
  shows "entry m' t i = entry m t i"
proof -
  have "load64 m' (slot t i) = load64 m (slot t i)"
    using slot_in_page [OF assms(1,2)] assms(3) by (intro load64_cong) blast
  then show ?thesis by (simp add: entry_def)
qed

lemma entry_store_same: "v AND PAGE_V \<noteq> 0 \<Longrightarrow> entry (store64 m (slot t i) v) t i = Some v"
  by (simp add: entry_def load64_store64_same)

lemma entry_store_other:
  assumes "4096 dvd unat t" "4096 dvd unat u" "unat i < 512" "unat j < 512" "(t, i) \<noteq> (u, j)"
  shows "entry (store64 m (slot t i) v) u j = entry m u j"
  by (simp add: entry_def load64_store64_other [OF slots_disjoint [OF assms]])

text \<open>Memory that differs only outside the tables denotes the same tables.\<close>

lemma table_at_cong:
  assumes inv: "pt_inv m root F" and eq: "\<And>a. unat a \<in> table_bytes m root \<Longrightarrow> m' a = m a"
  shows "is_table_path p \<Longrightarrow> table_at m' root p = table_at m root p"
proof (induction p rule: rev_induct)
  case (snoc i p)
  then have p: "is_table_path p" "unat i < 512" by (simp_all add: table_path_snoc)
  show ?case
  proof (cases "table_at m root p")
    case (Some t)
    have "entry m' t i = entry m t i"
      using pt_invD(2) [OF inv p(1) Some] p Some by (intro entry_cong eq) (auto simp: table_bytes_def)
    with snoc.IH [OF p(1)] Some show ?thesis by (simp add: table_at_snoc)
  qed (use snoc.IH [OF p(1)] in \<open>simp add: table_at_snoc\<close>)
qed simp

lemma translation_cong:
  assumes inv: "pt_inv m root F" and eq: "\<And>a. unat a \<in> table_bytes m root \<Longrightarrow> m' a = m a"
  shows "translation m' root = translation m root"
proof
  fix k :: "u64 \<times> u64 \<times> u64"
  obtain i j l where k: "k = (i, j, l)" by (cases k)
  show "translation m' root k = translation m root k"
  proof (cases "unat i < 512 \<and> unat j < 512 \<and> unat l < 512")
    case True
    then have p: "is_table_path [i, j]" by (simp add: is_table_path_def)
    note T = table_at_cong [OF inv eq p]
    show ?thesis
    proof (cases "table_at m root [i, j]")
      case (Some t)
      have "entry m' t l = entry m t l"
        using pt_invD(2) [OF inv p Some] True p Some by (intro entry_cong eq) (auto simp: table_bytes_def)
      with T Some show ?thesis by (simp add: k translation_def leaf_at_def del: table_at.simps)
    qed (use T in \<open>simp add: k translation_def leaf_at_def del: table_at.simps\<close>)
  qed (auto simp: k translation_def)
qed

lemma pt_inv_cong:
  assumes inv: "pt_inv m root F" and eq: "\<And>a. unat a \<in> table_bytes m root \<Longrightarrow> m' a = m a" and "F' \<subseteq> F"
  shows "pt_inv m' root F'"
  using inv assms(3) table_at_cong [OF inv eq] unfolding pt_inv_def by (metis disjoint_iff subset_iff)

lemma table_bytes_not_free: "pt_inv m root F \<Longrightarrow> a \<in> table_bytes m root \<Longrightarrow> a \<notin> F"
  by (auto simp: table_bytes_def dest: pt_invD(3))

section \<open>Installing a table\<close>

lemma empty_page:
  assumes "4096 dvd unat pg" "\<And>a. unat a \<in> page_at pg \<Longrightarrow> m a = 0" "unat i < 512"
  shows "entry m pg i = None"
proof -
  have "load64 m (slot pg i) = load64 (\<lambda>_. 0) (slot pg i)"
    using slot_in_page [OF assms(1,3)] assms(2) by (intro load64_cong) blast
  then show ?thesis by (simp add: entry_def load_le.simps eval_nat_numeral)
qed

text \<open>Writing an entry of one table changes no entry of another, since different paths lead to different tables.\<close>

lemma entry_elsewhere:
  assumes inv: "pt_inv m root F" and t: "is_table_path p" "table_at m root p = Some t" "unat i < 512"
    and u: "is_table_path q" "table_at m root q = Some u" "unat j < 512" and "(q, j) \<noteq> (p, i)"
  shows "entry (store64 m (slot t i) v) u j = entry m u j"
proof -
  have "(t, i) \<noteq> (u, j)" using pt_invD(4) [OF inv t(1,2) u(1)] u(2) assms(8) by blast
  then show ?thesis by (intro entry_store_other pt_invD(2) [OF inv t(1,2)] pt_invD(2) [OF inv u(1,2)] t(3) u(3))
qed

lemma translation_at:
  "is_table_path [a, b] \<Longrightarrow> unat l < 512 \<Longrightarrow>
   translation m root (a, b, l) = (case table_at m root [a, b] of None \<Rightarrow> None | Some t \<Rightarrow> entry m t l)"
  by (simp add: translation_def leaf_at_def is_table_path_def)

lemma translation_eqI:
  assumes "\<And>a b l. is_table_path [a, b] \<Longrightarrow> unat l < 512 \<Longrightarrow> translation m root (a, b, l) = f (a, b, l)"
    and "\<And>a b l. \<not> (is_table_path [a, b] \<and> unat l < 512) \<Longrightarrow> f (a, b, l) = None"
  shows "translation m root = f"
proof
  fix k :: "u64 \<times> u64 \<times> u64"
  obtain a b l where k: "k = (a, b, l)" by (cases k)
  show "translation m root k = f k"
    using assms(1) [of a b l] assms(2) [of a b l]
    by (cases "is_table_path [a, b] \<and> unat l < 512") (auto simp: k translation_def is_table_path_def)
qed

lemma translation_None: "\<not> (is_table_path [a, b] \<and> unat l < 512) \<Longrightarrow> translation m root (a, b, l) = None"
  by (auto simp: translation_def is_table_path_def)

text \<open>
  A cleared page \<open>pg\<close> from the free memory becomes the table behind an empty entry \<open>i\<close> of the
  table at \<open>p\<close>: exactly the path \<open>p @ [i]\<close> is new, and no translation changes.
\<close>

lemma install_table:
  assumes inv: "pt_inv m root F" and p: "is_table_path (p @ [i])" and t: "table_at m root p = Some t"
    and none: "entry m t i = None"
    and pg: "pg \<noteq> 0" "4096 dvd unat pg" "unat pg < 2 ^ 46" "page_at pg \<subseteq> F" "\<forall>a. unat a \<in> page_at pg \<longrightarrow> m a = 0"
  defines "m' \<equiv> store64 m (slot t i) (pte_branch pg)"
  shows "unat j < 512 \<Longrightarrow> entry m' pg j = None"
    "is_table_path q \<Longrightarrow> table_at m' root q = (if q = p @ [i] then Some pg else table_at m root q)"
proof -
  have p': "is_table_path p" "unat i < 512" using p by (simp_all add: table_path_snoc)
  note T = pt_invD [OF inv p'(1) t]
  have t_pg: "pg \<noteq> t" using T(3) pg(4) page_ne [of t] by blast
  show pg_empty: "entry m' pg j = None" if "unat j < 512" for j
    using entry_store_other [OF T(2) pg(2) p'(2) that] t_pg empty_page [OF pg(2) _ that] pg(5) by (simp add: m'_def)
  show "is_table_path q \<Longrightarrow> table_at m' root q = (if q = p @ [i] then Some pg else table_at m root q)"
  proof (induction q rule: rev_induct)
    case (snoc j q)
    then have q: "is_table_path q" "unat j < 512" by (simp_all add: table_path_snoc)
    note IH = snoc.IH [OF q(1)]
    consider "q = p @ [i]" | "q \<noteq> p @ [i]" "table_at m root q = None" | u where "q \<noteq> p @ [i]" "table_at m root q = Some u" by blast
    then show ?case
    proof cases
      case 1
      then have "table_at m root q = None" "table_at m' root q = Some pg" using t none IH by (simp_all add: table_at_snoc)
      then show ?thesis using 1 pg_empty [OF q(2)] table_at_snoc [of m' root q j] table_at_snoc [of m root q j] by simp
    next
      case 2
      then show ?thesis using IH t by (auto simp: table_at_snoc)
    next
      case (3 u)
      show ?thesis
      proof (cases "(q, j) = (p, i)")
        case True
        then have "entry m' u j = Some (pte_branch pg)" using 3(2) t by (simp add: m'_def entry_store_same pte_branch_valid)
        then show ?thesis using IH 3 True by (simp add: table_at_snoc pte_next_branch [OF pg(2,3)])
      next
        case False
        then have "entry m' u j = entry m u j" unfolding m'_def by (intro entry_elsewhere [OF inv p'(1) t p'(2) q(1) 3(2) q(2)])
        then show ?thesis using IH 3 False by (auto simp: table_at_snoc)
      qed
    qed
  qed simp
qed

lemma install_table_inv:
  assumes inv: "pt_inv m root F" and p: "is_table_path (p @ [i])" and t: "table_at m root p = Some t"
    and none: "entry m t i = None"
    and pg: "pg \<noteq> 0" "4096 dvd unat pg" "unat pg < 2 ^ 46" "page_at pg \<subseteq> F" "\<forall>a. unat a \<in> page_at pg \<longrightarrow> m a = 0"
  defines "m' \<equiv> store64 m (slot t i) (pte_branch pg)"
  shows "pt_inv m' root (F - page_at pg)" "table_bytes m' root = table_bytes m root \<union> page_at pg"
proof -
  have I: "table_at m' root q = (if q = p @ [i] then Some pg else table_at m root q)" if "is_table_path q" for q
    unfolding m'_def by (rule install_table(2) [OF inv p t none pg that])
  have old: "u \<noteq> pg" if "is_table_path q" "table_at m root q = Some u" for q u
    using pt_invD(3) [OF inv that] pg(4) page_ne [of pg] by blast
  have props: "u \<noteq> 0 \<and> 4096 dvd unat u \<and> page_at u \<inter> (F - page_at pg) = {}"
    if "is_table_path q" "table_at m' root q = Some u" for q u
    using that(2) pg pt_invD(1-3) [OF inv that(1)] unfolding I [OF that(1)] by (auto split: if_splits)
  have "q = r" if "is_table_path q" "is_table_path r" "table_at m' root q = Some u" "table_at m' root r = Some u" for q r u
    using that I [OF that(1)] I [OF that(2)] old pt_invD(4) [OF inv] by (simp split: if_splits) metis+
  with props show "pt_inv m' root (F - page_at pg)" unfolding pt_inv_def by blast
  have "table_at m root (p @ [i]) = None" using t none by (simp add: table_at_snoc)
  then have "(\<exists>q u. is_table_path q \<and> table_at m' root q = Some u \<and> a \<in> page_at u) \<longleftrightarrow>
    (\<exists>q u. is_table_path q \<and> table_at m root q = Some u \<and> a \<in> page_at u) \<or> a \<in> page_at pg" for a
    using I p by simp (metis option.distinct(1) option.inject)
  then show "table_bytes m' root = table_bytes m root \<union> page_at pg" by (auto simp: table_bytes_def)
qed

lemma install_table_translation:
  assumes inv: "pt_inv m root F" and p: "is_table_path (p @ [i])" and t: "table_at m root p = Some t"
    and none: "entry m t i = None"
    and pg: "pg \<noteq> 0" "4096 dvd unat pg" "unat pg < 2 ^ 46" "page_at pg \<subseteq> F" "\<forall>a. unat a \<in> page_at pg \<longrightarrow> m a = 0"
  shows "translation (store64 m (slot t i) (pte_branch pg)) root = translation m root"
proof (rule translation_eqI)
  fix a b l :: u64
  assume ab: "is_table_path [a, b]" and l: "unat l < 512"
  have p': "is_table_path p" "length p \<le> 1" "unat i < 512" using p by (simp_all add: table_path_snoc)
  note I = install_table(1) [OF inv p t none pg l] install_table(2) [OF inv p t none pg ab]
  show "translation (store64 m (slot t i) (pte_branch pg)) root (a, b, l) = translation m root (a, b, l)"
  proof (cases "[a, b] = p @ [i]")
    case True
    then have "table_at m root [a, b] = None" unfolding True using t none by (simp add: table_at_snoc)
    moreover have "table_at (store64 m (slot t i) (pte_branch pg)) root [a, b] = Some pg" using I(2) True by presburger
    ultimately show ?thesis using I(1) by (simp add: translation_at [OF ab l] del: table_at.simps)
  next
    case False
    have "([a, b], l) \<noteq> (p, i)" using p'(2) by auto
    then show ?thesis using I(2) False entry_elsewhere [OF inv p'(1) t p'(3) ab _ l]
      by (simp add: translation_at [OF ab l] split: option.split del: table_at.simps)
  qed
qed (rule translation_None)

section \<open>Writing a leaf\<close>

lemma store_leaf:
  assumes inv: "pt_inv m root F" and p: "is_table_path [i, j]" and t: "table_at m root [i, j] = Some t"
    and l: "unat l < 512" and v: "v AND PAGE_V \<noteq> 0"
  defines "m' \<equiv> store64 m (slot t l) v"
  shows "pt_inv m' root F" "translation m' root = (translation m root)((i, j, l) \<mapsto> v)"
    "table_bytes m' root = table_bytes m root" "tables m' root = tables m root"
proof -
  have other: "entry m' u k = entry m u k" if "is_table_path q" "table_at m root q = Some u" "unat k < 512" "(q, k) \<noteq> ([i, j], l)" for q u k
    unfolding m'_def by (rule entry_elsewhere [OF inv p t l that])
  have same: "is_table_path q \<Longrightarrow> table_at m' root q = table_at m root q" for q
  proof (induction q rule: rev_induct)
    case (snoc k q)
    then have q: "is_table_path q" "length q \<le> 1" "unat k < 512" by (simp_all add: table_path_snoc)
    have "(q, k) \<noteq> ([i, j], l)" using q(2) by auto
    then show ?case
      using other [OF q(1) _ q(3)] snoc.IH [OF q(1)] by (cases "table_at m root q") (simp_all add: table_at_snoc)
  qed simp
  then show "pt_inv m' root F" "table_bytes m' root = table_bytes m root" "tables m' root = tables m root"
    using inv by (auto simp: pt_inv_def table_bytes_def tables_def)
  show "translation m' root = (translation m root)((i, j, l) \<mapsto> v)"
  proof (rule translation_eqI)
    fix a b c :: u64
    assume ab: "is_table_path [a, b]" and c: "unat c < 512"
    have "entry m' t l = Some v" unfolding m'_def by (rule entry_store_same [OF v])
    then show "translation m' root (a, b, c) = ((translation m root)((i, j, l) \<mapsto> v)) (a, b, c)"
      using same [OF ab] t other [OF ab _ c]
      by (cases "(a, b, c) = (i, j, l)") (auto simp: translation_at [OF ab c] translation_at [OF p l] simp del: table_at.simps split: option.split)
  qed (use p l in \<open>auto simp: translation_None\<close>)
qed

section \<open>One level, and a whole mapping\<close>

text \<open>
  A kernel state whose allocator is consistent with free bytes \<open>F\<close> and in which \<open>root\<close> denotes
  tables outside \<open>F\<close>. Physical addresses of tables must fit the 46 bits that a branch entry keeps.
\<close>

definition pt_state_of :: "bool \<Rightarrow> kst \<Rightarrow> u64 \<Rightarrow> nat set \<Rightarrow> bool" where
  "pt_state_of b s root F \<longleftrightarrow> alloc_inv b s F \<and> pt_inv (kmem s) root F \<and> F \<subseteq> {..< 2 ^ 46}"

abbreviation pt_state :: "kst \<Rightarrow> u64 \<Rightarrow> nat set \<Rightarrow> bool" where
  "pt_state \<equiv> pt_state_of False"

text \<open>What a step from \<open>s\<close> to \<open>s'\<close> leaves alone: everything that is neither free nor a table.\<close>

definition keeps_rest :: "kst \<Rightarrow> u64 \<Rightarrow> nat set \<Rightarrow> kst \<Rightarrow> bool" where
  "keeps_rest s root F s' \<longleftrightarrow>
     (\<forall>a. unat a \<notin> F \<and> unat a \<notin> table_bytes (kmem s) root \<longrightarrow> kmem s' a = kmem s a) \<and>
     heap_start s' = heap_start s \<and> heap_end s' = heap_end s \<and> console s' = console s"

text \<open>
  \<open>pt_keeps root s F s' F'\<close>: from \<open>s\<close> with free bytes \<open>F\<close> to \<open>s'\<close> with free bytes \<open>F'\<close>, only free
  memory and the tables of \<open>root\<close> were written, and new tables came out of the free memory.
\<close>

definition pt_keeps :: "u64 \<Rightarrow> kst \<Rightarrow> nat set \<Rightarrow> kst \<Rightarrow> nat set \<Rightarrow> bool" where
  "pt_keeps root s F s' F' \<longleftrightarrow> F' \<subseteq> F \<and> keeps_rest s root F s' \<and>
     table_bytes (kmem s') root \<subseteq> table_bytes (kmem s) root \<union> (F - F')"

lemma pt_keeps_refl [simp]: "pt_keeps root s F s F"
  by (simp add: pt_keeps_def keeps_rest_def)

lemma pt_keeps_trans: "pt_keeps root s F s' F' \<Longrightarrow> pt_keeps root s' F' s'' F'' \<Longrightarrow> pt_keeps root s F s'' F''"
  unfolding pt_keeps_def keeps_rest_def by (auto simp: subset_iff)

text \<open>Writing an entry of a table is no concern of the allocator.\<close>

lemma store_in_table:
  assumes "pt_inv (kmem s) root F" "is_table_path p" "table_at (kmem s) root p = Some t" "unat i < 512"
  shows "alloc_inv b s F \<Longrightarrow> alloc_inv b (s\<lparr>kmem := store64 (kmem s) (slot t i) v\<rparr>) F"
    "unat a \<notin> table_bytes (kmem s) root \<Longrightarrow> store64 (kmem s) (slot t i) v a = kmem s a"
proof -
  note T = pt_invD [OF assms(1-3)]
  have in_t: "unat a \<in> page_at t" if "a \<in> span (slot t i) 8" for a by (rule slot_in_page [OF T(2) assms(4) that])
  then show "alloc_inv b s F \<Longrightarrow> alloc_inv b (s\<lparr>kmem := store64 (kmem s) (slot t i) v\<rparr>) F" using T(3) by (intro pages.store_owned) blast+
  show "store64 (kmem s) (slot t i) v a = kmem s a" if "unat a \<notin> table_bytes (kmem s) root"
    using that in_t [of a] assms(2,3) by (intro store64_other) (auto simp: table_bytes_def)
qed

lemma new_table_ok:
  assumes st: "pt_state_of b s root F" and p: "is_table_path (p @ [i])" and t: "table_at (kmem s) root p = Some t"
    and none: "entry (kmem s) t i = None" and alloc: "kalloc 1 s = Inr (pg, s1)"
  defines "s' \<equiv> s1\<lparr>kmem := store64 (kmem s1) (slot t i) (pte_branch pg)\<rparr>"
  shows "pt_state_of b s' root (F - page_at pg)" "table_at (kmem s') root (p @ [i]) = Some pg" "pte_next (pte_branch pg) = pg"
    "translation (kmem s') root = translation (kmem s) root" "pt_keeps root s F s' (F - page_at pg)"
    "tables (kmem s') root = insert (p @ [i]) (tables (kmem s) root)" "p @ [i] \<notin> tables (kmem s) root" "card F = card (F - page_at pg) + 4096"
proof -
  have S: "alloc_inv b s F" "pt_inv (kmem s) root F" "F \<subseteq> {..< 2 ^ 46}" using st by (simp_all add: pt_state_of_def)
  have p': "is_table_path p" "unat i < 512" using p by (simp_all add: table_path_snoc)
  note A = pages.alloc_page [OF S(1) alloc]
  have pg: "pg \<noteq> 0" "4096 dvd unat pg" "unat pg < 2 ^ 46" "page_at pg \<subseteq> F" using A S(3) page_ne [of pg] by blast+
  have zero: "\<forall>a. unat a \<in> page_at pg \<longrightarrow> kmem s1 a = 0" using pages.alloc_zero [OF S(1) alloc] by blast
  have old: "kmem s1 a = kmem s a" if "unat a \<notin> F" for a by (rule pages.alloc_keeps [OF S(1) alloc that])
  then have tabs: "kmem s1 a = kmem s a" if "unat a \<in> table_bytes (kmem s) root" for a
    using that table_bytes_not_free [OF S(2)] by blast
  have C: "table_at (kmem s1) root q = table_at (kmem s) root q" if "is_table_path q" for q using table_at_cong [OF S(2) tabs that] .
  have inv1: "pt_inv (kmem s1) root F" using pt_inv_cong [OF S(2) tabs] by blast
  have t1: "table_at (kmem s1) root p = Some t" using C [OF p'(1)] t by simp
  note T = pt_invD [OF S(2) p'(1) t]
  have none1: "entry (kmem s1) t i = None" using none T(3) old entry_cong [OF T(2) p'(2), of "kmem s1" "kmem s"] by auto
  note I = install_table_inv [OF inv1 p t1 none1 pg zero] install_table(2) [OF inv1 p t1 none1 pg zero]
    install_table_translation [OF inv1 p t1 none1 pg zero]
  have bytes: "table_bytes (kmem s1) root = table_bytes (kmem s) root" using C by (auto simp: table_bytes_def)
  have inv2: "pt_inv (kmem s1) root (F - page_at pg)" by (rule pt_inv_cong [OF inv1]) auto
  show "pt_state_of b s' root (F - page_at pg)"
    using store_in_table(1) [OF inv2 p'(1) t1 p'(2)] A I(1) S(3) by (auto simp: pt_state_of_def s'_def)
  show "table_at (kmem s') root (p @ [i]) = Some pg" "pte_next (pte_branch pg) = pg"
    using I(3) p pte_next_branch [OF pg(2,3)] by (simp_all add: s'_def)
  show "translation (kmem s') root = translation (kmem s) root" using I(4) translation_cong [OF S(2) tabs] by (simp add: s'_def)
  show "pt_keeps root s F s' (F - page_at pg)"
    using store_in_table(2) [OF inv1 p'(1) t1 p'(2)] A old I(2) bytes pg(4) pages_alloc_frame [OF S(1) alloc]
    by (auto simp: pt_keeps_def keeps_rest_def s'_def)
  show "tables (kmem s') root = insert (p @ [i]) (tables (kmem s) root)"
    using I(3) C p by (auto simp: tables_def s'_def split: if_splits)
  show "p @ [i] \<notin> tables (kmem s) root" using none t by (simp add: tables_def table_at_snoc)
  show "card F = card (F - page_at pg) + 4096" using pages.alloc_card [OF S(1) alloc] finite_subset [OF S(3)] by simp
qed

lemma next_table_ok:
  assumes st: "pt_state_of b s root F" and p: "is_table_path (p @ [i])" and t: "table_at (kmem s) root p = Some t"
    and r: "next_table t i s = Inr (u, s')"
  shows "\<exists>F'. pt_state_of b s' root F' \<and> table_at (kmem s') root (p @ [i]) = Some u \<and>
    translation (kmem s') root = translation (kmem s) root \<and> pt_keeps root s F s' F' \<and>
    tables (kmem s') root = insert (p @ [i]) (tables (kmem s) root) \<and>
    card F = card F' + (if p @ [i] \<in> tables (kmem s) root then 0 else 4096)"
proof (cases "entry (kmem s) t i")
  case (Some e)
  then have "u = pte_next e" "s' = s" using r by (auto simp: next_table_def entry_def Let_def split: if_splits)
  with Some t st p show ?thesis by (intro exI [of _ F]) (auto simp: table_at_snoc tables_def)
next
  case None
  then have "load64 (kmem s) (slot t i) AND PAGE_V = 0" by (simp add: entry_def Let_def split: if_splits)
  then obtain pg s1 where alloc: "kalloc 1 s = Inr (pg, s1)"
    and s': "s' = s1\<lparr>kmem := store64 (kmem s1) (slot t i) (pte_branch pg)\<rparr>" and u: "u = pte_next (load64 (kmem s') (slot t i))"
    using r by (auto simp: next_table_def bind_res_Inr_iff)
  note N = new_table_ok [OF st p t None alloc, folded s']
  have "u = pg" using N(3) by (simp add: u s' load64_store64_same)
  then show ?thesis using N by (intro exI [of _ "F - page_at pg"]) simp
qed

text \<open>A level fails only when a table is missing and no page is free.\<close>

lemma next_table_total:
  assumes st: "pt_state_of b s root F" and p: "is_table_path (p @ [i])" and t: "table_at (kmem s) root p = Some t"
    and "p @ [i] \<in> tables (kmem s) root \<or> 0 < card F"
  shows "\<exists>u s'. next_table t i s = Inr (u, s')"
proof (cases "p @ [i] \<in> tables (kmem s) root")
  case True
  then have "entry (kmem s) t i \<noteq> None" using t by (auto simp: tables_def table_at_snoc)
  then show ?thesis by (auto simp: next_table_def entry_def Let_def split: if_splits)
next
  case False
  have inv: "alloc_inv b s F" using st by (simp add: pt_state_of_def)
  have "0 < card F" using assms(4) False by simp
  then obtain pg s1 where "kalloc 1 s = Inr (pg, s1)" using pages.alloc_enough [OF inv] by metis
  then show ?thesis by (auto simp: next_table_def)
qed

lemma path_of_vpns: "is_table_path [vpn2 v]" "is_table_path [vpn2 v, vpn1 v]"
  by (simp_all add: is_table_path_def vpn_less)

text \<open>The tables a mapping needs below the root.\<close>

definition walk_tables :: "u64 \<Rightarrow> u64 list set" where
  "walk_tables va = {[vpn2 va], [vpn2 va, vpn1 va]}"

lemma card_walk_tables:
  "card (walk_tables va - T) = (if [vpn2 va] \<in> T then 0 else 1) + (if [vpn2 va, vpn1 va] \<in> T then 0 else 1)"
proof -
  have "walk_tables va - T = (if [vpn2 va] \<in> T then {} else {[vpn2 va]}) \<union> (if [vpn2 va, vpn1 va] \<in> T then {} else {[vpn2 va, vpn1 va]})"
    by (auto simp: walk_tables_def)
  then show ?thesis by (simp add: card_Un_disjoint)
qed

text \<open>The last step: a leaf is written.\<close>

lemma write_leaf_ok:
  assumes st: "pt_state_of b s root F" and p: "is_table_path [i, j]" and t: "table_at (kmem s) root [i, j] = Some t"
    and l: "unat l < 512" and v: "v AND PAGE_V \<noteq> 0"
  defines "s' \<equiv> s\<lparr>kmem := store64 (kmem s) (slot t l) v\<rparr>"
  shows "pt_state_of b s' root F" "pt_keeps root s F s' F" "tables (kmem s') root = tables (kmem s) root"
    "translation (kmem s') root = (translation (kmem s) root)((i, j, l) \<mapsto> v)"
proof -
  have S: "alloc_inv b s F" "pt_inv (kmem s) root F" "F \<subseteq> {..< 2 ^ 46}" using st by (simp_all add: pt_state_of_def)
  note L = store_leaf [OF S(2) p t l v] and T = store_in_table [OF S(2) p t l]
  show "pt_state_of b s' root F" using T(1) [OF S(1)] L(1) S(3) by (simp add: pt_state_of_def s'_def)
  show "pt_keeps root s F s' F" using T(2) L(3) by (simp add: pt_keeps_def keeps_rest_def s'_def)
  show "tables (kmem s') root = tables (kmem s) root"
    "translation (kmem s') root = (translation (kmem s) root)((i, j, l) \<mapsto> v)" using L(2,4) by (simp_all add: s'_def)
qed

text \<open>\<open>map_page\<close> is one update of the translation.\<close>

lemma map_page_ok:
  assumes st: "pt_state_of b s root F" and r: "map_page root va pa flags s = Inr s'"
  shows "\<exists>F'. F' \<subseteq> F \<and> pt_state_of b s' root F' \<and>
    translation (kmem s') root = (translation (kmem s) root)(vpns va \<mapsto> pte_leaf pa flags) \<and>
    keeps_rest s root F s' \<and> table_bytes (kmem s') root \<subseteq> table_bytes (kmem s) root \<union> (F - F') \<and>
    tables (kmem s') root = tables (kmem s) root \<union> walk_tables va \<and>
    card F = card F' + 4096 * card (walk_tables va - tables (kmem s) root)"
proof -
  from r obtain t1 s1 t0 s2 where n1: "next_table root (vpn2 va) s = Inr (t1, s1)"
    and n0: "next_table t1 (vpn1 va) s1 = Inr (t0, s2)"
    and s': "s' = s2\<lparr>kmem := store64 (kmem s2) (slot t0 (vpn0 va)) (pte_leaf pa flags)\<rparr>"
    by (auto simp: map_page_def bind_res_Inr_iff split: if_splits)
  from next_table_ok [OF st, of "[]" "vpn2 va" root] n1 path_of_vpns(1)
  obtain F1 where F1: "pt_state_of b s1 root F1" "table_at (kmem s1) root [vpn2 va] = Some t1"
    "translation (kmem s1) root = translation (kmem s) root" "pt_keeps root s F s1 F1"
    "tables (kmem s1) root = insert [vpn2 va] (tables (kmem s) root)"
    "card F = card F1 + (if [vpn2 va] \<in> tables (kmem s) root then 0 else 4096)"
    by (auto simp del: table_at.simps(2))
  from next_table_ok [OF F1(1), of "[vpn2 va]" "vpn1 va" t1] n0 path_of_vpns(2) F1(2)
  obtain F2 where F2: "pt_state_of b s2 root F2" "table_at (kmem s2) root [vpn2 va, vpn1 va] = Some t0"
    "translation (kmem s2) root = translation (kmem s1) root" "pt_keeps root s1 F1 s2 F2"
    "tables (kmem s2) root = insert [vpn2 va, vpn1 va] (tables (kmem s1) root)"
    "card F1 = card F2 + (if [vpn2 va, vpn1 va] \<in> tables (kmem s1) root then 0 else 4096)"
    by (auto simp del: table_at.simps(2))
  note L = write_leaf_ok [OF F2(1) path_of_vpns(2) F2(2) vpn_less(3) pte_branch_valid(2), of va pa flags, folded s']
  have "pt_keeps root s F s' F2" by (rule pt_keeps_trans [OF pt_keeps_trans [OF F1(4) F2(4)] L(2)])
  moreover have "card F = card F2 + 4096 * card (walk_tables va - tables (kmem s) root)"
    using F1(5,6) F2(6) by (auto simp: card_walk_tables)
  ultimately show ?thesis using L(1,3,4) F1(3,5) F2(3,5)
    by (intro exI [of _ F2]) (auto simp: pt_keeps_def walk_tables_def vpns_def)
qed

lemma map_page_total:
  assumes st: "pt_state_of b s root F" and enough: "4096 * card (walk_tables va - tables (kmem s) root) \<le> card F"
    and "4096 dvd unat va" "4096 dvd unat pa" "flags AND 0xe \<noteq> 0"
  shows "\<exists>s'. map_page root va pa flags s = Inr s'"
proof -
  have "table_at (kmem s) root [] = Some root" by simp
  from next_table_total [OF st _ this, of "vpn2 va"] enough path_of_vpns(1)
  obtain t1 s1 where n1: "next_table root (vpn2 va) s = Inr (t1, s1)"
    by (fastforce simp: card_walk_tables split: if_splits)
  from next_table_ok [OF st, of "[]" "vpn2 va" root] n1 path_of_vpns(1)
  obtain F1 where F1: "pt_state_of b s1 root F1" "table_at (kmem s1) root [vpn2 va] = Some t1"
    "tables (kmem s1) root = insert [vpn2 va] (tables (kmem s) root)"
    "card F = card F1 + (if [vpn2 va] \<in> tables (kmem s) root then 0 else 4096)"
    by (auto simp del: table_at.simps(2))
  have "[vpn2 va] @ [vpn1 va] \<in> tables (kmem s1) root \<or> 0 < card F1"
    using enough F1(3,4) by (auto simp: card_walk_tables split: if_splits)
  from next_table_total [OF F1(1) _ F1(2) this] path_of_vpns(2)
  obtain t0 s2 where "next_table t1 (vpn1 va) s1 = Inr (t0, s2)" by fastforce
  with n1 assms(3-5) show ?thesis by (simp add: map_page_def is_aligned_page_iff)
qed

text \<open>\<open>vaddr_to_paddr\<close> is a lookup in the translation.\<close>

lemma vaddr_to_paddr_eq:
  "vaddr_to_paddr m root va =
     (case translation m root (vpns va) of None \<Rightarrow> 0
      | Some pte \<Rightarrow> pte_frame pte OR (va AND (PAGE_SIZE - 1)))"
  by (simp add: vaddr_to_paddr_def translation_def vpns_def leaf_at_def entry_def vpn_less pte_frame_def Let_def)

section \<open>Page tables as a mapper\<close>

text \<open>A mapping as one argument: virtual address, physical address, flags.\<close>

type_synonym mapping = "u64 \<times> u64 \<times> u32"

definition map_one :: "u64 \<Rightarrow> mapping \<Rightarrow> kst \<Rightarrow> kst res" where
  "map_one root x s = (case x of (va, pa, flags) \<Rightarrow> map_page root va pa flags s)"

definition mapping_key :: "mapping \<Rightarrow> u64 \<times> u64 \<times> u64" where
  "mapping_key x = (case x of (va, pa, flags) \<Rightarrow> vpns va)"

definition mapping_pte :: "mapping \<Rightarrow> u64" where
  "mapping_pte x = (case x of (va, pa, flags) \<Rightarrow> pte_leaf pa flags)"

definition mapping_good :: "mapping \<Rightarrow> bool" where
  "mapping_good x = (case x of (va, pa, flags) \<Rightarrow> 4096 dvd unat va \<and> 4096 dvd unat pa \<and> flags AND 0xe \<noteq> 0)"

definition mapping_need :: "mapping \<Rightarrow> u64 list set" where
  "mapping_need x = (case x of (va, pa, flags) \<Rightarrow> walk_tables va)"

interpretation pt: mapper "map_one root" mapping_key mapping_pte mapping_good 4096
  "\<lambda>s. tables (kmem s) root" mapping_need
  "\<lambda>s F. pt_state_of b s root F" "\<lambda>s. translation (kmem s) root" "pt_keeps root" for b root
proof
  fix s F x s' assume st: "pt_state_of b s root F" and r: "map_one root x s = Inr s'"
  obtain va pa flags where x: "x = (va, pa, flags)" by (cases x)
  show "\<exists>F'. pt_state_of b s' root F' \<and>
      translation (kmem s') root = (translation (kmem s) root)(mapping_key x \<mapsto> mapping_pte x) \<and>
      pt_keeps root s F s' F' \<and> tables (kmem s') root = tables (kmem s) root \<union> mapping_need x \<and>
      card F = card F' + 4096 * card (mapping_need x - tables (kmem s) root)"
    using map_page_ok [OF st, of va pa flags s'] r
    unfolding x map_one_def mapping_key_def mapping_pte_def pt_keeps_def mapping_need_def by auto
next
  fix s F x assume "pt_state_of b s root F" "mapping_good x" "4096 * card (mapping_need x - tables (kmem s) root) \<le> card F"
  then show "\<exists>s'. map_one root x s = Inr s'"
    using map_page_total [of b s root F] by (auto simp: mapping_good_def map_one_def mapping_need_def)
next
  fix x show "finite (mapping_need x)" by (cases x) (simp add: mapping_need_def walk_tables_def)
qed (auto simp: pt_keeps_def keeps_rest_def intro: pt_keeps_trans [unfolded pt_keeps_def keeps_rest_def])

text \<open>A cleared page from the allocator is a root that maps nothing.\<close>

lemma fresh_root:
  assumes inv: "alloc_inv b s F" "F \<subseteq> {..< 2 ^ 46}" and alloc: "kalloc 1 s = Inr (p, s')"
  shows "pt_state_of b s' p (F - page_at p)" "translation (kmem s') p = Map.empty" "table_bytes (kmem s') p = page_at p"
    "tables (kmem s') p = {[]}"
proof -
  note A = pages.alloc_page [OF inv(1) alloc]
  have empty: "entry (kmem s') p i = None" if "unat i < 512" for i
    using empty_page [of p "kmem s'" i] A that pages.alloc_zero [OF inv(1) alloc] by blast
  have tab: "table_at (kmem s') p q = (if q = [] then Some p else None)" if "is_table_path q" for q
    using that empty by (cases q) (simp_all add: is_table_path_def)
  then have "pt_inv (kmem s') p (F - page_at p)"
    using A by (auto simp: pt_inv_def split: if_splits)
  then show "pt_state_of b s' p (F - page_at p)" using A inv(2) by (auto simp: pt_state_of_def)
  show "table_bytes (kmem s') p = page_at p"
    using tab by (auto simp: table_bytes_def split: if_splits) (metis table_path_Nil tab)
  show "tables (kmem s') p = {[]}" using tab by (auto simp: tables_def split: if_splits)
  show "translation (kmem s') p = Map.empty"
    using empty by (auto simp: fun_eq_iff translation_def leaf_at_def)
qed

lemmas fresh_root_plain = fresh_root [where b = False, unfolded alloc_inv_False]

end
