(* ===== verification/Memory_Props.thy ===== *)
theory Memory_Props
  imports Paging
begin

text \<open>
  The properties of the page allocator and of the page tables, each with an instance on the small
  heap of the allocator's theory. \<open>buddy_inv s F\<close> reads: the free lists are well formed and
  \<open>F\<close> is the set of the addresses of the free bytes.
\<close>

section \<open>The allocator\<close>

text \<open>
  (C14) \<open>init_memory\<close> hands every whole page of the heap to the allocator, and nothing else: from
  empty free lists it reaches a well-formed state whose free bytes are exactly those pages, prints
  their number, and writes to no byte outside them.
\<close>

theorem init_memory_frees_heap:
  assumes "free_lists s = replicate 11 0" "heap_start s \<noteq> 0" "4096 dvd unat (heap_start s)"
    and "unat (heap_start s) \<le> unat (heap_end s)" "(unat (heap_end s) - unat (heap_start s)) div 4096 < 2 ^ 31"
  shows "\<exists>s'. init_memory s = Inr s' \<and>
    buddy_inv s' {unat (heap_start s) ..< unat (heap_start s) + 4096 * ((unat (heap_end s) - unat (heap_start s)) div 4096)} \<and>
    console s' = console s @ bytes_of ''klibc: Pages available: '' @
      numeral_of 10 ((unat (heap_end s) - unat (heap_start s)) div 4096) @ [13, 10] \<and>
    (\<forall>a. unat a < unat (heap_start s) \<or> unat (heap_end s) \<le> unat a \<longrightarrow> kmem s' a = kmem s a)"
proof -
  let ?n = "(unat (heap_end s) - unat (heap_start s)) div 4096"
  have "4096 * ?n \<le> unat (heap_end s) - unat (heap_start s)" by simp
  then have "unat (heap_start s) + 4096 * ?n \<le> unat (heap_end s)" using assms(4) by linarith
  then show ?thesis using init_memory_ok [OF assms] alloc_inv_buddy by fastforce
qed

theorem init_memory_frees_heap_witness:
  "\<exists>s'. init_memory small_heap = Inr s' \<and> buddy_inv s' small_free"
  using init_memory_frees_heap [of small_heap] by (auto simp: small_heap_def small_free_def)



text \<open>
  Two pages that are allocated one after the other never share a byte.
\<close>

theorem kalloc_pages_disjoint:
  assumes "buddy_inv s F" "kalloc 1 s = Inr (p, s')" "kalloc 1 s' = Inr (q, s'')"
  shows "page_at p \<inter> page_at q = {}"
  by (rule blocks.alloc_twice_disjoint [OF assms])

theorem kalloc_pages_disjoint_witness:
  "\<exists>s p s' q s''. init_memory small_heap = Inr s \<and> kalloc 1 s = Inr (p, s') \<and> kalloc 1 s' = Inr (q, s'') \<and> p \<noteq> q"
proof -
  obtain s where s: "init_memory small_heap = Inr s" "buddy_inv s small_free" using small_heap_init by metis
  have fin: "finite small_free" "card small_free = 262144" by (simp_all add: small_free_def)
  obtain p s' where p: "kalloc 1 s = Inr (p, s')" using blocks.alloc_enough [OF s(2)] fin by (metis zero_less_numeral)
  have "0 < card (small_free - page_at p)" using blocks.alloc_card [OF s(2) p fin(1)] fin(2) by simp
  then obtain q s'' where q: "kalloc 1 s' = Inr (q, s'')"
    using blocks.alloc_enough blocks.alloc_page [OF s(2) p] by metis
  have "p \<noteq> q" using kalloc_pages_disjoint [OF s(2) p q] page_ne [of p] by auto
  then show ?thesis using s(1) p q by blast
qed

text \<open>
  (C13) Freeing what was allocated gives the memory back: after \<open>kalloc(n)\<close> and \<open>kfree_size\<close> of the
  same number of pages the free bytes are what they were, whatever merging the free did, and the
  free list searches of \<open>kfree_order\<close> all end.
\<close>

theorem kfree_undoes_kalloc:
  assumes "buddy_inv s F" "0 < unat n" "unat n \<le> 1024" "kalloc n s = Inr (p, s')"
  shows "\<exists>s''. kfree_size p (4096 * n) s' = Some s'' \<and> buddy_inv s'' F \<and>
    (\<forall>a. unat a \<notin> F \<longrightarrow> kmem s'' a = kmem s a)"
proof -
  let ?k = "order_for_pages n"
  have K: "in_heap s p ?k" "blk p ?k \<subseteq> F" "buddy_inv s' (F - blk p ?k)" "heap_start s' = heap_start s" "heap_end s' = heap_end s"
    "\<And>a. unat a \<notin> F \<Longrightarrow> kmem s' a = kmem s a"
    using kalloc_cases [OF assms(1-3)] assms(4) by auto
  have "unat (4096 * n + PAGE_SIZE - 1) = 4096 * unat n + 4095"
  proof -
    have eq: "4096 * n + PAGE_SIZE - 1 = of_nat (4096 * unat n + 4095)" by (simp add: PAGE_SIZE_def)
    show ?thesis unfolding eq using assms(3) by (intro unat_of_nat_64) simp
  qed
  then have "unat ((4096 * n + PAGE_SIZE - 1) div PAGE_SIZE) = unat n" by (simp add: PAGE_SIZE_def unat_div)
  then have pages: "(4096 * n + PAGE_SIZE - 1) div PAGE_SIZE = n" by (simp only: word_unat_eq_iff)
  have heap: "in_heap s' p ?k" using K(1,4,5) by (simp add: in_heap_def)
  have "?k \<le> 10" using order_for_pages_fits(1) [OF assms(3)] .
  from kfree_order_inv [OF K(3) heap this] obtain s'' where
    "kfree_order p ?k s' = Some s''" "buddy_inv s'' (F - blk p ?k \<union> blk p ?k)"
    "\<forall>a. unat a \<notin> F - blk p ?k \<union> blk p ?k \<longrightarrow> kmem s'' a = kmem s' a" by blast
  moreover have eq: "F - blk p ?k \<union> blk p ?k = F" using K(2) by blast
  ultimately show ?thesis using K(6) unfolding eq kfree_size_def pages by metis
qed

theorem kfree_undoes_kalloc_witness:
  "\<exists>s p s' s''. init_memory small_heap = Inr s \<and> kalloc 1 s = Inr (p, s') \<and> kfree_size p (4096 * 1) s' = Some s'' \<and>
     buddy_inv s'' small_free"
proof -
  obtain s where s: "init_memory small_heap = Inr s" "buddy_inv s small_free" using small_heap_init by metis
  have "0 < card small_free" by (simp add: small_free_def)
  then obtain p s' where p: "kalloc 1 s = Inr (p, s')" using blocks.alloc_enough [OF s(2)] by metis
  then show ?thesis using kfree_undoes_kalloc [OF s(2) _ _ p] s(1) by auto
qed

text \<open>
  \<open>order_for_pages\<close> finds the smallest order whose blocks hold the request, and answers 11,
  an order that has no list, exactly when the request is larger than the largest block.
\<close>

theorem order_for_pages_smallest:
  "order_for_pages n = (if unat n \<le> 1024 then (LEAST k. unat n \<le> 2 ^ k) else 11)"
proof (cases "unat n \<le> 1024")
  case True
  have least: "order_for_pages n \<le> k" if "unat n \<le> 2 ^ k" for k
  proof (rule ccontr)
    assume "\<not> order_for_pages n \<le> k"
    then have "2 ^ (order_for_pages n - 1) < unat n" "k \<le> order_for_pages n - 1"
      using order_for_pages_spec(3) [of n] by auto
    then have "(2 :: nat) ^ k < unat n" by (meson one_le_numeral le_less_trans power_increasing)
    then show False using that by simp
  qed
  then show ?thesis
    using True Least_equality [of "\<lambda>k. unat n \<le> 2 ^ k", OF order_for_pages_fits(2) [OF True]] by simp
next
  case False
  have "\<not> order_for_pages n \<le> 10"
  proof
    assume k: "order_for_pages n \<le> 10"
    then have "unat n \<le> 2 ^ order_for_pages n" using order_for_pages_spec(2) [of n] by auto
    also have "(2 :: nat) ^ order_for_pages n \<le> 2 ^ 10" using k by (intro power_increasing) auto
    finally show False using False by simp
  qed
  then show ?thesis using False order_for_pages_spec(1) [of n] by simp
qed

text \<open>
  The kernel never frees memory. \<open>heap_use s F\<close>: state \<open>s\<close>, with the bytes \<open>F\<close> free, has come from \<open>init_memory\<close> by
  calls of \<open>kalloc\<close> and writes to memory that is not free.
\<close>

inductive heap_use :: "kst \<Rightarrow> nat set \<Rightarrow> bool" where
  handed_over: "free_lists s0 = replicate 11 0 \<Longrightarrow> heap_start s0 \<noteq> 0 \<Longrightarrow> 4096 dvd unat (heap_start s0) \<Longrightarrow>
    unat (heap_start s0) \<le> unat (heap_end s0) \<Longrightarrow> n = (unat (heap_end s0) - unat (heap_start s0)) div 4096 \<Longrightarrow> n < 2 ^ 31 \<Longrightarrow>
    init_memory s0 = Inr s \<Longrightarrow> heap_use s {unat (heap_start s0) ..< unat (heap_start s0) + 4096 * n}"
| allocated: "heap_use s F \<Longrightarrow> 0 < unat n \<Longrightarrow> unat n \<le> 1024 \<Longrightarrow> kalloc n s = Inr (p, s') \<Longrightarrow>
    heap_use s' (F - {unat p ..< unat p + 4096 * 2 ^ order_for_pages n})"
| written: "heap_use s F \<Longrightarrow> (\<And>a. unat a \<in> F \<Longrightarrow> m a = kmem s a) \<Longrightarrow> heap_use (s\<lparr>kmem := m\<rparr>) F"

lemma heap_use_thin: "heap_use s F \<Longrightarrow> alloc_inv True s F"
proof (induction rule: heap_use.induct)
  case (handed_over s0 n s)
  then show ?case using init_memory_ok [of s0] by auto
next
  case (allocated s F n p s')
  then show ?case using kalloc_inv_cases [OF allocated.IH allocated.hyps(2,3)] by (auto simp: blk_def)
next
  case (written s F m)
  then show ?case by (intro alloc_inv_frame)
qed

text \<open>
  (C15) Without frees there is no fragmentation. In every such state \<open>kalloc(n)\<close>, for 1 to 1024 pages, finds a block
  exactly when as many bytes are free as the block of its order has, wherever they are; otherwise it faults.
\<close>

theorem kalloc_never_fragments:
  assumes "heap_use s F" "0 < unat n" "unat n \<le> 1024"
  shows "if 4096 * 2 ^ order_for_pages n \<le> card F then \<exists>p s'. kalloc n s = Inr (p, s') \<and> heap_use s' (F - {unat p ..< unat p + 4096 * 2 ^ order_for_pages n})
    else kalloc n s = Inl NullAccess"
proof -
  note iff = kalloc_thin_iff [OF heap_use_thin [OF assms(1)] assms(2,3)] and cases = kalloc_inv_cases [OF heap_use_thin [OF assms(1)] assms(2,3)]
  show ?thesis
  proof (cases "4096 * 2 ^ order_for_pages n \<le> card F")
    case True
    then obtain p s' where "kalloc n s = Inr (p, s')" using iff by blast
    then show ?thesis using True heap_use.allocated [OF assms(1-3)] by auto
  next
    case False
    then have "kalloc n s = Inl NullAccess" using iff cases by blast
    then show ?thesis using False by simp
  qed
qed

text \<open>After a single page of the 64 has gone, a block of 32 pages is still there.\<close>

theorem kalloc_never_fragments_witness:
  "\<exists>s p s' q s''. init_memory small_heap = Inr s \<and> kalloc 1 s = Inr (p, s') \<and> kalloc 32 s' = Inr (q, s'')"
proof -
  obtain s where s: "init_memory small_heap = Inr s" "buddy_inv s small_free" using small_heap_init by metis
  have "heap_use s {unat (heap_start small_heap) ..< unat (heap_start small_heap) + 4096 * 64}"
    by (rule handed_over [OF _ _ _ _ _ _ s(1)]) (simp_all add: small_heap_def)
  then have use: "heap_use s small_free" by (simp add: small_heap_def small_free_def)
  have c: "finite small_free" "card small_free = 262144" by (simp_all add: small_free_def)
  obtain p s' where p: "kalloc 1 s = Inr (p, s')" using blocks.alloc_enough [OF s(2)] c(2) by (metis zero_less_numeral)
  have use': "heap_use s' (small_free - page_at p)" using allocated [OF use _ _ p] by (simp add: order_for_one page_at_def)
  have "order_for_pages 32 = 5" by (simp add: order_for_pages_def order_loop.simps MAX_ORDER_def)
  then have size: "4096 * 2 ^ order_for_pages 32 = (131072 :: nat)" by simp
  have "131072 \<le> card (small_free - page_at p)" using blocks.alloc_card [OF s(2) p c(1)] c(2) by simp
  then have "\<exists>q s''. kalloc 32 s' = Inr (q, s'') \<and> heap_use s'' (small_free - page_at p - {unat q ..< unat q + 131072})"
    using kalloc_never_fragments [OF use', of 32, unfolded size] by simp
  then show ?thesis using s(1) p by blast
qed

section \<open>Page tables\<close>

text \<open>
  (C16) Refinement: on a well-formed table tree \<open>map_page\<close> is one update of the translation that the
  tree denotes. It keeps the tree and the allocator well formed, takes from the free memory one page
  for each of the (at most two) tables that are missing on the way to the leaf, and writes only free memory
  and the tree's own tables. All other mappings are unchanged.
\<close>

theorem map_page_updates_translation:
  assumes "pt_state s root F" "map_page root va pa flags s = Inr s'"
  shows "\<exists>F'. F' \<subseteq> F \<and> pt_state s' root F' \<and>
    translation (kmem s') root = (translation (kmem s) root)(vpns va \<mapsto> pte_leaf pa flags) \<and>
    card F = card F' + 4096 * card ({[vpn2 va], [vpn2 va, vpn1 va]} - tables (kmem s) root) \<and>
    (\<forall>a. unat a \<notin> F \<and> unat a \<notin> table_bytes (kmem s) root \<longrightarrow> kmem s' a = kmem s a)"
  using map_page_ok [OF assms] unfolding keeps_rest_def walk_tables_def by blast

text \<open>A root and one mapping on the small heap.\<close>

lemma small_root:
  obtains s root where "pt_state s root (small_free - page_at root)" "translation (kmem s) root = Map.empty"
    "tables (kmem s) root = {[]}" "page_at root \<subseteq> small_free"
proof -
  obtain k where k: "buddy_inv k small_free" using small_heap_init by metis
  have "0 < card small_free" by (simp add: small_free_def)
  then obtain root s where a: "kalloc 1 k = Inr (root, s)" using blocks.alloc_enough [OF k] by metis
  have "small_free \<subseteq> {..< 2 ^ 46}" by (auto simp: small_free_def)
  from fresh_root_plain [OF k this a] show thesis using that blocks.alloc_page [OF k a] by blast
qed

lemma small_root_free: "page_at root \<subseteq> small_free \<Longrightarrow> 4096 * card (walk_tables va - T) \<le> card (small_free - page_at root)"
proof -
  assume "page_at root \<subseteq> small_free"
  then have "card (small_free - page_at root) = 262144 - 4096"
    by (simp add: card_Diff_subset) (simp add: small_free_def)
  then show ?thesis by (simp add: card_walk_tables)
qed

theorem map_page_updates_translation_witness:
  "\<exists>s root s'. map_page root 0x1000000 0x80301000 PAGE_R s = Inr s' \<and>
     translation (kmem s') root = [vpns 0x1000000 \<mapsto> pte_leaf 0x80301000 PAGE_R]"
proof -
  obtain s root where s: "pt_state s root (small_free - page_at root)" "translation (kmem s) root = Map.empty" "page_at root \<subseteq> small_free"
    using small_root by metis
  obtain s' where m: "map_page root 0x1000000 0x80301000 PAGE_R s = Inr s'"
    using map_page_total [OF s(1) small_root_free [OF s(3)], of "0x1000000" "0x80301000" PAGE_R] by (auto simp: PAGE_R_def)
  then show ?thesis using map_page_updates_translation [OF s(1) m] s(2) by auto
qed

text \<open>
  (C17) Round trip: after \<open>map_page\<close> of a page below \<open>2 ^ 46\<close>, \<open>vaddr_to_paddr\<close> gives for every
  address in the virtual page the address at the same offset in the frame, and for every address in
  another page what it gave before.
\<close>

theorem map_page_then_walk:
  assumes "pt_state s root F" "map_page root va pa flags s = Inr s'" "unat pa < 2 ^ 46" "unat flags < 1024"
  shows "vaddr_to_paddr (kmem s') root a =
    (if vpns a = vpns va then pa OR (a AND 0xfff) else vaddr_to_paddr (kmem s) root a)"
proof -
  have t: "translation (kmem s') root = (translation (kmem s) root)(vpns va \<mapsto> pte_leaf pa flags)"
    using map_page_ok [OF assms(1,2)] by blast
  have "4096 dvd unat pa" using assms(2) by (auto simp: map_page_def is_aligned_page_iff split: if_splits)
  then have f: "pte_frame (pte_leaf pa flags) = pa" by (rule pte_frame_exact [OF _ assms(3,4)])
  then show ?thesis by (simp add: vaddr_to_paddr_eq t PAGE_SIZE_def)
qed

theorem map_page_then_walk_witness:
  "\<exists>s root s'. map_page root 0x1000000 0x80301000 PAGE_R s = Inr s' \<and>
     vaddr_to_paddr (kmem s') root 0x1000234 = 0x80301234"
proof -
  obtain s root where s: "pt_state s root (small_free - page_at root)" "translation (kmem s) root = Map.empty" "page_at root \<subseteq> small_free"
    using small_root by metis
  obtain s' where m: "map_page root 0x1000000 0x80301000 PAGE_R s = Inr s'"
    using map_page_total [OF s(1) small_root_free [OF s(3)], of "0x1000000" "0x80301000" PAGE_R] by (auto simp: PAGE_R_def)
  have "vpns 0x1000234 = vpns 0x1000000" by (simp add: vpns_def vpn2_def vpn1_def vpn0_def VPN_MASK_def)
  then have "vaddr_to_paddr (kmem s') root 0x1000234 = 0x80301000 OR (0x1000234 AND 0xfff)"
    using map_page_then_walk [OF s(1) m, of "0x1000234"] by (simp add: PAGE_R_def)
  then show ?thesis using m by auto
qed



text \<open>
  The page number mask is applied after the shift, so a leaf keeps only bits 12 to 45 of a
  physical address: of a page at or above \<open>2 ^ 46\<close> the walk returns the address truncated.
\<close>

theorem map_page_truncates_frames:
  assumes "pt_state s root F" "map_page root va pa flags s = Inr s'" "unat flags < 1024"
  shows "vaddr_to_paddr (kmem s') root va = pa AND mask 46"
proof -
  have t: "translation (kmem s') root = (translation (kmem s) root)(vpns va \<mapsto> pte_leaf pa flags)"
    using map_page_ok [OF assms(1,2)] by blast
  have al: "4096 dvd unat va" "4096 dvd unat pa"
    using assms(2) by (auto simp: map_page_def is_aligned_page_iff split: if_splits)
  have "PAGE_SIZE - 1 = mask 12" by (simp add: PAGE_SIZE_def mask_eq_exp_minus_1)
  then have "va AND (PAGE_SIZE - 1) = 0"
    by (intro bit_word_eqI) (auto simp: bit_simps dest: aligned_bits [OF al(1)])
  moreover have "pte_frame (pte_leaf pa flags) = pa AND mask 46"
    unfolding pte_frame_leaf [OF assms(3)] by (intro bit_word_eqI) (auto simp: bit_simps dest: aligned_bits [OF al(2)])
  ultimately show ?thesis by (simp add: vaddr_to_paddr_eq t)
qed

theorem map_page_truncates_frames_witness:
  "\<exists>s root s'. map_page root 0x1000000 0x400080301000 PAGE_R s = Inr s' \<and>
     vaddr_to_paddr (kmem s') root 0x1000000 = 0x80301000"
proof -
  obtain s root where s: "pt_state s root (small_free - page_at root)" "page_at root \<subseteq> small_free"
    using small_root by metis
  obtain s' where m: "map_page root 0x1000000 0x400080301000 PAGE_R s = Inr s'"
    using map_page_total [OF s(1) small_root_free [OF s(2)], of "0x1000000" "0x400080301000" PAGE_R] by (auto simp: PAGE_R_def)
  have "vaddr_to_paddr (kmem s') root 0x1000000 = 0x400080301000 AND mask 46"
    by (rule map_page_truncates_frames [OF s(1) m]) (simp add: PAGE_R_def)
  then show ?thesis using m by (auto simp: mask_eq_exp_minus_1)
qed

end
