(* ===== verification/Cpu.thy ===== *)
theory Cpu
  imports Prelude
begin

text \<open>
  The part of a RISC-V hart that the kernel's assembly touches: the general registers, the program
  counter and the supervisor registers \<open>sepc\<close>, \<open>sstatus\<close>, \<open>sscratch\<close>, \<open>stvec\<close>, \<open>satp\<close>,
  \<open>scause\<close> and \<open>stval\<close>. The sequences of \<open>sd\<close> and \<open>ld\<close> instructions of \<open>switch_context\<close> and of the
  trap handler store and load a list of registers at consecutive words; the round trip of the two
  is proved here once for any list of registers.
\<close>

datatype reg =
    RA | SP | GP | TP
  | T0 | T1 | T2 | T3 | T4 | T5 | T6
  | A0 | A1 | A2 | A3 | A4 | A5 | A6 | A7
  | S0 | S1 | S2 | S3 | S4 | S5 | S6 | S7 | S8 | S9 | S10 | S11

record cpu =
  regs :: "reg \<Rightarrow> u64"
  pc :: u64
  sepc :: u64
  sstatus :: u64
  sscratch :: u64
  stvec :: u64
  satp :: u64
  scause :: u64
  stval :: u64

text \<open>\<open>sd r, 8 * i(base)\<close> and \<open>ld r, 8 * i(base)\<close> for the registers of a list, \<open>i\<close> counting up.\<close>

fun save_regs :: "u64 \<Rightarrow> reg list \<Rightarrow> (reg \<Rightarrow> u64) \<Rightarrow> mem \<Rightarrow> mem" where
  "save_regs a [] r m = m"
| "save_regs a (x # xs) r m = save_regs (a + 8) xs r (store64 m a (r x))"

fun load_regs :: "u64 \<Rightarrow> reg list \<Rightarrow> mem \<Rightarrow> (reg \<Rightarrow> u64) \<Rightarrow> (reg \<Rightarrow> u64)" where
  "load_regs a [] m r = r"
| "load_regs a (x # xs) m r = load_regs (a + 8) xs m (r(x := load64 m a))"

lemma in_span_add:
  "k + n < 2 ^ 64 \<Longrightarrow> x \<in> span a (k + n) \<longleftrightarrow> x \<in> span a k \<or> x \<in> span (a + of_nat k) n"
proof (induction k arbitrary: a)
  case (Suc k)
  then show ?case by (simp add: in_span_Suc add.assoc)
qed simp

lemma span_step_disjoint:
  assumes "8 + n < 2 ^ 64"
  shows "span a 8 \<inter> span (a + 8) n = {}"
proof -
  have "unat (x - a) = unat (x - (a + 8)) + 8" if "x \<in> span (a + 8) n" for x
  proof -
    have "unat (x - (a + 8)) + 8 < 2 ^ 64" using that assms by (simp add: span_def)
    then have "unat (x - (a + 8) + of_nat 8) = unat (x - (a + 8)) + 8" by (intro unat_plus_of_nat) simp
    then show ?thesis by simp
  qed
  then show ?thesis by (auto simp: span_def)
qed

lemma save_regs_other:
  "8 * length xs < 2 ^ 64 \<Longrightarrow> z \<notin> span a (8 * length xs) \<Longrightarrow> save_regs a xs r m z = m z"
proof (induction xs arbitrary: a m)
  case (Cons x xs)
  then show ?case using in_span_add [of 8 "8 * length xs" z a] by (simp add: store64_other)
qed simp

text \<open>The words of a list of saved registers.\<close>

lemma saved_word:
  "8 * length xs < 2 ^ 64 \<Longrightarrow> i < length xs \<Longrightarrow>
   (\<And>z. z \<in> span a (8 * length xs) \<Longrightarrow> m' z = save_regs a xs r m z) \<Longrightarrow>
   load64 m' (a + 8 * of_nat i) = r (xs ! i)"
proof (induction xs arbitrary: a m i)
  case (Cons x xs)
  have split: "z \<in> span a (8 * length (x # xs)) \<longleftrightarrow> z \<in> span a 8 \<or> z \<in> span (a + 8) (8 * length xs)" for z
    using in_span_add [of 8 "8 * length xs" z a] Cons.prems(1) by simp
  show ?case
  proof (cases i)
    case 0
    have "m' z = store64 m a (r x) z" if "z \<in> span a 8" for z
      using Cons.prems that split [of z] span_step_disjoint [of "8 * length xs" a] save_regs_other [of xs z "a + 8" r]
      by auto
    then have "load64 m' a = load64 (store64 m a (r x)) a" by (rule load64_cong)
    then show ?thesis using 0 by (simp add: mem_simps)
  next
    case (Suc j)
    have "load64 m' (a + 8 + 8 * of_nat j) = r (xs ! j)"
      using Cons.prems split Suc by (intro Cons.IH [of j "a + 8" "store64 m a (r x)"]) auto
    then show ?thesis using Suc by (simp add: algebra_simps)
  qed
qed simp

lemma load_regs_notin: "y \<notin> set xs \<Longrightarrow> load_regs a xs m r y = r y"
  by (induction xs arbitrary: a r) auto

lemma load_regs_nth:
  "distinct xs \<Longrightarrow> i < length xs \<Longrightarrow> load_regs a xs m r (xs ! i) = load64 m (a + 8 * of_nat i)"
proof (induction xs arbitrary: a r i)
  case (Cons x xs)
  then show ?case by (cases i) (auto simp: load_regs_notin algebra_simps)
qed simp

text \<open>
  \<open>reg_frame m a xs r\<close>: memory holds the registers \<open>xs\<close> of the register file \<open>r\<close> at \<open>a\<close>. A frame
  is made by saving, kept by everything that leaves its bytes alone, changed in one register by a
  store to its slot, and read back by loading.
\<close>

definition reg_frame :: "mem \<Rightarrow> u64 \<Rightarrow> reg list \<Rightarrow> (reg \<Rightarrow> u64) \<Rightarrow> bool" where
  "reg_frame m a xs r \<longleftrightarrow> (\<forall>i < length xs. load64 m (a + 8 * of_nat i) = r (xs ! i))"

lemma reg_frame_saved: "8 * length xs < 2 ^ 64 \<Longrightarrow> reg_frame (save_regs a xs r m) a xs r"
  using saved_word [of xs _ a "save_regs a xs r m" r m] by (simp add: reg_frame_def)

lemma frame_word_span:
  assumes "i < n" "8 * n < 2 ^ 64" "x \<in> span (a + 8 * of_nat i) 8"
  shows "x \<in> span a (8 * n)"
proof -
  have "x \<in> span a (8 * i + 8)" using in_span_add [of "8 * i" 8 x a] assms by simp
  then show ?thesis using span_mono [of "8 * i + 8" "8 * n"] assms(1) by auto
qed

lemma reg_frame_cong:
  assumes "reg_frame m a xs r" "8 * length xs < 2 ^ 64" "\<And>z. z \<in> span a (8 * length xs) \<Longrightarrow> m' z = m z"
  shows "reg_frame m' a xs r"
  unfolding reg_frame_def
proof (intro allI impI)
  fix i assume i: "i < length xs"
  have "load64 m' (a + 8 * of_nat i) = load64 m (a + 8 * of_nat i)"
    using frame_word_span [OF i assms(2)] assms(3) by (intro load64_cong) blast
  then show "load64 m' (a + 8 * of_nat i) = r (xs ! i)" using assms(1) i by (simp add: reg_frame_def)
qed

lemma frame_words_disjoint:
  assumes "i < n" "j < n" "i \<noteq> j" "8 * n < 2 ^ 64"
  shows "span (a + 8 * of_nat i) 8 \<inter> span (a + 8 * of_nat j) 8 = {}"
proof -
  have less: "span (a + 8 * of_nat i) 8 \<inter> span (a + 8 * of_nat j) 8 = {}" if "i < j" "j < n" for i j
  proof -
    obtain d where d: "j = Suc (i + d)" using less_imp_Suc_add [OF \<open>i < j\<close>] by blast
    have j: "a + 8 * of_nat j = a + 8 * of_nat i + 8 + of_nat (8 * d)"
      unfolding d of_nat_Suc of_nat_add of_nat_mult distrib_left by (simp add: add.assoc add.commute)
    have bound: "8 * d + 8 < 2 ^ 64" using that(2) assms(4) by (simp add: d)
    have "x \<in> span (a + 8 * of_nat i + 8) (8 * d + 8)" if "x \<in> span (a + 8 * of_nat j) 8" for x
      using in_span_add [OF bound, of x "a + 8 * of_nat i + 8"] that unfolding j by blast
    moreover have "span (a + 8 * of_nat i) 8 \<inter> span (a + 8 * of_nat i + 8) (8 * d + 8) = {}"
      using that(2) assms(4) by (intro span_step_disjoint) (simp add: d)
    ultimately show ?thesis by blast
  qed
  show ?thesis using less [of i j] less [of j i] assms by (cases "i < j") auto
qed

lemma reg_frame_store:
  assumes "reg_frame m a xs r" "i < length xs" "distinct xs" "8 * length xs < 2 ^ 64"
  shows "reg_frame (store64 m (a + 8 * of_nat i) v) a xs (r(xs ! i := v))"
  unfolding reg_frame_def
proof (intro allI impI)
  fix j assume j: "j < length xs"
  show "load64 (store64 m (a + 8 * of_nat i) v) (a + 8 * of_nat j) = (r(xs ! i := v)) (xs ! j)"
  proof (cases "j = i")
    case False
    then have "load64 (store64 m (a + 8 * of_nat i) v) (a + 8 * of_nat j) = load64 m (a + 8 * of_nat j)"
      using frame_words_disjoint [OF assms(2) j _ assms(4)] by (intro load64_store64_other) auto
    with False j assms show ?thesis by (simp add: reg_frame_def nth_eq_iff_index_eq)
  qed (simp add: load64_store64_same)
qed

lemma load_reg_frame:
  assumes "reg_frame m a xs r" "distinct xs"
  shows "load_regs a xs m r' y = (if y \<in> set xs then r y else r' y)"
proof (cases "y \<in> set xs")
  case True
  then obtain i where i: "i < length xs" "xs ! i = y" by (auto simp: in_set_conv_nth)
  with load_regs_nth [OF assms(2) i(1), of a m r'] assms(1) True show ?thesis by (simp add: reg_frame_def)
qed (simp add: load_regs_notin)

lemma reg_frame_append:
  assumes "reg_frame m a (xs @ ys) r"
  shows "reg_frame m a xs r" "reg_frame m (a + 8 * of_nat (length xs)) ys r"
proof -
  show "reg_frame m a xs r" using assms by (auto simp: reg_frame_def nth_append)
  show "reg_frame m (a + 8 * of_nat (length xs)) ys r"
    unfolding reg_frame_def
  proof (intro allI impI)
    fix i assume "i < length ys"
    then have "load64 m (a + 8 * of_nat (length xs + i)) = r ((xs @ ys) ! (length xs + i))"
      using assms by (simp only: reg_frame_def length_append)
    then show "load64 m (a + 8 * of_nat (length xs) + 8 * of_nat i) = r (ys ! i)" by (simp add: distrib_left add.assoc)
  qed
qed

lemma save_regs_append: "save_regs a (xs @ ys) r m = save_regs (a + 8 * of_nat (length xs)) ys r (save_regs a xs r m)"
  by (induction xs arbitrary: a m) (simp_all add: algebra_simps)

lemma save_regs_cong: "(\<And>x. x \<in> set xs \<Longrightarrow> r x = r' x) \<Longrightarrow> save_regs a xs r m = save_regs a xs r' m"
  by (induction xs arbitrary: a m) auto

end
