(* ===== verification/Sched.thy ===== *)
theory Sched
  imports Main
begin

text \<open>
  The contract of a scheduler towards the processes it runs: which slot it picks next, and the
  progress it promises to every runnable slot. A rank says how many other picks a slot still has to
  wait for; each pick either runs the slot or lowers its rank. That nobody waits longer than the
  highest rank follows here once.
\<close>

locale scheduler =
  fixes ok :: "'p \<Rightarrow> bool"
    and used :: "'p \<Rightarrow> nat \<Rightarrow> bool"
    and ready :: "'p \<Rightarrow> nat \<Rightarrow> bool"
    and pick :: "'p \<Rightarrow> nat \<Rightarrow> nat"
    and rank :: "nat \<Rightarrow> nat \<Rightarrow> nat"
    and bound :: nat
  assumes rank_bound: "rank j c < bound"
    and pick_used: "ok p \<Longrightarrow> used p c \<Longrightarrow> used p (pick p c)"
    and pick_progress: "ok p \<Longrightarrow> used p c \<Longrightarrow> ready p j \<Longrightarrow> pick p c = j \<or> rank j (pick p c) < rank j c"
    and pick_ready: "ok p \<Longrightarrow> used p c \<Longrightarrow> ready p j \<Longrightarrow> ready p (pick p c)"
begin

text \<open>
  A run: the process tables \<open>P t\<close> at the successive yields and the slots \<open>C t\<close> that call them.
  Between two yields the table may change in any way that keeps used slots used.
\<close>

definition run :: "(nat \<Rightarrow> 'p) \<Rightarrow> (nat \<Rightarrow> nat) \<Rightarrow> bool" where
  "run P C \<longleftrightarrow> (\<forall>t. ok (P t) \<and> C (Suc t) = pick (P t) (C t) \<and>
     (\<forall>c. used (P t) c \<longrightarrow> used (P (Suc t)) c)) \<and> used (P 0) (C 0)"

lemma run_used: "run P C \<Longrightarrow> used (P t) (C t)"
  by (induction t) (auto simp: run_def intro: pick_used)

lemma bounded_wait_rank:
  assumes "run P C" "\<And>t. ready (P t) j"
  shows "rank j (C t) = r \<Longrightarrow> \<exists>d. d \<le> r \<and> C (t + Suc d) = j"
proof (induction r arbitrary: t rule: less_induct)
  case (less r)
  have next_slot: "C (Suc t) = pick (P t) (C t)" "ok (P t)" using assms(1) by (auto simp: run_def)
  show ?case
  proof (cases "C (Suc t) = j")
    case True
    then show ?thesis by (intro exI [of _ 0]) simp
  next
    case False
    then have "rank j (C (Suc t)) < r"
      using pick_progress [OF next_slot(2) run_used [OF assms(1)] assms(2)] next_slot(1) less.prems by auto
    from less.IH [OF this refl]
    obtain d where d: "d \<le> rank j (C (Suc t))" "C (Suc t + Suc d) = j" by blast
    moreover have "Suc t + Suc d = t + Suc (Suc d)" by simp
    ultimately show ?thesis using \<open>rank j (C (Suc t)) < r\<close> by (intro exI [of _ "Suc d"]) auto
  qed
qed

lemma bounded_wait:
  assumes "run P C" "\<And>t. ready (P t) j"
  shows "\<exists>d < bound. C (t + Suc d) = j"
  using bounded_wait_rank [OF assms refl] rank_bound le_less_trans by meson

end

end
