(* ===== verification/Proc.thy ===== *)
theory Proc
  imports Paging Cpu Sched
begin

text \<open>
  The process table and the scheduler, \<open>kernel/schedule/proc.c\<close>: eight slots, \<open>create_process\<close>
  that fills one and builds its address space, \<open>yield\<close> that picks the next slot in cyclic order and
  switches stacks and page tables, and \<open>proc_exit\<close>.

  The scalar fields of \<open>struct process\<close> are a record; the kernel stack, its last field, lives in
  the memory at the slot's address, because the context switch and the trap handler store register
  frames there. A process pointer is the index of its slot.
\<close>

section \<open>State\<close>

record process =
  pid :: u32
  state :: u32
  psp :: u64
  page_table :: u64

text \<open>
  \<open>kernel_base\<close> is the linker symbol \<open>__kernel_base\<close>, \<open>procs_base\<close> the address of \<open>procs\<close> and
  \<open>user_entry_pc\<close> that of the function \<open>user_entry\<close>; no operation changes them.
\<close>

record ksys =
  lib :: kst
  hart :: cpu
  procs :: "process list"
  current_proc :: "nat option"
  idle_proc :: "nat option"
  kernel_base :: u64
  procs_base :: u64
  user_entry_pc :: u64

definition PROCS_MAX :: nat where "PROCS_MAX = 8"
definition PROC_UNUSED :: u32 where "PROC_UNUSED = 0"
definition PROC_RUNNABLE :: u32 where "PROC_RUNNABLE = 1"
definition PROC_EXITED :: u32 where "PROC_EXITED = 2"
definition USER_BASE :: u64 where "USER_BASE = 0x1000000"
definition VIRTIO_PADDR :: u64 where "VIRTIO_PADDR = 0x10001000"
definition SATP_SV39 :: u64 where "SATP_SV39 = push_bit 60 8"
definition SSTATUS_SPIE :: u64 where "SSTATUS_SPIE = push_bit 5 1"

text \<open>\<open>&procs[i].stack[sizeof(procs[i].stack)]\<close>: a slot has 24 bytes of fields and 8192 of stack.\<close>

definition stack_top :: "ksys \<Rightarrow> nat \<Rightarrow> u64" where
  "stack_top s i = procs_base s + 8216 * of_nat i + 24 + 8192"

section \<open>The context switch\<close>

definition callee_saved :: "reg list" where
  "callee_saved = [RA, S0, S1, S2, S3, S4, S5, S6, S7, S8, S9, S10, S11]"

definition switch_context :: "nat \<Rightarrow> nat \<Rightarrow> ksys \<Rightarrow> ksys" where
  "switch_context prev next s =
     (let r = regs (hart s);
          sp = r SP - 13 * 8;
          m = save_regs sp callee_saved r (kmem (lib s));
          ps = (procs s)[prev := (procs s ! prev)\<lparr>psp := sp\<rparr>];
          sp = psp (ps ! next);
          r = load_regs sp callee_saved m r;
          r = r(SP := sp + 13 * 8)
      in s\<lparr>lib := (lib s)\<lparr>kmem := m\<rparr>, procs := ps, hart := (hart s)\<lparr>regs := r, pc := r RA\<rparr>\<rparr>)"

definition user_entry :: "cpu \<Rightarrow> cpu" where
  "user_entry c = c\<lparr>sepc := USER_BASE, sstatus := SSTATUS_SPIE, pc := USER_BASE\<rparr>"

section \<open>Creating a process\<close>

fun find_unused :: "nat \<Rightarrow> process list \<Rightarrow> nat option" where
  "find_unused i [] = None"
| "find_unused i (p # ps) = (if state p = PROC_UNUSED then Some i else find_unused (Suc i) ps)"

text \<open>\<open>*--sp = 0\<close> for \<open>s11\<close> down to \<open>s0\<close>, then \<open>*--sp = user_entry\<close> for \<open>ra\<close>.\<close>

fun push_zeros :: "nat \<Rightarrow> u64 \<Rightarrow> mem \<Rightarrow> u64 \<times> mem" where
  "push_zeros 0 sp m = (sp, m)"
| "push_zeros (Suc n) sp m = push_zeros n (sp - 8) (store64 m (sp - 8) 0)"

definition init_stack :: "u64 \<Rightarrow> u64 \<Rightarrow> mem \<Rightarrow> u64 \<times> mem" where
  "init_stack stk ra m = (case push_zeros 12 stk m of (sp, m) \<Rightarrow> (sp - 8, store64 m (sp - 8) ra))"

text \<open>
  The loops over addresses compare 64-bit integers that can wrap, so they need not end: \<open>None\<close> is
  the run that does not.
\<close>

partial_function (option) map_kernel :: "u64 \<Rightarrow> u64 \<Rightarrow> kst \<Rightarrow> kst res option" where
  "map_kernel root paddr s =
     (if paddr < heap_end s then
        (case map_page root paddr paddr (PAGE_R OR PAGE_W OR PAGE_X) s of
           Inl e \<Rightarrow> Some (Inl e)
         | Inr s \<Rightarrow> map_kernel root (paddr + PAGE_SIZE) s)
      else Some (Inr s))"

definition device_mapping :: "nat \<Rightarrow> mapping" where
  "device_mapping i = (let addr = VIRTIO_PADDR + 0x1000 * of_nat i in (addr, addr, PAGE_R OR PAGE_W))"

definition map_devices :: "u64 \<Rightarrow> kst \<Rightarrow> kst res" where
  "map_devices root s = run_all (\<lambda>i. map_one root (device_mapping i)) [0..<8] s"

text \<open>One round of the loop over the image, and the loop.\<close>

definition load_page :: "u64 \<Rightarrow> u64 \<Rightarrow> u64 \<Rightarrow> u64 \<Rightarrow> kst \<Rightarrow> kst res" where
  "load_page root img image_size off s =
     bind_res (kalloc 1 s) (\<lambda>(page, s).
       let remaining = image_size - off;
           copy_size = (if PAGE_SIZE \<le> remaining then PAGE_SIZE else remaining)
       in bind_res (memcpy (kmem s) page (img + off) copy_size) (\<lambda>m.
            map_page root (USER_BASE + off) page (PAGE_U OR PAGE_R OR PAGE_W OR PAGE_X) (s\<lparr>kmem := m\<rparr>)))"

partial_function (option) load_image :: "u64 \<Rightarrow> u64 \<Rightarrow> u64 \<Rightarrow> u64 \<Rightarrow> kst \<Rightarrow> kst res option" where
  "load_image root img image_size off s =
     (if off < image_size then
        (case load_page root img image_size off s of
           Inl e \<Rightarrow> Some (Inl e)
         | Inr s \<Rightarrow> load_image root img image_size (off + PAGE_SIZE) s)
      else Some (Inr s))"

definition may_hang :: "'a res option \<Rightarrow> 'a res" where
  "may_hang r = (case r of None \<Rightarrow> Inl Hang | Some r \<Rightarrow> r)"

definition create_process :: "u64 \<Rightarrow> u64 \<Rightarrow> ksys \<Rightarrow> (nat \<times> ksys) res" where
  "create_process img image_size s =
     (case find_unused 0 (procs s) of
        None \<Rightarrow> Inl (Panic ''No free process slots!'' [])
      | Some i \<Rightarrow>
          (case init_stack (stack_top s i) (user_entry_pc s) (kmem (lib s)) of (sp, m) \<Rightarrow>
             bind_res (kalloc 1 ((lib s)\<lparr>kmem := m\<rparr>)) (\<lambda>(root, k).
             bind_res (may_hang (map_kernel root (kernel_base s) k)) (\<lambda>k.
             bind_res (map_devices root k) (\<lambda>k.
             bind_res (may_hang (load_image root img image_size 0 k)) (\<lambda>k.
               Inr (i, s\<lparr>lib := k, procs := (procs s)[i :=
                 \<lparr>pid = of_nat (i + 1), state = PROC_RUNNABLE, psp = sp, page_table = root\<rparr>]\<rparr>)))))))"

definition init_proc :: "ksys \<Rightarrow> ksys res" where
  "init_proc s =
     bind_res (create_process 0 0 s) (\<lambda>(i, s).
       Inr (s\<lparr>idle_proc := Some i, procs := (procs s)[i := (procs s ! i)\<lparr>pid := 0\<rparr>], current_proc := Some i\<rparr>))"

section \<open>Scheduling\<close>

definition runnable :: "process list \<Rightarrow> nat \<Rightarrow> bool" where
  "runnable ps j \<longleftrightarrow> state (ps ! j) = PROC_RUNNABLE \<and> 0 < pid (ps ! j)"

text \<open>The search loop of \<open>yield\<close>: \<open>n\<close> rounds are left and \<open>i\<close> is the next index.\<close>

fun yield_search :: "process list \<Rightarrow> u32 \<Rightarrow> nat \<Rightarrow> nat \<Rightarrow> nat \<Rightarrow> nat" where
  "yield_search ps cur_pid next i 0 = next"
| "yield_search ps cur_pid next i (Suc n) =
     (let j = unat ((cur_pid + of_nat i) mod of_nat PROCS_MAX) in
      if runnable ps j then j else yield_search ps cur_pid next (Suc i) n)"

definition next_slot :: "process list \<Rightarrow> nat \<Rightarrow> nat \<Rightarrow> nat" where
  "next_slot ps idle cur = yield_search ps (pid (ps ! cur)) idle 0 PROCS_MAX"

text \<open>
  A call of \<open>yield\<close> either returns at once (\<open>Back\<close>) or leaves the hart running another process
  (\<open>Away\<close>); in that case the call returns when some later switch comes back.
\<close>

datatype yielded = Back ksys | Away ksys

definition new_satp :: "u64 \<Rightarrow> u64" where
  "new_satp root = SATP_SV39 OR (root div PAGE_SIZE)"

definition yield :: "ksys \<Rightarrow> yielded res" where
  "yield s =
     (case (current_proc s, idle_proc s) of
        (Some cur, Some idle) \<Rightarrow>
          (let next = next_slot (procs s) idle cur in
           if next = cur then Inr (Back s)
           else
             let c = (hart s)\<lparr>sscratch := stack_top s next, satp := new_satp (page_table (procs s ! next))\<rparr>
             in Inr (Away (switch_context cur next (s\<lparr>current_proc := Some next, hart := c\<rparr>))))
      | _ \<Rightarrow> Inl NullAccess)"

definition proc_exit :: "ksys \<Rightarrow> yielded res" where
  "proc_exit s =
     (case current_proc s of
        None \<Rightarrow> Inl NullAccess
      | Some cur \<Rightarrow>
          bind_res (printf (kmem (lib s)) (''Process %d exited'' @ [CHR 0x0A]) [ucast (pid (procs s ! cur))] (console (lib s))) (\<lambda>con.
            yield (s\<lparr>lib := (lib s)\<lparr>console := con\<rparr>,
                     procs := (procs s)[cur := (procs s ! cur)\<lparr>state := PROC_EXITED\<rparr>]\<rparr>)))"


section \<open>The pick\<close>

text \<open>
  A process table in order: eight slots, the idle process with pid 0 in slot \<open>idle\<close>, every other
  slot in use with the pid that is its index plus one. \<open>rank j c\<close> is the number of slots that are
  looked at before \<open>j\<close> when slot \<open>c\<close> yields.
\<close>

definition in_use :: "process list \<Rightarrow> nat \<Rightarrow> bool" where
  "in_use ps i \<longleftrightarrow> i < PROCS_MAX \<and> state (ps ! i) \<noteq> PROC_UNUSED"

definition table_ok :: "nat \<Rightarrow> process list \<Rightarrow> bool" where
  "table_ok idle ps \<longleftrightarrow> length ps = PROCS_MAX \<and> in_use ps idle \<and> pid (ps ! idle) = 0 \<and>
     (\<forall>i < PROCS_MAX. i \<noteq> idle \<longrightarrow> state (ps ! i) \<noteq> PROC_UNUSED \<longrightarrow> pid (ps ! i) = of_nat (i + 1))"

definition first_slot :: "nat \<Rightarrow> nat \<Rightarrow> nat" where
  "first_slot idle c = (if c = idle then 0 else (c + 1) mod 8)"

definition wait_rank :: "nat \<Rightarrow> nat \<Rightarrow> nat \<Rightarrow> nat" where
  "wait_rank idle j c = (j + (8 - first_slot idle c)) mod 8"

lemma unat_mod_8: "unat ((x + of_nat i) mod of_nat PROCS_MAX :: u32) = (unat x + i) mod 8"
proof -
  have "unat (x + of_nat i) mod 8 = (unat x + i) mod 8"
    by (simp add: unat_word_ariths unat_of_nat mod_simps) (simp add: mod_mod_cancel mod_add_eq)
  then show ?thesis by (simp add: unat_mod PROCS_MAX_def)
qed

lemma yield_search_cases:
  "(\<exists>d < n. yield_search ps p nxt i n = (unat p + i + d) mod 8 \<and> runnable ps ((unat p + i + d) mod 8) \<and>
      (\<forall>e < d. \<not> runnable ps ((unat p + i + e) mod 8))) \<or>
   yield_search ps p nxt i n = nxt \<and> (\<forall>e < n. \<not> runnable ps ((unat p + i + e) mod 8))"
proof (induction n arbitrary: i)
  case (Suc n)
  show ?case
  proof (cases "runnable ps ((unat p + i) mod 8)")
    case True
    then show ?thesis by (intro disjI1 exI [of _ 0]) (simp add: unat_mod_8)
  next
    case False
    have less_Suc: "(\<forall>e < Suc d. \<not> runnable ps ((unat p + i + e) mod 8)) \<longleftrightarrow>
        (\<forall>e < d. \<not> runnable ps ((unat p + Suc i + e) mod 8))" for d
      using False by (auto simp: less_Suc_eq_0_disj)
    from Suc [of "Suc i"] show ?thesis
    proof
      assume "\<exists>d < n. yield_search ps p nxt (Suc i) n = (unat p + Suc i + d) mod 8 \<and>
        runnable ps ((unat p + Suc i + d) mod 8) \<and> (\<forall>e < d. \<not> runnable ps ((unat p + Suc i + e) mod 8))"
      then obtain d where "d < n" "yield_search ps p nxt (Suc i) n = (unat p + Suc i + d) mod 8"
        "runnable ps ((unat p + Suc i + d) mod 8)" "\<forall>e < Suc d. \<not> runnable ps ((unat p + i + e) mod 8)"
        using less_Suc by auto
      with False show ?thesis by (intro disjI1 exI [of _ "Suc d"]) (simp add: unat_mod_8 Let_def)
    qed (use False less_Suc in \<open>simp add: unat_mod_8 Let_def\<close>)
  qed
qed simp

lemma mod8_sum: "x < 16 \<Longrightarrow> x mod 8 = (if x < 8 then x else x - (8 :: nat))"
  by (auto simp: mod_if)

lemma mod8_unique:
  assumes "a < 8" "d < 8" "e < 8" "(a + d) mod 8 = (a + e) mod (8 :: nat)"
  shows "d = e"
  using assms(4) assms(1-3) by (auto simp: mod8_sum split: if_splits)

lemma reach_slot: "(j :: nat) < 8 \<Longrightarrow> f < 8 \<Longrightarrow> (f + (j + (8 - f)) mod 8) mod 8 = j"
  by (cases "f = 0") (auto simp: mod8_sum)

lemma first_slot_pid:
  assumes "table_ok idle ps" "in_use ps c"
  shows "(unat (pid (ps ! c)) + d) mod 8 = (first_slot idle c + d) mod 8"
  using assms unfolding table_ok_def first_slot_def in_use_def
  by (cases "c = idle") (auto simp: PROCS_MAX_def unat_of_nat mod_simps unat_word_ariths)

text \<open>What \<open>yield\<close> picks: the first runnable slot in cyclic order, or the idle process.\<close>

lemma next_slot_first:
  assumes "table_ok idle ps" "in_use ps c"
  shows "(next_slot ps idle c < 8 \<and> runnable ps (next_slot ps idle c) \<and>
      (\<forall>j < 8. runnable ps j \<longrightarrow> wait_rank idle (next_slot ps idle c) c \<le> wait_rank idle j c)) \<or>
    next_slot ps idle c = idle \<and> (\<forall>j < 8. \<not> runnable ps j)"
proof -
  let ?f = "first_slot idle c"
  have f8: "?f < 8" by (auto simp: first_slot_def)
  have reach: "(?f + wait_rank idle j c) mod 8 = j" "wait_rank idle j c < 8" if "j < 8" for j
    using reach_slot [OF that f8] by (simp_all add: wait_rank_def)
  note S = yield_search_cases [of PROCS_MAX ps "pid (ps ! c)" idle 0, folded next_slot_def, simplified add_0_right,
      unfolded first_slot_pid [OF assms]]
  have P8: "PROCS_MAX = 8" by (simp add: PROCS_MAX_def)
  from S show ?thesis
  proof
    assume "\<exists>d < PROCS_MAX. next_slot ps idle c = (?f + d) mod 8 \<and> runnable ps ((?f + d) mod 8) \<and>
      (\<forall>e < d. \<not> runnable ps ((?f + e) mod 8))"
    then obtain d where d: "d < 8" "next_slot ps idle c = (?f + d) mod 8" "runnable ps ((?f + d) mod 8)"
      "\<And>e. e < d \<Longrightarrow> \<not> runnable ps ((?f + e) mod 8)" using P8 by auto
    have "wait_rank idle (next_slot ps idle c) c = d"
      using d reach [of "(?f + d) mod 8"] by (intro mod8_unique [of ?f _ d]) (use f8 in auto)
    moreover have "d \<le> wait_rank idle j c" if "j < 8" "runnable ps j" for j
      using d(4) [of "wait_rank idle j c"] reach [OF that(1)] that(2) by (metis not_le)
    ultimately show ?thesis using d by auto
  next
    assume none: "next_slot ps idle c = idle \<and> (\<forall>e < PROCS_MAX. \<not> runnable ps ((?f + e) mod 8))"
    have "\<not> runnable ps j" if "j < 8" for j
      using none reach [OF that] P8 by metis
    with none show ?thesis by blast
  qed
qed

lemma runnable_in_use: "j < 8 \<Longrightarrow> runnable ps j \<Longrightarrow> in_use ps j"
  by (auto simp: runnable_def in_use_def PROCS_MAX_def PROC_RUNNABLE_def PROC_UNUSED_def)

lemma idle_not_runnable: "table_ok idle ps \<Longrightarrow> \<not> runnable ps idle"
  by (simp add: table_ok_def runnable_def)

lemma wait_rank_step:
  assumes "j < 8" "n < 8" "j \<noteq> n" "n \<noteq> idle" "wait_rank idle n c \<le> wait_rank idle j c"
  shows "wait_rank idle j n < wait_rank idle j c"
proof -
  define f where "f = first_slot idle c"
  have f: "f < 8" by (auto simp: f_def first_slot_def)
  have rank: "wait_rank idle i c = (if f \<le> i then i - f else i + 8 - f)" if "i < 8" for i
    using f that by (cases "f = 0") (auto simp: wait_rank_def f_def [symmetric] mod8_sum)
  have "first_slot idle n = (if n = 7 then 0 else n + 1)" using assms(2,4) by (auto simp: first_slot_def)
  then have "wait_rank idle j n = (if n < j then j - n - 1 else j + 7 - n)"
    using assms(1-3) by (auto simp: wait_rank_def mod8_sum)
  then show ?thesis using assms(5) f assms(1-3) unfolding rank [OF assms(1)] rank [OF assms(2)]
    by (auto split: if_splits)
qed

interpretation rr: scheduler "table_ok idle" in_use "\<lambda>ps j. j < 8 \<and> runnable ps j" "\<lambda>ps. next_slot ps idle"
  "wait_rank idle" 8 for idle
proof
  fix ps c assume A: "table_ok idle ps" "in_use ps c"
  show "in_use ps (next_slot ps idle c)"
    using next_slot_first [OF A] A(1) runnable_in_use by (auto simp: table_ok_def)
next
  fix ps c j assume A: "table_ok idle ps" "in_use ps c" "j < 8 \<and> runnable ps j"
  then have N: "next_slot ps idle c < 8 \<and> runnable ps (next_slot ps idle c)"
    "wait_rank idle (next_slot ps idle c) c \<le> wait_rank idle j c"
    using next_slot_first [OF A(1,2)] by auto
  then show "next_slot ps idle c < 8 \<and> runnable ps (next_slot ps idle c)" by simp
  show "next_slot ps idle c = j \<or> wait_rank idle j (next_slot ps idle c) < wait_rank idle j c"
    using wait_rank_step [of j "next_slot ps idle c" idle c] N A(3) idle_not_runnable [OF A(1)] by metis
qed (simp add: wait_rank_def)

end
