(* ===== verification/Proc_Space.thy ===== *)
theory Proc_Space
  imports Proc
begin

text \<open>
  What \<open>create_process\<close> builds. The loops over kernel pages and device pages are runs of the page
  mapper over a list, so their effect is the mapper's; the loop over the image also allocates and
  fills a page per round. Together they give the exact translation of a new process, the contents of
  its user pages, its cost in free memory and its success.
\<close>

lemma run_all_append: "run_all f (xs @ ys) s = bind_res (run_all f xs s) (run_all f ys)"
  by (induction xs arbitrary: s) (auto simp: bind_res_def split: sum.splits)

lemma run_all_map: "run_all f (map g xs) s = run_all (\<lambda>x. f (g x)) xs s"
  by (induction xs arbitrary: s) (auto simp: bind_res_def split: sum.splits)

section \<open>Kernel and device pages\<close>

definition kernel_mappings :: "u64 \<Rightarrow> u64 \<Rightarrow> mapping list" where
  "kernel_mappings p e =
     map (\<lambda>i. (p + 4096 * of_nat i, p + 4096 * of_nat i, PAGE_R OR PAGE_W OR PAGE_X)) [0..<(unat e - unat p + 4095) div 4096]"

definition device_mappings :: "mapping list" where
  "device_mappings = map device_mapping [0..<8]"

lemma pages_up_Suc:
  assumes "0 < (d :: nat)"
  shows "(d + 4095) div 4096 = Suc ((d - 4096 + 4095) div 4096)"
proof (cases "4096 \<le> d")
  case True
  then obtain k where "d = 4096 + k" using le_iff_add by blast
  moreover have "(4096 + k + 4095) div 4096 = Suc ((k + 4095) div 4096)"
    using div_add_self1 [of 4096 "k + 4095"] by (simp only: add.assoc)
  ultimately show ?thesis by simp
next
  case False
  then have "(d + 4095) div 4096 = 1" using assms by (intro div_nat_eqI) simp_all
  then show ?thesis using False by simp
qed

lemma kernel_mappings_Nil: "\<not> p < e \<Longrightarrow> kernel_mappings p e = []"
  by (simp add: kernel_mappings_def word_less_nat_alt)

lemma kernel_mappings_Cons:
  assumes "p < e" "unat e + 4096 \<le> 2 ^ 64"
  shows "kernel_mappings p e = (p, p, PAGE_R OR PAGE_W OR PAGE_X) # kernel_mappings (p + PAGE_SIZE) e"
proof -
  have less: "unat p < unat e" using assms(1) by (simp add: word_less_nat_alt)
  then have next_page: "unat (p + PAGE_SIZE) = unat p + 4096"
    using assms(2) unat_plus_of_nat [of p 4096] by (simp add: PAGE_SIZE_def)
  have len: "(unat e - unat p + 4095) div 4096 = Suc ((unat e - unat (p + PAGE_SIZE) + 4095) div 4096)"
    unfolding next_page using pages_up_Suc [of "unat e - unat p"] less by (simp only: diff_diff_left zero_less_diff)
  have shift: "p + 4096 * of_nat (Suc i) = p + PAGE_SIZE + 4096 * of_nat i" for i
    by (simp only: PAGE_SIZE_def of_nat_Suc distrib_left mult_1_right add.assoc)
  show ?thesis
    unfolding kernel_mappings_def len map_upt_Suc shift by (simp only: semiring_1_class.of_nat_0 mult_zero_right add_0_right)
qed

lemma map_one_heap_end: "pt_state_of b s root F \<Longrightarrow> map_one root x s = Inr s' \<Longrightarrow> heap_end s' = heap_end s"
  using pt.step [of b s root F x s'] by (auto simp: pt_keeps_def keeps_rest_def)

lemma map_kernel_run:
  assumes "pt_state_of b s root F" "unat (heap_end s) + 4096 \<le> 2 ^ 64"
  shows "map_kernel root p s = Some (run_all (map_one root) (kernel_mappings p (heap_end s)) s)"
  using assms
proof (induction "length (kernel_mappings p (heap_end s))" arbitrary: p s F)
  case 0
  then have "\<not> p < heap_end s" using kernel_mappings_Cons by fastforce
  then show ?case by (subst map_kernel.simps) (simp add: kernel_mappings_Nil)
next
  case (Suc n)
  then have less: "p < heap_end s" using kernel_mappings_Nil by fastforce
  note C = kernel_mappings_Cons [OF less Suc.prems(2)]
  have step: "map_page root p p (PAGE_R OR PAGE_W OR PAGE_X) s = map_one root (p, p, PAGE_R OR PAGE_W OR PAGE_X) s"
    by (simp add: map_one_def)
  show ?case
  proof (cases "map_one root (p, p, PAGE_R OR PAGE_W OR PAGE_X) s")
    case (Inl e)
    then show ?thesis using less by (subst map_kernel.simps) (simp add: step C)
  next
    case (Inr s1)
    have he: "heap_end s1 = heap_end s" by (rule map_one_heap_end [OF Suc.prems(1) Inr])
    obtain F1 where F1: "pt_state_of b s1 root F1" using pt.step [OF Suc.prems(1) Inr] by blast
    have "map_kernel root (p + PAGE_SIZE) s1 = Some (run_all (map_one root) (kernel_mappings (p + PAGE_SIZE) (heap_end s1)) s1)"
      using Suc.hyps(2) Suc.prems(2) C he by (intro Suc.hyps(1) [OF _ F1]) auto
    then show ?thesis using less Inr he by (subst map_kernel.simps) (simp add: step C)
  qed
qed

lemma map_devices_run: "map_devices root s = run_all (map_one root) device_mappings s"
  by (simp add: map_devices_def device_mappings_def run_all_map)

section \<open>User pages\<close>

text \<open>
  The image is outside the free memory and the tables, so it is intact when it is copied. A page
  that has been loaded is outside both as well, so later rounds do not touch it.
\<close>

definition image_apart :: "u64 \<Rightarrow> u64 \<Rightarrow> nat set \<Rightarrow> bool" where
  "image_apart img image_size A \<longleftrightarrow>
     (\<forall>a. unat img \<le> a \<and> a < unat img + unat image_size \<longrightarrow> a \<notin> A)"

text \<open>The bytes that one round copies: a page, or what is left of the image.\<close>

abbreviation chunk :: "u64 \<Rightarrow> u64 \<Rightarrow> u64" where
  "chunk image_size off \<equiv> (if PAGE_SIZE \<le> image_size - off then PAGE_SIZE else image_size - off)"

lemma unat_chunk: "off < image_size \<Longrightarrow> unat (chunk image_size off) = min 4096 (unat image_size - unat off)"
  by (auto simp: PAGE_SIZE_def word_le_nat_alt unat_sub word_less_nat_alt min_def)

lemma unat_source:
  "unat (img :: u64) + unat (image_size :: u64) < 2 ^ 64 \<Longrightarrow> unat off + j < unat image_size \<Longrightarrow> unat (img + off + of_nat j) = unat img + unat off + j"
  using unat_plus_of_nat [of img "unat off + j"] by (simp add: add.assoc)

lemma copy_page:
  assumes off: "off < image_size" and img: "img \<noteq> 0" "unat img + unat image_size < 2 ^ 64" "image_apart img image_size (page_at pg)"
    and pg: "pg \<noteq> 0" "4096 dvd unat pg"
  obtains m where "memcpy M pg (img + off) (chunk image_size off) = Inr m" "\<And>x. unat x \<notin> page_at pg \<Longrightarrow> m x = M x"
    "\<And>j. j < 4096 \<Longrightarrow> m (pg + of_nat j) = (if unat off + j < unat image_size then M (img + off + of_nat j) else M (pg + of_nat j))"
proof -
  let ?n = "chunk image_size off"
  note n = unat_chunk [OF off]
  have o: "unat off < unat image_size" using off by (simp add: word_less_nat_alt)
  note src = unat_source [OF img(2), of off 0, simplified, OF o]
  have pg64: "unat pg + 4096 \<le> 2 ^ 64" by (rule page_no_wrap [OF pg(2)])
  have "unat pg \<in> page_at pg" using page_ne [of pg] by (auto simp: page_at_def)
  then have "\<not> (unat img \<le> unat pg \<and> unat pg < unat img + unat image_size)" using img(3) by (auto simp: image_apart_def)
  then have safe: "copy_safe pg (img + off) (unat ?n)"
    using pg64 n src o img(2) by (auto simp: copy_safe_def)
  have "img + off \<noteq> 0" using src img(1) by (metis add_is_0 unat_0 unat_eq_zero)
  note C = memcpy_ok [OF pg(1) this safe, of M]
  let ?m = "\<lambda>x. if x \<in> span pg (unat ?n) then M (img + off + (x - pg)) else M x"
  have in_copy: "x \<in> span pg (unat ?n) \<longleftrightarrow> unat pg \<le> unat x \<and> unat x < unat pg + unat ?n" for x
    using pg64 n by (intro in_span_iff) simp
  show thesis
  proof (rule that [of ?m])
    show "?m x = M x" if "unat x \<notin> page_at pg" for x
      using that in_copy [of x] n by (auto simp: page_at_def)
    show "?m (pg + of_nat j) = (if unat off + j < unat image_size then M (img + off + of_nat j) else M (pg + of_nat j))" if "j < 4096" for j
      using that in_copy [of "pg + of_nat j"] unat_plus_of_nat [of pg j] pg64 n by auto
  qed (rule C)
qed

text \<open>A page from the allocator, filled: the tables are as before, and the page has a part of the image and zeros behind it.\<close>

lemma filled_page:
  assumes st: "pt_state_of b s root F" and off: "off < image_size"
    and img: "img \<noteq> 0" "unat img + unat image_size < 2 ^ 64" "image_apart img image_size (F \<union> table_bytes (kmem s) root)"
    and alloc: "kalloc 1 s = Inr (pg, s1)"
  obtains m where "memcpy (kmem s1) pg (img + off) (chunk image_size off) = Inr m" "pt_state_of b (s1\<lparr>kmem := m\<rparr>) root (F - page_at pg)"
    "table_bytes m root = table_bytes (kmem s) root" "tables m root = tables (kmem s) root" "translation m root = translation (kmem s) root"
    "\<forall>x. unat x \<notin> F \<longrightarrow> m x = kmem s x"
    "\<forall>j < 4096. m (pg + of_nat j) = (if unat off + j < unat image_size then kmem s (img + off + of_nat j) else 0)"
proof -
  have S: "alloc_inv b s F" "pt_inv (kmem s) root F" "F \<subseteq> {..< 2 ^ 46}" using st by (simp_all add: pt_state_of_def)
  note A = pages.alloc_page [OF S(1) alloc]
  have "image_apart img image_size (page_at pg)" using img(3) A by (auto simp: image_apart_def)
  then obtain m where m: "memcpy (kmem s1) pg (img + off) (chunk image_size off) = Inr m" "\<And>x. unat x \<notin> page_at pg \<Longrightarrow> m x = kmem s1 x"
    "\<And>j. j < 4096 \<Longrightarrow> m (pg + of_nat j) = (if unat off + j < unat image_size then kmem s1 (img + off + of_nat j) else kmem s1 (pg + of_nat j))"
    using copy_page [OF off img(1,2), of pg "kmem s1"] A by metis
  have old: "m x = kmem s x" if "unat x \<notin> F" for x
    using that m(2) [of x] A pages.alloc_keeps [OF S(1) alloc that] by auto
  then have tabs: "m x = kmem s x" if "unat x \<in> table_bytes (kmem s) root" for x
    using that table_bytes_not_free [OF S(2)] by blast
  have "alloc_inv b (s1\<lparr>kmem := m\<rparr>) (F - page_at pg)" using A m(2) by (intro pages.inv_frame) auto
  then have st2: "pt_state_of b (s1\<lparr>kmem := m\<rparr>) root (F - page_at pg)"
    using pt_inv_cong [OF S(2) tabs] S(3) by (auto simp: pt_state_of_def)
  have content: "m (pg + of_nat j) = (if unat off + j < unat image_size then kmem s (img + off + of_nat j) else 0)" if j: "j < 4096" for j
  proof (cases "unat off + j < unat image_size")
    case True
    have "unat (img + off + of_nat j) \<notin> F"
      using img(3) unat_source [OF img(2) True] True by (auto simp: image_apart_def)
    then show ?thesis using m(3) [OF j] True pages.alloc_keeps [OF S(1) alloc] by simp
  next
    case False
    have "unat (pg + of_nat j) \<in> page_at pg" using unat_plus_of_nat [of pg j] page_no_wrap [of pg] A j by (simp add: page_at_def)
    then show ?thesis using m(3) [OF j] False pages.alloc_zero [OF S(1) alloc] by simp
  qed
  have same: "table_bytes m root = table_bytes (kmem s) root" "tables m root = tables (kmem s) root"
    "translation m root = translation (kmem s) root"
    using table_at_cong [OF S(2) tabs] translation_cong [OF S(2) tabs] by (auto simp: table_bytes_def tables_def)
  show thesis using that [OF m(1) st2 same] old content by simp
qed

text \<open>The round \<open>load_page\<close> in the order of its effects.\<close>

lemma load_page_ok:
  assumes st: "pt_state_of b s root F" and off: "off < image_size"
    and img: "img \<noteq> 0" "unat img + unat image_size < 2 ^ 64" "image_apart img image_size (F \<union> table_bytes (kmem s) root)"
    and r: "load_page root img image_size off s = Inr s'"
  shows "\<exists>pg F'. pt_state_of b s' root F' \<and>
    translation (kmem s') root = (translation (kmem s) root)
      (vpns (USER_BASE + off) \<mapsto> pte_leaf pg (PAGE_U OR PAGE_R OR PAGE_W OR PAGE_X)) \<and>
    pt_keeps root s F s' F' \<and> page_at pg \<subseteq> F - F' \<and> page_at pg \<inter> table_bytes (kmem s') root = {} \<and>
    pg \<noteq> 0 \<and> 4096 dvd unat pg \<and>
    (\<forall>j < 4096. kmem s' (pg + of_nat j) =
       (if unat off + j < unat image_size then kmem s (img + off + of_nat j) else 0)) \<and>
    tables (kmem s') root = tables (kmem s) root \<union> walk_tables (USER_BASE + off) \<and>
    card F = card F' + 4096 + 4096 * card (walk_tables (USER_BASE + off) - tables (kmem s) root)"
proof -
  from r obtain pg s1 m0 where alloc: "kalloc 1 s = Inr (pg, s1)" and copy: "memcpy (kmem s1) pg (img + off) (chunk image_size off) = Inr m0"
    and map: "map_page root (USER_BASE + off) pg (PAGE_U OR PAGE_R OR PAGE_W OR PAGE_X) (s1\<lparr>kmem := m0\<rparr>) = Inr s'"
    by (auto simp: load_page_def bind_res_Inr_iff Let_def)
  have S: "alloc_inv b s F" "pt_inv (kmem s) root F" "F \<subseteq> {..< 2 ^ 46}" using st by (simp_all add: pt_state_of_def)
  note A = pages.alloc_page [OF S(1) alloc]
  obtain m where m: "memcpy (kmem s1) pg (img + off) (chunk image_size off) = Inr m" "pt_state_of b (s1\<lparr>kmem := m\<rparr>) root (F - page_at pg)"
    "table_bytes m root = table_bytes (kmem s) root" "tables m root = tables (kmem s) root" "translation m root = translation (kmem s) root"
    "\<forall>x. unat x \<notin> F \<longrightarrow> m x = kmem s x"
    "\<forall>j < 4096. m (pg + of_nat j) = (if unat off + j < unat image_size then kmem s (img + off + of_nat j) else 0)"
    by (rule filled_page [OF st off img alloc])
  let ?s2 = "s1\<lparr>kmem := m\<rparr>" and ?F1 = "F - page_at pg"
  have map2: "map_page root (USER_BASE + off) pg (PAGE_U OR PAGE_R OR PAGE_W OR PAGE_X) ?s2 = Inr s'" using map copy m(1) by simp
  obtain F' where F': "F' \<subseteq> ?F1" "pt_state_of b s' root F'"
    "translation (kmem s') root = (translation m root)(vpns (USER_BASE + off) \<mapsto> pte_leaf pg (PAGE_U OR PAGE_R OR PAGE_W OR PAGE_X))"
    "keeps_rest ?s2 root ?F1 s'" "table_bytes (kmem s') root \<subseteq> table_bytes m root \<union> (?F1 - F')"
    "tables (kmem s') root = tables m root \<union> walk_tables (USER_BASE + off)"
    "card ?F1 = card F' + 4096 * card (walk_tables (USER_BASE + off) - tables m root)"
    using map_page_ok [OF m(2) map2] by auto
  have pg_tab: "page_at pg \<inter> table_bytes (kmem s) root = {}" using table_bytes_not_free [OF S(2)] A by blast
  have "unat (pg + of_nat j) \<in> page_at pg" if "j < 4096" for j
    using that unat_plus_of_nat [of pg j] page_no_wrap [of pg] A by (simp add: page_at_def)
  then have content: "kmem s' (pg + of_nat j) = m (pg + of_nat j)" if "j < 4096" for j
    using that F'(4) pg_tab m(3) by (auto simp: keeps_rest_def)
  have "kmem s' x = kmem s x" if "unat x \<notin> F" "unat x \<notin> table_bytes (kmem s) root" for x
    using that m(3) m(6) F'(4) by (simp add: keeps_rest_def)
  then have keep: "pt_keeps root s F s' F'"
    using F'(1,4,5) A m(3) pages_alloc_frame [OF S(1) alloc] by (auto simp: pt_keeps_def keeps_rest_def)
  have "card F = card ?F1 + 4096" using pages.alloc_card [OF S(1) alloc] finite_subset [OF S(3)] by simp
  moreover have "page_at pg \<inter> table_bytes (kmem s') root = {}" "page_at pg \<subseteq> F - F'" using F'(1,5) pg_tab m(3) A by blast+
  ultimately show ?thesis using F' keep content m A by (intro exI [of _ pg] exI [of _ F']) auto
qed

section \<open>The loop over the image\<close>

definition image_pages :: "u64 \<Rightarrow> nat" where
  "image_pages image_size = (unat image_size + 4095) div 4096"

lemma image_pages_iff: "k < image_pages image_size \<longleftrightarrow> 4096 * k < unat image_size"
  unfolding image_pages_def using less_eq_div_iff_mult_less_eq [of 4096 "Suc k" "unat image_size + 4095"]
  by (auto simp: Suc_le_eq)

lemma page_offset:
  assumes "4096 * k < 2 ^ 64"
  shows "unat (4096 * of_nat k :: u64) = 4096 * k"
proof -
  have "(4096 * of_nat k :: u64) = of_nat (4096 * k)" by simp
  then show ?thesis using unat_of_nat_64 [OF assms] by simp
qed

lemma load_image_run:
  assumes "unat image_size + 4096 \<le> 2 ^ 64" "4096 * k < unat image_size + 4096"
  shows "load_image root img image_size (4096 * of_nat k) s =
    Some (run_all (\<lambda>i. load_page root img image_size (4096 * of_nat i)) [k..<image_pages image_size] s)"
  using assms
proof (induction "image_pages image_size - k" arbitrary: k s)
  case 0
  then have "\<not> 4096 * k < unat image_size" using image_pages_iff [of k image_size] by simp
  moreover have "unat (4096 * of_nat k :: u64) = 4096 * k" using 0 by (intro page_offset) simp
  ultimately have "\<not> (4096 * of_nat k :: u64) < image_size" by (simp add: word_less_nat_alt)
  then show ?case using 0(1) by (subst load_image.simps) simp
next
  case (Suc n)
  have "k < image_pages image_size" using Suc.hyps(2) by simp
  then have k: "4096 * k < unat image_size" "[k..<image_pages image_size] = k # [Suc k..<image_pages image_size]"
    using image_pages_iff [of k image_size] by (simp_all add: upt_conv_Cons)
  have "unat (4096 * of_nat k :: u64) = 4096 * k" using Suc.prems by (intro page_offset) simp
  then have less: "(4096 * of_nat k :: u64) < image_size" using k(1) by (simp add: word_less_nat_alt)
  have off: "4096 * of_nat k + PAGE_SIZE = (4096 * of_nat (Suc k) :: u64)"
    by (simp only: PAGE_SIZE_def of_nat_Suc distrib_left mult_1_right add.commute)
  have IH: "load_image root img image_size (4096 * of_nat (Suc k)) s1 =
    Some (run_all (\<lambda>i. load_page root img image_size (4096 * of_nat i)) [Suc k..<image_pages image_size] s1)" for s1
    using Suc.hyps(2) Suc.prems(1) k(1) by (intro Suc.hyps(1)) auto
  show ?case
    using less by (subst load_image.simps) (simp add: k(2) off IH bind_res_def split: sum.splits del: of_nat_Suc)
qed

definition user_mapping :: "nat \<Rightarrow> u64 \<Rightarrow> mapping" where
  "user_mapping k pg = (USER_BASE + 4096 * of_nat k, pg, PAGE_U OR PAGE_R OR PAGE_W OR PAGE_X)"

text \<open>Page \<open>pg\<close> holds page \<open>k\<close> of the image, padded with zeros.\<close>

definition holds_page :: "mem \<Rightarrow> u64 \<Rightarrow> mem \<Rightarrow> u64 \<Rightarrow> u64 \<Rightarrow> nat \<Rightarrow> bool" where
  "holds_page m pg m0 img image_size k \<longleftrightarrow> (\<forall>j < 4096. m (pg + of_nat j) =
     (if 4096 * k + j < unat image_size then m0 (img + of_nat (4096 * k + j)) else 0))"

lemma holds_page_cong:
  assumes "4096 dvd unat pg" "\<And>a. unat a \<in> page_at pg \<Longrightarrow> m' a = m a"
    and "\<And>j. j < unat image_size \<Longrightarrow> m0' (img + of_nat j) = m0 (img + of_nat j)"
  shows "holds_page m' pg m0' img image_size k = holds_page m pg m0 img image_size k"
proof -
  have "unat (pg + of_nat j) = unat pg + j" if "j < 4096" for j
    using page_no_wrap [OF assms(1)] that by (intro unat_plus_of_nat) simp
  then have "m' (pg + of_nat j) = m (pg + of_nat j)" if "j < 4096" for j
    using that by (intro assms(2)) (simp add: page_at_def)
  then show ?thesis using assms(3) unfolding holds_page_def by (simp del: of_nat_add of_nat_mult)
qed

lemma pt_keeps_apart: "pt_keeps root s F s' F' \<Longrightarrow> a \<notin> F \<union> table_bytes (kmem s) root \<Longrightarrow>
    a \<notin> F' \<union> table_bytes (kmem s') root"
  unfolding pt_keeps_def by blast

lemma pt_keeps_mem: "pt_keeps root s F s' F' \<Longrightarrow> unat a \<notin> F \<union> table_bytes (kmem s) root \<Longrightarrow> kmem s' a = kmem s a"
  unfolding pt_keeps_def keeps_rest_def by blast

text \<open>What is known of a loaded page: it is in \<open>A\<close>, apart from the tables, and holds its page of the image.\<close>

definition page_loaded :: "mem \<Rightarrow> u64 \<Rightarrow> nat set \<Rightarrow> mem \<Rightarrow> u64 \<Rightarrow> u64 \<Rightarrow> nat \<Rightarrow> u64 \<Rightarrow> bool" where
  "page_loaded m root A m0 img image_size k pg \<longleftrightarrow> pg \<noteq> 0 \<and> 4096 dvd unat pg \<and> page_at pg \<subseteq> A \<and>
     page_at pg \<inter> table_bytes m root = {} \<and> holds_page m pg m0 img image_size k"

lemma page_loaded_keeps:
  assumes "page_loaded (kmem s1) root (F - F1) m0 img image_size k pg" "pt_keeps root s1 F1 s' F'"
  shows "page_loaded (kmem s') root (F - F') m0 img image_size k pg"
proof -
  have out: "a \<notin> F1 \<union> table_bytes (kmem s1) root" if "a \<in> page_at pg" for a
    using that assms(1) by (auto simp: page_loaded_def)
  then have "page_at pg \<inter> (F' \<union> table_bytes (kmem s') root) = {}" using pt_keeps_apart [OF assms(2)] by blast
  moreover have "kmem s' a = kmem s1 a" if "unat a \<in> page_at pg" for a
    using pt_keeps_mem [OF assms(2) out [OF that]] .
  then have "holds_page (kmem s') pg m0 img image_size k = holds_page (kmem s1) pg m0 img image_size k"
    using assms(1) by (intro holds_page_cong) (auto simp: page_loaded_def)
  ultimately show ?thesis using assms(1) by (auto simp: page_loaded_def)
qed

lemma page_loaded_source:
  assumes "page_loaded m root A m1 img image_size k pg" "A \<subseteq> B" "\<And>j. j < unat image_size \<Longrightarrow> m1 (img + of_nat j) = m0 (img + of_nat j)"
  shows "page_loaded m root B m0 img image_size k pg"
proof -
  have "holds_page m pg m1 img image_size k = holds_page m pg m0 img image_size k"
    using assms(1,3) by (intro holds_page_cong) (auto simp: page_loaded_def)
  then show ?thesis using assms(1,2) by (auto simp: page_loaded_def)
qed

lemma image_same:
  assumes "image_apart img image_size (F \<union> table_bytes (kmem s) root)" "pt_keeps root s F s1 F1"
    and "unat img + unat image_size < 2 ^ 64" "j < unat image_size"
  shows "kmem s1 (img + of_nat j) = kmem s (img + of_nat j)"
  using assms(1,3,4) unat_plus_of_nat [of img j] by (intro pt_keeps_mem [OF assms(2)]) (simp add: image_apart_def)

lemma image_apart_keeps:
  "image_apart img image_size (F \<union> table_bytes (kmem s) root) \<Longrightarrow> pt_keeps root s F s1 F1 \<Longrightarrow>
   image_apart img image_size (F1 \<union> table_bytes (kmem s1) root)"
  using pt_keeps_apart unfolding image_apart_def by blast

text \<open>The round for page \<open>k\<close>.\<close>

lemma page_below:
  assumes "k < image_pages image_size" "unat (img :: u64) + unat image_size < 2 ^ 64"
  shows "unat (4096 * of_nat k :: u64) = 4096 * k" "(4096 * of_nat k :: u64) < image_size"
proof -
  have small: "4096 * k < unat image_size" using assms(1) by (simp add: image_pages_iff)
  then show "unat (4096 * of_nat k :: u64) = 4096 * k" using assms(2) by (intro page_offset) simp
  then show "(4096 * of_nat k :: u64) < image_size" using small by (simp add: word_less_nat_alt)
qed

lemma load_page_at:
  assumes "pt_state_of b s root F" "img \<noteq> 0" "unat img + unat image_size < 2 ^ 64"
    and "image_apart img image_size (F \<union> table_bytes (kmem s) root)" "k < image_pages image_size"
    and "load_page root img image_size (4096 * of_nat k) s = Inr s1"
  obtains pg F1 where "pt_state_of b s1 root F1" "pt_keeps root s F s1 F1" "page_loaded (kmem s1) root (F - F1) (kmem s) img image_size k pg"
    "translation (kmem s1) root = (translation (kmem s) root)(mapping_key (user_mapping k pg) \<mapsto> mapping_pte (user_mapping k pg))"
    "tables (kmem s1) root = tables (kmem s) root \<union> walk_tables (USER_BASE + 4096 * of_nat k)"
    "card F = card F1 + 4096 + 4096 * card (walk_tables (USER_BASE + 4096 * of_nat k) - tables (kmem s) root)"
proof -
  note off = page_below [OF assms(5,3)]
  obtain pg F1 where P: "pt_state_of b s1 root F1"
    "translation (kmem s1) root = (translation (kmem s) root)
      (vpns (USER_BASE + 4096 * of_nat k) \<mapsto> pte_leaf pg (PAGE_U OR PAGE_R OR PAGE_W OR PAGE_X))"
    "pt_keeps root s F s1 F1" "page_at pg \<subseteq> F - F1" "page_at pg \<inter> table_bytes (kmem s1) root = {}"
    "pg \<noteq> 0" "4096 dvd unat pg"
    "\<forall>j < 4096. kmem s1 (pg + of_nat j) =
       (if 4096 * k + j < unat image_size then kmem s (img + 4096 * of_nat k + of_nat j) else 0)"
    "tables (kmem s1) root = tables (kmem s) root \<union> walk_tables (USER_BASE + 4096 * of_nat k)"
    "card F = card F1 + 4096 + 4096 * card (walk_tables (USER_BASE + 4096 * of_nat k) - tables (kmem s) root)"
    using load_page_ok [OF assms(1) off(2) assms(2-4,6)] unfolding off(1)
    by - (elim exE conjE, rule that, assumption+)
  have "holds_page (kmem s1) pg (kmem s) img image_size k" using P(8) by (simp add: holds_page_def add.assoc)
  then have "page_loaded (kmem s1) root (F - F1) (kmem s) img image_size k pg" using P(4-7) by (simp add: page_loaded_def)
  moreover have "mapping_key (user_mapping k pg) = vpns (USER_BASE + 4096 * of_nat k)"
    "mapping_pte (user_mapping k pg) = pte_leaf pg (PAGE_U OR PAGE_R OR PAGE_W OR PAGE_X)"
    by (simp_all add: user_mapping_def mapping_key_def mapping_pte_def)
  ultimately show thesis using that [OF P(1,3)] P(2,9,10) by simp
qed

text \<open>The tables that the user pages \<open>k\<close> to \<open>n - 1\<close> need.\<close>

definition user_tables :: "nat \<Rightarrow> nat \<Rightarrow> u64 list set" where
  "user_tables k n = (\<Union>i \<in> {k..<n}. walk_tables (USER_BASE + 4096 * of_nat i))"

lemma finite_user_tables: "finite (user_tables k n)"
  by (simp add: user_tables_def walk_tables_def)

lemma card_user_tables:
  assumes "k < n"
  shows "card (user_tables k n - T) = card (walk_tables (USER_BASE + 4096 * of_nat k) - T) +
    card (user_tables (Suc k) n - (T \<union> walk_tables (USER_BASE + 4096 * of_nat k)))"
proof -
  have "{k..<n} = insert k {Suc k..<n}" using assms by auto
  then have eq: "user_tables k n - T = (walk_tables (USER_BASE + 4096 * of_nat k) - T) \<union>
      (user_tables (Suc k) n - (T \<union> walk_tables (USER_BASE + 4096 * of_nat k)))"
    by (auto simp: user_tables_def)
  show ?thesis unfolding eq by (rule card_Un_disjoint) (auto simp: finite_user_tables walk_tables_def)
qed

lemma run_load_ok:
  assumes "pt_state_of b s root F" "img \<noteq> 0" "unat img + unat image_size < 2 ^ 64"
    and "image_apart img image_size (F \<union> table_bytes (kmem s) root)"
    and "n \<le> image_pages image_size"
    and "run_all (\<lambda>i. load_page root img image_size (4096 * of_nat i)) [k..<n] s = Inr s'"
  shows "\<exists>pgs F'. pt_state_of b s' root F' \<and> length pgs = n - k \<and>
    translation (kmem s') root = translation (kmem s) root ++
      map_of (rev (map (\<lambda>x. (mapping_key x, mapping_pte x)) (map2 user_mapping [k..<n] pgs))) \<and>
    pt_keeps root s F s' F' \<and>
    (\<forall>i < n - k. page_loaded (kmem s') root (F - F') (kmem s) img image_size (k + i) (pgs ! i)) \<and>
    card F = card F' + 4096 * (n - k) + 4096 * card (user_tables k n - tables (kmem s) root)"
  using assms
proof (induction "[k..<n]" arbitrary: k s F)
  case Nil
  then have "n - k = 0" "s' = s" using upt_eq_Nil_conv [of k n] by (auto simp flip: Nil.hyps)
  then show ?case using Nil.prems(1)
    by (intro exI [of _ "[]"] exI [of _ F]) (simp add: pt_keeps_def keeps_rest_def user_tables_def)
next
  case (Cons k' ks)
  have k: "k' = k" "ks = [Suc k..<n]" "k < n" "[k..<n] = k # [Suc k..<n]"
    using Cons.hyps(2) by (metis list.inject upt_eq_Cons_conv upt_rec)+
  obtain s1 where s1: "load_page root img image_size (4096 * of_nat k) s = Inr s1"
    "run_all (\<lambda>i. load_page root img image_size (4096 * of_nat i)) [Suc k..<n] s1 = Inr s'"
    using Cons.prems(6) by (auto simp: k(4) bind_res_Inr_iff)
  have kp: "k < image_pages image_size" using k(3) Cons.prems(5) by simp
  obtain pg F1 where P: "pt_state_of b s1 root F1" "pt_keeps root s F s1 F1" "page_loaded (kmem s1) root (F - F1) (kmem s) img image_size k pg"
    "translation (kmem s1) root = (translation (kmem s) root)(mapping_key (user_mapping k pg) \<mapsto> mapping_pte (user_mapping k pg))"
    "tables (kmem s1) root = tables (kmem s) root \<union> walk_tables (USER_BASE + 4096 * of_nat k)"
    "card F = card F1 + 4096 + 4096 * card (walk_tables (USER_BASE + 4096 * of_nat k) - tables (kmem s) root)"
    by (rule load_page_at [OF Cons.prems(1-4) kp s1(1)])
  obtain pgs F' where R: "pt_state_of b s' root F'" "length pgs = n - Suc k"
    "translation (kmem s') root = translation (kmem s1) root ++
      map_of (rev (map (\<lambda>x. (mapping_key x, mapping_pte x)) (map2 user_mapping [Suc k..<n] pgs)))"
    "pt_keeps root s1 F1 s' F'"
    "\<And>i. i < n - Suc k \<Longrightarrow> page_loaded (kmem s') root (F1 - F') (kmem s1) img image_size (Suc k + i) (pgs ! i)"
    "card F1 = card F' + 4096 * (n - Suc k) + 4096 * card (user_tables (Suc k) n - tables (kmem s1) root)"
    using Cons.hyps(1) [OF k(2) P(1) Cons.prems(2,3) image_apart_keeps [OF Cons.prems(4) P(2)] Cons.prems(5) s1(2)] by blast
  have trans: "translation (kmem s') root = translation (kmem s) root ++
      map_of (rev (map (\<lambda>x. (mapping_key x, mapping_pte x)) (map2 user_mapping [k..<n] (pg # pgs))))"
    using R(3) P(4) by (simp add: k(4) map_of_append map_add_assoc flip: map_add_upd_left)
  have "F1 - F' \<subseteq> F - F'" using P(2) by (auto simp: pt_keeps_def)
  then have later: "page_loaded (kmem s') root (F - F') (kmem s) img image_size (Suc k + i) (pgs ! i)" if "i < n - Suc k" for i
    using page_loaded_source [OF R(5) [OF that]] image_same [OF Cons.prems(4) P(2) Cons.prems(3)] by blast
  have pages: "page_loaded (kmem s') root (F - F') (kmem s) img image_size (k + i) ((pg # pgs) ! i)" if "i < n - k" for i
    using that page_loaded_keeps [OF P(3) R(4)] later [of "i - 1"] by (cases i) auto
  have "card F = card F' + 4096 * (n - k) + 4096 * card (user_tables k n - tables (kmem s) root)"
    using R(6) P(5,6) card_user_tables [OF k(3), of "tables (kmem s) root"] k(3) by simp
  then show ?case
    using R(1,2) trans pt_keeps_trans [OF P(2) R(4)] pages k(3) by (intro exI [of _ "pg # pgs"] exI [of _ F']) auto
qed

section \<open>The first stack frame\<close>

lemma push_zeros_eq:
  assumes "8 * n < 2 ^ 64"
  shows "push_zeros n sp m = (sp - 8 * of_nat n, \<lambda>z. if z \<in> span (sp - 8 * of_nat n) (8 * n) then 0 else m z)"
  using assms
proof (induction n arbitrary: sp m)
  case (Suc n)
  have base: "sp - 8 - 8 * of_nat n = sp - 8 * of_nat (Suc n)" by simp
  have "z \<in> span (sp - 8 * of_nat (Suc n)) (8 * n + 8) \<longleftrightarrow>
      z \<in> span (sp - 8 * of_nat (Suc n)) (8 * n) \<or> z \<in> span (sp - 8) 8" for z
    using in_span_add [of "8 * n" 8 z "sp - 8 * of_nat (Suc n)"] Suc.prems by simp
  moreover have "8 * Suc n = 8 * n + 8" by simp
  ultimately show ?case
    using Suc by (auto simp: base store_le_apply fun_eq_iff simp del: of_nat_Suc mult_Suc_right)
qed simp

text \<open>The frame a context switch finds on the stack of a process that has not run yet.\<close>

definition fresh_frame :: "mem \<Rightarrow> u64 \<Rightarrow> u64 \<Rightarrow> bool" where
  "fresh_frame m sp ra \<longleftrightarrow> load64 m sp = ra \<and> (\<forall>i. 1 \<le> i \<and> i \<le> 12 \<longrightarrow> load64 m (sp + 8 * of_nat i) = 0)"

lemma init_stack_ok:
  assumes "init_stack stk ra m = (sp, m')"
  shows "sp = stk - 104" "fresh_frame m' sp ra" "z \<notin> span (stk - 104) 104 \<Longrightarrow> m' z = m z"
proof -
  let ?z = "\<lambda>z. if z \<in> span (stk - 96) 96 then 0 else m z"
  have eq: "sp = stk - 104" "m' = store64 ?z (stk - 104) ra"
    using assms push_zeros_eq [of 12 stk m] by (auto simp: init_stack_def)
  have in_zero: "a \<in> span (stk - 96) 96"
    if "1 \<le> i" "i \<le> 12" "a \<in> span (stk - 104 + 8 * of_nat i) 8" for a and i :: nat
  proof -
    define x where "x = a - (stk - 104 + 8 * of_nat i)"
    have "unat x < 8" using that(3) by (simp add: span_def x_def)
    moreover have "a - (stk - 96) = x + of_nat (8 * (i - 1))"
      using that(1) by (simp add: x_def of_nat_diff algebra_simps)
    moreover have "unat (x + of_nat (8 * (i - 1))) = unat x + 8 * (i - 1)"
      using \<open>unat x < 8\<close> that(2) by (intro unat_plus_of_nat) simp
    ultimately show ?thesis using that(2) by (simp add: span_def)
  qed
  have apart: "a \<notin> span (stk - 104) 8" if "a \<in> span (stk - 96) 96" for a
    using that span_step_disjoint [of 96 "stk - 104"] by auto
  have "load64 m' (stk - 104 + 8 * of_nat i) = 0" if "1 \<le> i" "i \<le> 12" for i :: nat
  proof -
    have "m' a = 0" if "a \<in> span (stk - 104 + 8 * of_nat i) 8" for a
      using in_zero [OF \<open>1 \<le> i\<close> \<open>i \<le> 12\<close> that] apart by (simp add: eq store64_other)
    then have "load64 m' (stk - 104 + 8 * of_nat i) = load64 (\<lambda>_. 0) (stk - 104 + 8 * of_nat i)" by (intro load64_cong)
    then show ?thesis by (simp add: load_le.simps eval_nat_numeral)
  qed
  moreover have "load64 m' sp = ra" by (simp only: eq load64_store64_same)
  ultimately show "fresh_frame m' sp ra" by (simp add: fresh_frame_def eq)
  show "m' z = m z" if "z \<notin> span (stk - 104) 104"
    using that in_span_add [of 8 96 z "stk - 104"] by (simp add: eq store64_other)
  show "sp = stk - 104" by (rule eq(1))
qed

section \<open>What \<open>create_process\<close> does\<close>

text \<open>
  The kernel stack of slot \<open>i\<close>, and the layout the linker gives: the process table and the image are
  outside the heap, the heap ends below the last page of the address space and below \<open>2 ^ 46\<close>.
\<close>

definition stack_region :: "ksys \<Rightarrow> nat \<Rightarrow> nat set" where
  "stack_region s i = {unat (procs_base s) + 8216 * i + 24 ..< unat (procs_base s) + 8216 * (i + 1)}"

definition layout_ok :: "ksys \<Rightarrow> nat set \<Rightarrow> bool" where
  "layout_ok s F \<longleftrightarrow> length (procs s) = PROCS_MAX \<and> unat (procs_base s) + 8216 * 8 < 2 ^ 64 \<and>
     (\<forall>i < 8. stack_region s i \<inter> F = {}) \<and> unat (heap_end (lib s)) + 4096 \<le> 2 ^ 64 \<and> F \<subseteq> {..< 2 ^ 46}"

definition image_ok :: "ksys \<Rightarrow> nat set \<Rightarrow> u64 \<Rightarrow> u64 \<Rightarrow> bool" where
  "image_ok s F img image_size \<longleftrightarrow> image_size = 0 \<or>
     img \<noteq> 0 \<and> unat img + unat image_size < 2 ^ 64 \<and> unat image_size + 4096 \<le> 2 ^ 64 \<and>
     image_apart img image_size F \<and> (\<forall>i < 8. image_apart img image_size (stack_region s i))"

lemma unat_stack_top:
  assumes "layout_ok s F" "i < 8"
  shows "unat (stack_top s i) = unat (procs_base s) + 8216 * (i + 1)"
proof -
  have "stack_top s i = procs_base s + of_nat (8216 * (i + 1))" by (simp add: stack_top_def)
  then show ?thesis
    using unat_plus_of_nat [of "procs_base s" "8216 * (i + 1)"] assms by (simp add: layout_ok_def)
qed

lemma frame_in_stack:
  assumes "layout_ok s F" "i < 8" "n \<le> 8192" "z \<in> span (stack_top s i - of_nat n) n"
  shows "unat z \<in> stack_region s i"
proof -
  note top = unat_stack_top [OF assms(1,2)]
  have n: "unat (of_nat n :: u64) = n" using assms(3) by (intro unat_of_nat_64) simp
  have "unat (stack_top s i - of_nat n) = unat (stack_top s i) - n"
    using top assms(3) n by (simp add: unat_sub word_le_nat_alt)
  with top assms(3,4) unat_bound(4) [of "stack_top s i"] show ?thesis
    by (auto simp: in_span_iff stack_region_def)
qed

lemma find_unused_Some: "find_unused k ps = Some i \<Longrightarrow> k \<le> i \<and> i < k + length ps \<and> state (ps ! (i - k)) = PROC_UNUSED \<and>
    (\<forall>j < i - k. state (ps ! j) \<noteq> PROC_UNUSED)"
proof (induction k ps rule: find_unused.induct)
  case (2 k p ps)
  show ?case
  proof (cases "state p = PROC_UNUSED")
    case False
    with 2 have "Suc k \<le> i \<and> i < Suc k + length ps \<and> state (ps ! (i - Suc k)) = PROC_UNUSED \<and>
      (\<forall>j < i - Suc k. state (ps ! j) \<noteq> PROC_UNUSED)" by simp
    moreover from this have "i - k = Suc (i - Suc k)" by linarith
    ultimately show ?thesis using False by (auto simp: less_Suc_eq_0_disj)
  qed (use 2 in auto)
qed simp

lemma find_unused_None: "find_unused k ps = None \<longleftrightarrow> (\<forall>j < length ps. state (ps ! j) \<noteq> PROC_UNUSED)"
  by (induction k ps rule: find_unused.induct) (auto simp: less_Suc_eq_0_disj)

lemma may_hang_simps [simp]: "may_hang None = Inl Hang" "may_hang (Some r) = r"
  by (simp_all add: may_hang_def)

definition space_mappings :: "u64 \<Rightarrow> u64 \<Rightarrow> u64 list \<Rightarrow> mapping list" where
  "space_mappings kb he pgs = kernel_mappings kb he @ device_mappings @ map2 user_mapping [0..<length pgs] pgs"

definition space_of :: "mapping list \<Rightarrow> u64 \<times> u64 \<times> u64 \<Rightarrow> u64 option" where
  "space_of xs = map_of (rev (map (\<lambda>x. (mapping_key x, mapping_pte x)) xs))"

lemma stack_keeps_inv:
  assumes "layout_ok s F" "alloc_inv b (lib s) F" "i < 8" "init_stack (stack_top s i) ra (kmem (lib s)) = (sp, m)"
  shows "alloc_inv b ((lib s)\<lparr>kmem := m\<rparr>) F"
proof -
  have "m a = kmem (lib s) a" if "unat a \<in> F" for a
    using that frame_in_stack [OF assms(1,3), of 104 a] assms(1,3) init_stack_ok(3) [OF assms(4), of a] by (auto simp: layout_ok_def)
  then show ?thesis by (intro pages.inv_frame [OF assms(2)]) auto
qed

text \<open>
  The state after the stack is set up and the root table allocated, and what the three loops make of
  it: \<open>k2\<close> has the kernel and device pages, \<open>k3\<close> the user pages too.
\<close>

lemma create_processE:
  assumes lay: "layout_ok s F" "alloc_inv b (lib s) F" and c: "create_process img image_size s = Inr (i, s')"
    and size: "image_size = 0 \<or> unat image_size + 4096 \<le> 2 ^ 64"
  obtains m root k1 k2 k3 where "find_unused 0 (procs s) = Some i" "i < 8"
    "init_stack (stack_top s i) (user_entry_pc s) (kmem (lib s)) = (stack_top s i - 104, m)"
    "alloc_inv b ((lib s)\<lparr>kmem := m\<rparr>) F"
    "kalloc 1 ((lib s)\<lparr>kmem := m\<rparr>) = Inr (root, k1)"
    "run_all (map_one root) (kernel_mappings (kernel_base s) (heap_end (lib s)) @ device_mappings) k1 = Inr k2"
    "run_all (\<lambda>i. load_page root img image_size (4096 * of_nat i)) [0..<image_pages image_size] k2 = Inr k3"
    "s' = s\<lparr>lib := k3, procs := (procs s)[i := \<lparr>pid = of_nat (i + 1), state = PROC_RUNNABLE, psp = stack_top s i - 104, page_table = root\<rparr>]\<rparr>"
proof -
  obtain j where slot: "find_unused 0 (procs s) = Some j"
    using c by (auto simp: create_process_def split: option.splits)
  have j8: "j < 8" using find_unused_Some [OF slot] lay(1) by (simp add: layout_ok_def PROCS_MAX_def)
  obtain sp m where stk: "init_stack (stack_top s j) (user_entry_pc s) (kmem (lib s)) = (sp, m)"
    by (cases "init_stack (stack_top s j) (user_entry_pc s) (kmem (lib s))")
  note I = init_stack_ok [OF stk]
  from c slot stk obtain root k1 k1' k2 k3 where
    run: "kalloc 1 ((lib s)\<lparr>kmem := m\<rparr>) = Inr (root, k1)"
    "may_hang (map_kernel root (kernel_base s) k1) = Inr k1'" "map_devices root k1' = Inr k2"
    "may_hang (load_image root img image_size 0 k2) = Inr k3" "i = j"
    "s' = s\<lparr>lib := k3, procs := (procs s)[j := \<lparr>pid = of_nat (j + 1), state = PROC_RUNNABLE, psp = sp, page_table = root\<rparr>]\<rparr>"
    by (auto simp: create_process_def bind_res_Inr_iff)
  note inv = stack_keeps_inv [OF lay j8 stk]
  have F46: "F \<subseteq> {..< 2 ^ 46}" using lay(1) by (simp add: layout_ok_def)
  have he: "heap_end k1 = heap_end (lib s)" using pages_alloc_frame [OF inv run(1)] by simp
  have K: "map_kernel root (kernel_base s) k1 =
      Some (run_all (map_one root) (kernel_mappings (kernel_base s) (heap_end (lib s))) k1)"
    using map_kernel_run [OF fresh_root(1) [OF inv F46 run(1)], of "kernel_base s"] lay(1) he by (simp add: layout_ok_def)
  have L: "load_image root img image_size 0 k2 =
      Some (run_all (\<lambda>i. load_page root img image_size (4096 * of_nat i)) [0..<image_pages image_size] k2)"
  proof (cases "image_size = 0")
    case True
    then show ?thesis by (subst load_image.simps) (simp add: image_pages_def)
  next
    case False
    then show ?thesis using load_image_run [of image_size 0 root img k2] size by simp
  qed
  show thesis
  proof (rule that)
    show "run_all (map_one root) (kernel_mappings (kernel_base s) (heap_end (lib s)) @ device_mappings) k1 = Inr k2"
      using run(2,3) by (simp add: K run_all_append map_devices_run)
    show "run_all (\<lambda>i. load_page root img image_size (4096 * of_nat i)) [0..<image_pages image_size] k2 = Inr k3"
      using run(4) by (simp add: L)
  qed (use slot j8 stk I(1) inv run in simp_all)
qed

definition mapping_tables :: "mapping list \<Rightarrow> u64 list set" where
  "mapping_tables xs = (\<Union>x \<in> set xs. mapping_need x)"

definition space_tables :: "u64 \<Rightarrow> u64 \<Rightarrow> nat \<Rightarrow> u64 list set" where
  "space_tables kb he n = mapping_tables (kernel_mappings kb he @ device_mappings) \<union> user_tables 0 n"

text \<open>Root, user pages and tables: what a process takes out of the free memory.\<close>

definition space_cost :: "u64 \<Rightarrow> u64 \<Rightarrow> nat \<Rightarrow> nat" where
  "space_cost kb he n = 4096 * (1 + n + card (space_tables kb he n))"

lemma mapping_tables_need: "mapping_tables xs = mapper.need_all mapping_need xs"
  unfolding mapping_tables_def pt.need_all_def ..

lemma finite_mapping_tables: "finite (mapping_tables xs)"
  unfolding mapping_tables_need by (rule pt.finite_need_all)

lemma need_nonempty: "[] \<notin> mapping_tables xs" "[] \<notin> user_tables k n"
  by (auto simp: mapping_tables_def mapping_need_def user_tables_def walk_tables_def split: prod.splits)

lemma card_space_tables:
  "card (space_tables kb he n) = card (mapping_tables (kernel_mappings kb he @ device_mappings)) +
     card (user_tables 0 n - mapping_tables (kernel_mappings kb he @ device_mappings))" (is "_ = card ?T + _")
proof -
  have eq: "space_tables kb he n = ?T \<union> (user_tables 0 n - ?T)"
    by (auto simp: space_tables_def)
  show ?thesis unfolding eq by (rule card_Un_disjoint) (auto simp: finite_mapping_tables finite_user_tables)
qed

text \<open>
  The bytes a new process owns came out of the free memory: its tables and its user pages. Memory
  that was neither free nor on the new stack is untouched.
\<close>

definition owned_bytes :: "mem \<Rightarrow> u64 \<Rightarrow> u64 list \<Rightarrow> nat set" where
  "owned_bytes m root pgs = table_bytes m root \<union> (\<Union>pg \<in> set pgs. page_at pg)"

text \<open>A new root table with the kernel and device pages, and the user pages on top of it.\<close>

lemma kernel_part:
  fixes kb he :: u64 and k2 :: kst
  defines "ks \<equiv> kernel_mappings kb he @ device_mappings"
  assumes inv: "alloc_inv b k F" "F \<subseteq> {..< 2 ^ 46}" "kalloc 1 k = Inr (root, k1)" and run: "run_all (map_one root) ks k1 = Inr k2"
  obtains F2 where "pt_state_of b k2 root F2" "translation (kmem k2) root = space_of ks" "pt_keeps root k1 (F - page_at root) k2 F2"
    "\<forall>n. user_tables 0 n - tables (kmem k2) root = user_tables 0 n - mapping_tables ks"
    "card F = card F2 + 4096 + 4096 * card (mapping_tables ks)" "\<forall>a. a \<notin> F \<longrightarrow> a \<notin> F2 \<union> table_bytes (kmem k2) root"
proof -
  note R = fresh_root [OF inv] and A = pages.alloc_page [OF inv(1,3)]
  let ?T = "mapping_tables ks"
  have need1: "?T - tables (kmem k1) root = ?T" unfolding ks_def using R(4) need_nonempty(1) by auto
  obtain F2 where F2: "pt_state_of b k2 root F2" "translation (kmem k2) root = space_of ks" "pt_keeps root k1 (F - page_at root) k2 F2"
    "tables (kmem k2) root = tables (kmem k1) root \<union> ?T" "card (F - page_at root) = card F2 + 4096 * card ?T"
    using pt.run_all_view [OF R(1) run] need1 unfolding mapping_tables_need [symmetric] by (auto simp: R(2) space_of_def)
  have "card (F - page_at root) + 4096 = card F" using pages.alloc_card [OF inv(1,3)] finite_subset [OF inv(2)] by simp
  moreover have "a \<notin> F2 \<union> table_bytes (kmem k2) root" if "a \<notin> F" for a
    using that pt_keeps_apart [OF F2(3), of a] R(3) A by auto
  moreover have "user_tables 0 n - tables (kmem k2) root = user_tables 0 n - ?T" for n
    using F2(4) R(4) need_nonempty(2) by auto
  ultimately show thesis using that [OF F2(1-3)] F2(5) by simp
qed

lemma user_part:
  assumes st: "pt_state_of b k2 root F2" and apart: "\<forall>a. a \<notin> F \<longrightarrow> a \<notin> F2 \<union> table_bytes (kmem k2) root"
    and img: "image_size = 0 \<or> img \<noteq> 0 \<and> unat img + unat image_size < 2 ^ 64 \<and> image_apart img image_size F"
    and run: "run_all (\<lambda>i. load_page root img image_size (4096 * of_nat i)) [0..<image_pages image_size] k2 = Inr k3"
  obtains pgs F3 where "pt_state_of b k3 root F3" "length pgs = image_pages image_size"
    "translation (kmem k3) root = translation (kmem k2) root ++
      map_of (rev (map (\<lambda>x. (mapping_key x, mapping_pte x)) (map2 user_mapping [0..<image_pages image_size] pgs)))"
    "pt_keeps root k2 F2 k3 F3"
    "\<forall>k < image_pages image_size. page_loaded (kmem k3) root (F2 - F3) (kmem k2) img image_size k (pgs ! k)"
    "card F2 = card F3 + 4096 * image_pages image_size + 4096 * card (user_tables 0 (image_pages image_size) - tables (kmem k2) root)"
proof (cases "image_size = 0")
  case True
  then have "k3 = k2" "image_pages image_size = 0" using run by (auto simp: image_pages_def)
  then show ?thesis using that [of F2 "[]"] st by (simp add: pt_keeps_def keeps_rest_def user_tables_def)
next
  case False
  have "image_apart img image_size (F2 \<union> table_bytes (kmem k2) root)"
    using img False apart unfolding image_apart_def by metis
  then show ?thesis using run_load_ok [OF st _ _ _ order_refl run] img False that by auto
qed

lemma fresh_frame_cong: "fresh_frame m sp ra \<Longrightarrow> (\<And>x. x \<in> span sp 104 \<Longrightarrow> m' x = m x) \<Longrightarrow> fresh_frame m' sp ra"
proof -
  assume A: "fresh_frame m sp ra" and eq: "\<And>x. x \<in> span sp 104 \<Longrightarrow> m' x = m x"
  have same: "load64 m' (sp + 8 * of_nat j) = load64 m (sp + 8 * of_nat j)" if j: "j \<le> 12" for j :: nat
  proof (rule load64_cong)
    fix x assume "x \<in> span (sp + 8 * of_nat j) 8"
    then have "x \<in> span sp (8 * j + 8)" using in_span_add [of "8 * j" 8 x sp] j by simp
    then show "m' x = m x" using eq span_mono [of "8 * j + 8" 104] j by auto
  qed
  then show ?thesis using A same [of 0] by (simp add: fresh_frame_def)
qed

lemma image_outside:
  assumes "image_ok s F img image_size" "i < 8" "j < unat image_size"
  shows "unat (img + of_nat j) \<notin> F \<and> unat (img + of_nat j) \<notin> stack_region s i"
proof -
  have "image_size \<noteq> 0" using assms(3) by auto
  moreover from this have "unat (img + of_nat j) = unat img + j"
    using assms by (intro unat_plus_of_nat) (auto simp: image_ok_def)
  ultimately show ?thesis using assms by (auto simp: image_ok_def image_apart_def)
qed

lemma create_process_ok:
  assumes lay: "layout_ok s F" "alloc_inv b (lib s) F" and img: "image_ok s F img image_size"
    and c: "create_process img image_size s = Inr (i, s')"
  obtains root pgs F' where "find_unused 0 (procs s) = Some i"
    "s' = s\<lparr>lib := lib s', procs := (procs s)[i := \<lparr>pid = of_nat (i + 1), state = PROC_RUNNABLE, psp = stack_top s i - 104, page_table = root\<rparr>]\<rparr>"
    "fresh_frame (kmem (lib s')) (stack_top s i - 104) (user_entry_pc s)"
    "pt_state_of b (lib s') root F'" "F' \<subseteq> F" "heap_end (lib s') = heap_end (lib s)" "console (lib s') = console (lib s)"
    "translation (kmem (lib s')) root = space_of (space_mappings (kernel_base s) (heap_end (lib s)) pgs)"
    "length pgs = image_pages image_size"
    "\<And>k. k < length pgs \<Longrightarrow> pgs ! k \<noteq> 0 \<and> 4096 dvd unat (pgs ! k) \<and> page_at (pgs ! k) \<inter> table_bytes (kmem (lib s')) root = {} \<and>
      holds_page (kmem (lib s')) (pgs ! k) (kmem (lib s)) img image_size k"
    "owned_bytes (kmem (lib s')) root pgs \<subseteq> F - F'"
    "\<And>a. unat a \<notin> F \<Longrightarrow> unat a \<notin> stack_region s i \<Longrightarrow> kmem (lib s') a = kmem (lib s) a"
    "card F = card F' + space_cost (kernel_base s) (heap_end (lib s)) (image_pages image_size)"
proof -
  have "image_size = 0 \<or> unat image_size + 4096 \<le> 2 ^ 64" using img by (auto simp: image_ok_def)
  from create_processE [OF lay c this]
  obtain m root k1 k2 k3 where E: "find_unused 0 (procs s) = Some i" "i < 8"
    "init_stack (stack_top s i) (user_entry_pc s) (kmem (lib s)) = (stack_top s i - 104, m)"
    "alloc_inv b ((lib s)\<lparr>kmem := m\<rparr>) F"
    "kalloc 1 ((lib s)\<lparr>kmem := m\<rparr>) = Inr (root, k1)"
    "run_all (map_one root) (kernel_mappings (kernel_base s) (heap_end (lib s)) @ device_mappings) k1 = Inr k2"
    "run_all (\<lambda>i. load_page root img image_size (4096 * of_nat i)) [0..<image_pages image_size] k2 = Inr k3"
    "s' = s\<lparr>lib := k3, procs := (procs s)[i := \<lparr>pid = of_nat (i + 1), state = PROC_RUNNABLE, psp = stack_top s i - 104, page_table = root\<rparr>]\<rparr>"
    .
  have F46: "F \<subseteq> {..< 2 ^ 46}" and region: "stack_region s i \<inter> F = {}" using lay(1) E(2) by (simp_all add: layout_ok_def)
  note I = init_stack_ok [OF E(3)] and A = pages.alloc_page [OF E(4,5)] and fr = pages_alloc_frame [OF E(4,5)]
    and R = fresh_root [OF E(4) F46 E(5)]
  let ?ks = "kernel_mappings (kernel_base s) (heap_end (lib s)) @ device_mappings" and ?F1 = "F - page_at root" and ?n = "image_pages image_size"
  obtain F2 where F2: "pt_state_of b k2 root F2" "translation (kmem k2) root = space_of ?ks" "pt_keeps root k1 ?F1 k2 F2"
    "\<forall>n. user_tables 0 n - tables (kmem k2) root = user_tables 0 n - mapping_tables ?ks"
    "card F = card F2 + 4096 + 4096 * card (mapping_tables ?ks)" "\<forall>a. a \<notin> F \<longrightarrow> a \<notin> F2 \<union> table_bytes (kmem k2) root"
    by (rule kernel_part [OF E(4) F46 E(5,6)])
  have img': "image_size = 0 \<or> img \<noteq> 0 \<and> unat img + unat image_size < 2 ^ 64 \<and> image_apart img image_size F"
    using img by (auto simp: image_ok_def)
  obtain pgs F3 where F3: "pt_state_of b k3 root F3" "length pgs = ?n"
    "translation (kmem k3) root = translation (kmem k2) root ++
      map_of (rev (map (\<lambda>x. (mapping_key x, mapping_pte x)) (map2 user_mapping [0..<?n] pgs)))"
    "pt_keeps root k2 F2 k3 F3"
    "\<forall>k < ?n. page_loaded (kmem k3) root (F2 - F3) (kmem k2) img image_size k (pgs ! k)"
    "card F2 = card F3 + 4096 * ?n + 4096 * card (user_tables 0 ?n - tables (kmem k2) root)"
    by (rule user_part [OF F2(1,6) img' E(7)])
  have keep: "pt_keeps root k1 ?F1 k3 F3" by (rule pt_keeps_trans [OF F2(3) F3(4)])
  have old: "kmem k a = m a" if "unat a \<notin> F" "pt_keeps root k1 ?F1 k F''" for a k F''
    using that(1) pt_keeps_mem [OF that(2), of a] pages.alloc_keeps [OF E(4,5) that(1)] R(3) A by auto
  have frame: "unat a \<in> stack_region s i" if "a \<in> span (stack_top s i - 104) 104" for a
    using frame_in_stack [OF lay(1) E(2), of 104 a] that by simp
  have image: "kmem k2 (img + of_nat j) = kmem (lib s) (img + of_nat j)" if "j < unat image_size" for j
    using image_outside [OF img E(2) that] old [OF _ F2(3)] frame I(3) by metis
  have loaded: "page_loaded (kmem (lib s')) root (F - F3) (kmem (lib s)) img image_size k (pgs ! k)" if "k < length pgs" for k
    using page_loaded_source [OF F3(5) [rule_format] _ image] that F2(3) F3(2) by (simp add: E(8)) (meson Diff_mono Diff_subset order_refl pt_keeps_def subset_trans)
  then have "page_at pg \<subseteq> F - F3" if "pg \<in> set pgs" for pg
    using that unfolding in_set_conv_nth page_loaded_def by blast
  moreover have "table_bytes (kmem k3) root \<subseteq> F - F3"
    using keep R(3) A table_bytes_not_free [of "kmem k3" root F3] F3(1) by (auto simp: pt_keeps_def pt_state_of_def)
  ultimately have owned: "owned_bytes (kmem (lib s')) root pgs \<subseteq> F - F3" by (auto simp: owned_bytes_def E(8))
  show thesis
  proof (rule that [of root F3 pgs])
    show "fresh_frame (kmem (lib s')) (stack_top s i - 104) (user_entry_pc s)"
      unfolding E(8) using frame region by (auto intro!: fresh_frame_cong [OF I(2)] old [OF _ keep])
    show "translation (kmem (lib s')) root = space_of (space_mappings (kernel_base s) (heap_end (lib s)) pgs)"
      using F3(2,3) F2(2) by (simp add: E(8) space_of_def space_mappings_def map_of_append map_add_assoc)
    show "card F = card F3 + space_cost (kernel_base s) (heap_end (lib s)) ?n"
      using F2(4,5) F3(6) by (simp add: space_cost_def card_space_tables)
    show "kmem (lib s') a = kmem (lib s) a" if "unat a \<notin> F" "unat a \<notin> stack_region s i" for a
      using old [OF that(1) keep] I(3) frame that(2) by (auto simp: E(8))
  qed (use E F3(1,2) loaded owned keep fr in \<open>auto simp: page_loaded_def pt_keeps_def keeps_rest_def\<close>)
qed

section \<open>When \<open>create_process\<close> succeeds\<close>

lemma aligned_add: "4096 dvd unat (a :: u64) \<Longrightarrow> 4096 dvd unat (a + 4096 * of_nat i)"
proof -
  assume "4096 dvd unat a"
  moreover have "4096 dvd unat (4096 * of_nat i :: u64)"
    by (simp add: unat_word_ariths dvd_mod)
  ultimately show ?thesis by (simp add: unat_word_ariths dvd_mod)
qed

lemma flags_allowed: "(PAGE_R OR PAGE_W OR PAGE_X) AND 0xe \<noteq> 0" "(PAGE_R OR PAGE_W) AND 0xe \<noteq> 0"
  "(PAGE_U OR PAGE_R OR PAGE_W OR PAGE_X) AND 0xe \<noteq> 0"
  by (simp_all add: PAGE_R_def PAGE_W_def PAGE_X_def PAGE_U_def)

lemma kernel_mappings_good: "4096 dvd unat p \<Longrightarrow> x \<in> set (kernel_mappings p e) \<Longrightarrow> mapping_good x"
  by (auto simp: kernel_mappings_def mapping_good_def flags_allowed aligned_add)

lemma device_mappings_good: "x \<in> set device_mappings \<Longrightarrow> mapping_good x"
  using aligned_add [of VIRTIO_PADDR]
  by (auto simp: device_mappings_def device_mapping_def mapping_good_def flags_allowed Let_def VIRTIO_PADDR_def)

lemma load_page_total:
  assumes st: "pt_state_of b s root F" and off: "off < image_size" and "4096 dvd unat (USER_BASE + off)"
    and img: "img \<noteq> 0" "unat img + unat image_size < 2 ^ 64"
      "image_apart img image_size (F \<union> table_bytes (kmem s) root)"
    and enough: "4096 + 4096 * card (walk_tables (USER_BASE + off) - tables (kmem s) root) \<le> card F"
  shows "\<exists>s'. load_page root img image_size off s = Inr s'"
proof -
  have S: "alloc_inv b s F" "F \<subseteq> {..< 2 ^ 46}" using st by (simp_all add: pt_state_of_def)
  have "0 < card F" using enough by simp
  then obtain pg s1 where alloc: "kalloc 1 s = Inr (pg, s1)" by (rule pages.alloc_enough [OF S(1)])
  note A = pages.alloc_page [OF S(1) alloc]
  obtain m where m: "memcpy (kmem s1) pg (img + off) (chunk image_size off) = Inr m" "pt_state_of b (s1\<lparr>kmem := m\<rparr>) root (F - page_at pg)"
    "tables m root = tables (kmem s) root"
    by (rule filled_page [OF st off img alloc])
  have "card (F - page_at pg) + 4096 = card F" using pages.alloc_card [OF S(1) alloc] finite_subset [OF S(2)] by simp
  then have "\<exists>s'. map_page root (USER_BASE + off) pg (PAGE_U OR PAGE_R OR PAGE_W OR PAGE_X) (s1\<lparr>kmem := m\<rparr>) = Inr s'"
    using enough A m(3) by (intro map_page_total [OF m(2)] assms(3) flags_allowed(3)) auto
  then show ?thesis using alloc m(1) by (auto simp: load_page_def Let_def)
qed

lemma run_load_total:
  assumes "pt_state_of b s root F" "img \<noteq> 0" "unat img + unat image_size < 2 ^ 64"
    and "image_apart img image_size (F \<union> table_bytes (kmem s) root)"
    and "n \<le> image_pages image_size"
    and "4096 * (n - k) + 4096 * card (user_tables k n - tables (kmem s) root) \<le> card F"
  shows "\<exists>s'. run_all (\<lambda>i. load_page root img image_size (4096 * of_nat i)) [k..<n] s = Inr s'"
  using assms
proof (induction "n - k" arbitrary: k s F)
  case (Suc d)
  then have k: "k < n" "[k..<n] = k # [Suc k..<n]" by (simp_all add: upt_conv_Cons)
  let ?off = "4096 * of_nat k :: u64"
  have kp: "k < image_pages image_size" using k(1) Suc.prems(5) by simp
  note less = page_below(2) [OF kp Suc.prems(3)]
  have al: "4096 dvd unat (USER_BASE + ?off)" by (rule aligned_add) (simp add: USER_BASE_def)
  note C = card_user_tables [OF k(1), of "tables (kmem s) root"]
  have "4096 + 4096 * card (walk_tables (USER_BASE + ?off) - tables (kmem s) root) \<le> card F"
    using Suc.prems(6) C k(1) by simp
  from load_page_total [OF Suc.prems(1) less al Suc.prems(2-4) this]
  obtain s1 where s1: "load_page root img image_size ?off s = Inr s1" by blast
  obtain F1 where F1: "pt_state_of b s1 root F1" "pt_keeps root s F s1 F1"
    "tables (kmem s1) root = tables (kmem s) root \<union> walk_tables (USER_BASE + ?off)"
    "card F = card F1 + 4096 + 4096 * card (walk_tables (USER_BASE + ?off) - tables (kmem s) root)"
    by (rule load_page_at [OF Suc.prems(1-4) kp s1])
  note image_apart_keeps [OF Suc.prems(4) F1(2)]
  moreover have "4096 * (n - Suc k) + 4096 * card (user_tables (Suc k) n - tables (kmem s1) root) \<le> card F1"
    using Suc.prems(6) C F1(3,4) k(1) by simp
  ultimately have "\<exists>s'. run_all (\<lambda>i. load_page root img image_size (4096 * of_nat i)) [Suc k..<n] s1 = Inr s'"
    using Suc.hyps(2) by (intro Suc.hyps(1) [OF _ F1(1) Suc.prems(2,3) _ Suc.prems(5)]) auto
  then show ?case using s1 by (simp add: k(2))
qed simp

lemma user_part_total:
  assumes st: "pt_state_of b k2 root F2" and apart: "\<forall>a. a \<notin> F \<longrightarrow> a \<notin> F2 \<union> table_bytes (kmem k2) root"
    and img: "image_size = 0 \<or> img \<noteq> 0 \<and> unat img + unat image_size < 2 ^ 64 \<and> unat image_size + 4096 \<le> 2 ^ 64 \<and> image_apart img image_size F"
    and enough: "4096 * image_pages image_size + 4096 * card (user_tables 0 (image_pages image_size) - tables (kmem k2) root) \<le> card F2"
  shows "\<exists>k3. load_image root img image_size 0 k2 = Some (Inr k3)"
proof (cases "image_size = 0")
  case True
  then show ?thesis by (subst load_image.simps) simp
next
  case False
  then have "image_apart img image_size (F2 \<union> table_bytes (kmem k2) root)" using img apart unfolding image_apart_def by metis
  then obtain k3 where "run_all (\<lambda>i. load_page root img image_size (4096 * of_nat i)) [0..<image_pages image_size] k2 = Inr k3"
    using run_load_total [OF st, of img image_size "image_pages image_size" 0] img False enough by auto
  then show ?thesis using load_image_run [of image_size 0 root img k2] img False by simp
qed

lemma create_process_total:
  assumes lay: "layout_ok s F" "alloc_inv b (lib s) F" and img: "image_ok s F img image_size"
    and base: "4096 dvd unat (kernel_base s)" and free: "find_unused 0 (procs s) = Some i"
    and enough: "space_cost (kernel_base s) (heap_end (lib s)) (image_pages image_size) \<le> card F"
  shows "\<exists>s'. create_process img image_size s = Inr (i, s')"
proof -
  let ?n = "image_pages image_size"
  have i8: "i < 8" using find_unused_Some [OF free] lay(1) by (simp add: layout_ok_def PROCS_MAX_def)
  have F46: "F \<subseteq> {..< 2 ^ 46}" using lay(1) by (simp add: layout_ok_def)
  obtain sp m where stk: "init_stack (stack_top s i) (user_entry_pc s) (kmem (lib s)) = (sp, m)"
    by (cases "init_stack (stack_top s i) (user_entry_pc s) (kmem (lib s))")
  note inv = stack_keeps_inv [OF lay i8 stk]
  have "0 < card F" using enough by (simp add: space_cost_def)
  then obtain root k1 where alloc: "kalloc 1 ((lib s)\<lparr>kmem := m\<rparr>) = Inr (root, k1)"
    by (rule pages.alloc_enough [OF inv])
  note R = fresh_root [OF inv F46 alloc]
  let ?ks = "kernel_mappings (kernel_base s) (heap_end (lib s)) @ device_mappings"
  let ?T = "mapping_tables ?ks" and ?F1 = "F - page_at root"
  have "card ?F1 + 4096 = card F" using pages.alloc_card [OF inv alloc] finite_subset [OF F46] by simp
  then have cost: "4096 * card ?T + 4096 * ?n + 4096 * card (user_tables 0 ?n - ?T) \<le> card ?F1"
    using enough card_space_tables [of "kernel_base s" "heap_end (lib s)" ?n] by (simp add: space_cost_def)
  have need1: "?T - tables (kmem k1) root = ?T" using R(4) need_nonempty(1) by auto
  have good: "mapping_good x" if "x \<in> set ?ks" for x
    using that by (auto dest: kernel_mappings_good [OF base] device_mappings_good)
  have "\<exists>k2. run_all (map_one root) ?ks k1 = Inr k2"
    using cost need1 by (intro pt.run_all_total [OF R(1) good]) (simp_all add: mapping_tables_need)
  then obtain k2 where k2: "run_all (map_one root) ?ks k1 = Inr k2" by blast
  obtain F2 where F2: "pt_state_of b k2 root F2" "\<forall>n. user_tables 0 n - tables (kmem k2) root = user_tables 0 n - ?T"
    "card F = card F2 + 4096 + 4096 * card ?T" "\<forall>a. a \<notin> F \<longrightarrow> a \<notin> F2 \<union> table_bytes (kmem k2) root"
    by (rule kernel_part [OF inv F46 alloc k2])
  have "\<exists>k3. load_image root img image_size 0 k2 = Some (Inr k3)"
    using img cost F2(2,3) \<open>card ?F1 + 4096 = card F\<close> by (intro user_part_total [OF F2(1,4)]) (auto simp: image_ok_def)
  moreover have "map_kernel root (kernel_base s) k1 =
      Some (run_all (map_one root) (kernel_mappings (kernel_base s) (heap_end (lib s))) k1)"
    using map_kernel_run [OF R(1), of "kernel_base s"] lay(1) pages_alloc_frame [OF inv alloc] by (simp add: layout_ok_def)
  ultimately show ?thesis
    using free stk alloc k2 by (auto simp: create_process_def run_all_append map_devices_run bind_res_Inr_iff)
qed

text \<open>The same for an allocator of which only consistency is known.\<close>

lemmas create_process_plain = create_process_ok [where b = False, unfolded alloc_inv_False]
lemmas create_process_plain_total = create_process_total [where b = False, unfolded alloc_inv_False]

end
