(* ===== verification/Switch.thy ===== *)
theory Switch
  imports Proc_Space
begin

text \<open>
  The context switch. A switch stores thirteen registers below the stack pointer of the process that
  leaves and loads them from the stack of the process that comes; \<open>saved_frame\<close> says that memory
  holds a register file that way, and the lemmas show that a process gets its registers back and
  that a process that has never run starts in \<open>user_entry\<close>.
\<close>

lemma callee_saved_facts: "distinct callee_saved" "length callee_saved = 13" "SP \<notin> set callee_saved" "RA \<in> set callee_saved"
  by (simp_all add: callee_saved_def)

abbreviation saved_frame :: "mem \<Rightarrow> u64 \<Rightarrow> (reg \<Rightarrow> u64) \<Rightarrow> bool" where
  "saved_frame m sp r \<equiv> reg_frame m sp callee_saved r"

lemma saved_frame_cong:
  assumes "saved_frame m sp r" "\<And>z. z \<in> span sp 104 \<Longrightarrow> m' z = m z"
  shows "saved_frame m' sp r"
  by (rule reg_frame_cong [OF assms(1)]) (simp_all add: callee_saved_facts assms(2))

lemma save_regs_frame: "saved_frame (save_regs sp callee_saved r m) sp r"
  by (rule reg_frame_saved) (simp add: callee_saved_facts)

lemmas load_saved_frame = load_reg_frame [OF _ callee_saved_facts(1)]

text \<open>A switch away from \<open>p\<close>.\<close>

lemma switch_saves:
  assumes "p < length (procs s)" "p \<noteq> n"
  defines "sp \<equiv> regs (hart s) SP - 104"
  shows "psp (procs (switch_context p n s) ! p) = sp"
    "saved_frame (kmem (lib (switch_context p n s))) sp (regs (hart s))"
    "z \<notin> span sp 104 \<Longrightarrow> kmem (lib (switch_context p n s)) z = kmem (lib s) z"
  using assms save_regs_frame [of sp "regs (hart s)"] save_regs_other [of callee_saved z sp]
  by (simp_all add: switch_context_def Let_def callee_saved_facts)

lemma switch_context_other:
  "z \<notin> span (regs (hart s) SP - 104) 104 \<Longrightarrow> kmem (lib (switch_context p n s)) z = kmem (lib s) z"
  using save_regs_other [of callee_saved z] by (simp add: switch_context_def Let_def callee_saved_facts)

lemma span_below: "z \<in> span f 248 \<Longrightarrow> z \<notin> span (f - 104) 104"
proof -
  assume "z \<in> span f 248"
  then have "unat (z - f) < 248" by (simp add: span_def)
  then have "unat (z - f + of_nat 104) = unat (z - f) + 104" by (intro unat_plus_of_nat) simp
  moreover have "z - (f - 104) = z - f + of_nat 104" by simp
  ultimately have "unat (z - (f - 104)) = unat (z - f) + 104" by (simp only:)
  then show ?thesis unfolding span_def by simp
qed

text \<open>A switch to \<open>n\<close>, whose frame is not where the leaving process saves its own.\<close>

lemma switch_restores:
  assumes "n < length (procs s)" "p \<noteq> n" "saved_frame (kmem (lib s)) (psp (procs s ! n)) r"
    and "span (regs (hart s) SP - 104) 104 \<inter> span (psp (procs s ! n)) 104 = {}"
  shows "y \<in> set callee_saved \<Longrightarrow> regs (hart (switch_context p n s)) y = r y"
    "regs (hart (switch_context p n s)) SP = psp (procs s ! n) + 104"
    "pc (hart (switch_context p n s)) = r RA"
proof -
  let ?m = "save_regs (regs (hart s) SP - 104) callee_saved (regs (hart s)) (kmem (lib s))"
  have "saved_frame ?m (psp (procs s ! n)) r"
    using assms(4) by (intro saved_frame_cong [OF assms(3)] save_regs_other) (auto simp: callee_saved_facts)
  note L = load_saved_frame [OF this]
  have n: "(procs s)[p := x] ! n = procs s ! n" for x using assms(2) by simp
  show "regs (hart (switch_context p n s)) y = r y" if "y \<in> set callee_saved"
    using that L callee_saved_facts(3) by (auto simp: switch_context_def Let_def n)
  show "regs (hart (switch_context p n s)) SP = psp (procs s ! n) + 104"
    by (simp add: switch_context_def Let_def n)
  show "pc (hart (switch_context p n s)) = r RA"
    using L callee_saved_facts(4) by (simp add: switch_context_def Let_def n)
qed

text \<open>The frame that \<open>create_process\<close> leaves is the saved frame of a process about to enter \<open>user_entry\<close>.\<close>

definition start_regs :: "u64 \<Rightarrow> reg \<Rightarrow> u64" where
  "start_regs ra r = (if r = RA then ra else 0)"

lemma fresh_saved_frame: "fresh_frame m sp ra \<Longrightarrow> saved_frame m sp (start_regs ra)"
  unfolding reg_frame_def fresh_frame_def callee_saved_facts
proof (intro allI impI)
  fix i :: nat assume A: "load64 m sp = ra \<and> (\<forall>i. 1 \<le> i \<and> i \<le> 12 \<longrightarrow> load64 m (sp + 8 * of_nat i) = 0)" "i < 13"
  show "load64 m (sp + 8 * of_nat i) = start_regs ra (callee_saved ! i)"
  proof (cases "i = 0")
    case False
    have "callee_saved ! i \<noteq> callee_saved ! 0"
      using A(2) False nth_eq_iff_index_eq [of callee_saved i 0] by (simp add: callee_saved_facts)
    then have "callee_saved ! i \<noteq> RA" by (simp add: callee_saved_def)
    with A False show ?thesis by (simp add: start_regs_def)
  qed (use A in \<open>simp add: start_regs_def callee_saved_def\<close>)
qed

text \<open>What \<open>yield\<close> does when it switches.\<close>

lemma yield_away:
  assumes "yield s = Inr (Away s')"
  obtains cur idle n where "current_proc s = Some cur" "idle_proc s = Some idle" "n = next_slot (procs s) idle cur"
    "n \<noteq> cur"
    "s' = switch_context cur n (s\<lparr>current_proc := Some n,
       hart := (hart s)\<lparr>sscratch := stack_top s n, satp := new_satp (page_table (procs s ! n))\<rparr>\<rparr>)"
  using assms by (auto simp: yield_def Let_def split: option.splits if_splits)

lemma switch_context_simps [simp]:
  "current_proc (switch_context p n s) = current_proc s" "idle_proc (switch_context p n s) = idle_proc s"
  "sscratch (hart (switch_context p n s)) = sscratch (hart s)" "satp (hart (switch_context p n s)) = satp (hart s)"
  "console (lib (switch_context p n s)) = console (lib s)" "length (procs (switch_context p n s)) = length (procs s)"
  by (simp_all add: switch_context_def Let_def)

lemma switch_context_slot: "p < length (procs s) \<Longrightarrow>
    pid (procs (switch_context p n s) ! j) = pid (procs s ! j) \<and>
    state (procs (switch_context p n s) ! j) = state (procs s ! j) \<and>
    page_table (procs (switch_context p n s) ! j) = page_table (procs s ! j)"
  by (cases "j = p") (simp_all add: switch_context_def Let_def)

end
