(* ===== verification/Trap.thy ===== *)
theory Trap
  imports Switch
begin

text \<open>
  Traps and system calls: the save and restore sequences of \<open>arch/trap.c\<close>, \<open>handle_trap\<close> and the
  dispatcher of \<open>kernel/syscall.c\<close>. A trap frame is 31 words on the kernel stack of the running
  process, and \<open>struct trap_frame *\<close> is its address.

  A handler that calls \<open>yield\<close> may lose the hart; the rest of it runs when the process is scheduled
  again. \<open>Suspended\<close> is the state at that moment, and \<open>getc_loop\<close> and \<open>finish_trap\<close> are the rest.
  What the firmware answers to each poll of the console is the list \<open>polls\<close>.
\<close>

section \<open>The trap frame\<close>

text \<open>The fields of \<open>struct trap_frame\<close> but the last, in order; the last one is \<open>sp\<close>.\<close>

definition trap_regs :: "reg list" where
  "trap_regs = [RA, GP, TP, T0, T1, T2, T3, T4, T5, T6, A0, A1, A2, A3, A4, A5, A6, A7,
     S0, S1, S2, S3, S4, S5, S6, S7, S8, S9, S10, S11]"

text \<open>The address of the word of \<open>f\<close> for a register.\<close>

fun reg_index :: "reg list \<Rightarrow> reg \<Rightarrow> nat" where
  "reg_index [] r = 0"
| "reg_index (x # xs) r = (if x = r then 0 else Suc (reg_index xs r))"

definition frame_slot :: "u64 \<Rightarrow> reg \<Rightarrow> u64" where
  "frame_slot f r = f + 8 * of_nat (reg_index (trap_regs @ [SP]) r)"

definition frame_get :: "ksys \<Rightarrow> u64 \<Rightarrow> reg \<Rightarrow> u64" where
  "frame_get s f r = load64 (kmem (lib s)) (frame_slot f r)"

definition frame_set :: "u64 \<Rightarrow> reg \<Rightarrow> u64 \<Rightarrow> ksys \<Rightarrow> ksys" where
  "frame_set f r v s = s\<lparr>lib := (lib s)\<lparr>kmem := store64 (kmem (lib s)) (frame_slot f r) v\<rparr>\<rparr>"

text \<open>\<open>kernel_trap_context_save\<close> up to the call of \<open>handle_trap\<close>; the result is the argument in \<open>a0\<close>.\<close>

definition trap_save :: "ksys \<Rightarrow> u64 \<times> ksys" where
  "trap_save s =
     (let h = hart s;
          r = (regs h)(SP := sscratch h);
          scratch = regs h SP;
          r = r(SP := r SP - 8 * 31);
          m = save_regs (r SP) trap_regs r (kmem (lib s));
          r = r(A0 := scratch);
          m = store64 m (r SP + 8 * 30) (r A0);
          r = r(A0 := r SP + 8 * 31);
          scratch = r A0;
          r = r(A0 := r SP)
      in (r A0, s\<lparr>lib := (lib s)\<lparr>kmem := m\<rparr>, hart := h\<lparr>regs := r, sscratch := scratch\<rparr>\<rparr>))"

text \<open>The part after the call, with the stack pointer back at the frame, and \<open>sret\<close>.\<close>

definition trap_restore :: "u64 \<Rightarrow> ksys \<Rightarrow> ksys" where
  "trap_restore f s =
     (let m = kmem (lib s);
          r = load_regs f trap_regs m ((regs (hart s))(SP := f));
          r = r(SP := load64 m (f + 8 * 30))
      in s\<lparr>hart := (hart s)\<lparr>regs := r, pc := sepc (hart s)\<rparr>\<rparr>)"

definition init_trap_handler :: "u64 \<Rightarrow> ksys \<Rightarrow> ksys" where
  "init_trap_handler handler s = s\<lparr>hart := (hart s)\<lparr>stvec := handler\<rparr>\<rparr>"

section \<open>System calls\<close>

definition SYS_OPEN :: u64 where "SYS_OPEN = 0"
definition SYS_CLOSE :: u64 where "SYS_CLOSE = 1"
definition SYS_READ :: u64 where "SYS_READ = 2"
definition SYS_EXIT :: u64 where "SYS_EXIT = 8"
definition SYS_PUTC :: u64 where "SYS_PUTC = 10"
definition SYS_GETC :: u64 where "SYS_GETC = 11"
definition SCAUSE_ECALL :: u64 where "SCAUSE_ECALL = 8"

datatype sysret = Done "u64 list" ksys | Suspended "u64 list" ksys | Polling ksys

text \<open>\<open>Polling\<close>: every answer so far was negative and the loop is still running.\<close>

fun getc_loop :: "u64 list \<Rightarrow> u64 \<Rightarrow> ksys \<Rightarrow> sysret res" where
  "getc_loop [] f s = Inr (Polling s)"
| "getc_loop (c # cs) f s =
     (if 0 \<le> sint c then Inr (Done cs (frame_set f A0 c s))
      else bind_res (yield s) (\<lambda>y. case y of Back s \<Rightarrow> getc_loop cs f s | Away s \<Rightarrow> Inr (Suspended cs s)))"

definition current_table :: "ksys \<Rightarrow> u64 res" where
  "current_table s = (case current_proc s of None \<Rightarrow> Inl NullAccess | Some c \<Rightarrow> Inr (page_table (procs s ! c)))"

definition syscall_entry :: "u64 list \<Rightarrow> u64 \<Rightarrow> ksys \<Rightarrow> sysret res" where
  "syscall_entry polls f s =
     (let n = frame_get s f A3 in
      if n = SYS_PUTC then
        Inr (Done polls (s\<lparr>lib := (lib s)\<lparr>console := putc (ucast (frame_get s f A0)) (console (lib s))\<rparr>\<rparr>))
      else if n = SYS_GETC then getc_loop polls f s
      else if n = SYS_EXIT then
        bind_res (proc_exit s) (\<lambda>y. case y of
          Back s \<Rightarrow> Inl (Panic ''Unreachable!'' [])
        | Away s \<Rightarrow> Inr (Suspended polls s))
      else if n = SYS_READ then
        bind_res (current_table s) (\<lambda>root.
          let arg_a1 = vaddr_to_paddr (kmem (lib s)) root (frame_get s f A1) in Inr (Done polls s))
      else if n = SYS_OPEN then
        bind_res (current_table s) (\<lambda>root.
          let arg_a0 = vaddr_to_paddr (kmem (lib s)) root (frame_get s f A0) in Inr (Done polls s))
      else if n = SYS_CLOSE then Inr (Done polls s)
      else Inl (Panic (''Unexpected syscall: 0x%x'' @ [CHR 0x0A]) [n]))"

section \<open>The handler\<close>

text \<open>\<open>WRITE_CSR(sepc, user_pc)\<close> when the system call has returned.\<close>

definition finish_trap :: "u64 \<Rightarrow> sysret \<Rightarrow> sysret" where
  "finish_trap user_pc r =
     (case r of
        Done polls s \<Rightarrow> Done polls (s\<lparr>hart := (hart s)\<lparr>sepc := user_pc\<rparr>\<rparr>)
      | Suspended polls s \<Rightarrow> Suspended polls s
      | Polling s \<Rightarrow> Polling s)"

definition handle_trap :: "u64 list \<Rightarrow> u64 \<Rightarrow> ksys \<Rightarrow> sysret res" where
  "handle_trap polls f s =
     (let user_pc = sepc (hart s) in
      if scause (hart s) = SCAUSE_ECALL then
        bind_res (syscall_entry polls f s) (\<lambda>r. Inr (finish_trap (user_pc + 4) r))
      else Inl (Panic (''Unexpected trap: '' @ [CHR 0x0A, CHR 0x09] @ ''scause=0x%x'' @ [CHR 0x0A, CHR 0x09] @
        ''stval=0x%x'' @ [CHR 0x0A, CHR 0x09] @ ''sepc=0x%x'' @ [CHR 0x0A]) [scause (hart s), stval (hart s), user_pc]))"

text \<open>The whole of \<open>kernel_trap_context_save\<close>, entered by a trap.\<close>

definition trap_return :: "u64 \<Rightarrow> sysret \<Rightarrow> sysret" where
  "trap_return f r =
     (case r of Done polls s \<Rightarrow> Done polls (trap_restore f s) | Suspended polls s \<Rightarrow> Suspended polls s | Polling s \<Rightarrow> Polling s)"

definition kernel_trap :: "u64 list \<Rightarrow> ksys \<Rightarrow> sysret res" where
  "kernel_trap polls s =
     (case trap_save s of (f, s) \<Rightarrow> bind_res (handle_trap polls f s) (\<lambda>r. Inr (trap_return f r)))"

section \<open>Frames\<close>

lemma trap_regs_facts: "distinct (trap_regs @ [SP])" "length trap_regs = 30" "SP \<notin> set trap_regs" "UNIV = set (trap_regs @ [SP])"
  by (simp_all add: trap_regs_def) (auto intro: reg.exhaust)

lemma reg_index_less: "r \<in> set xs \<Longrightarrow> reg_index xs r < length xs \<and> xs ! reg_index xs r = r"
  by (induction xs r rule: reg_index.induct) auto

lemma reg_index_frame: "reg_index (trap_regs @ [SP]) r < 31" "(trap_regs @ [SP]) ! reg_index (trap_regs @ [SP]) r = r"
  using reg_index_less [of r "trap_regs @ [SP]"] trap_regs_facts(2) UNIV_I [of r] unfolding trap_regs_facts(4)
  by simp_all

abbreviation trap_frame :: "mem \<Rightarrow> u64 \<Rightarrow> (reg \<Rightarrow> u64) \<Rightarrow> bool" where
  "trap_frame m f r \<equiv> reg_frame m f (trap_regs @ [SP]) r"

lemma frame_get_frame: "trap_frame (kmem (lib s)) f r \<Longrightarrow> frame_get s f x = r x"
  using reg_index_frame [of x] trap_regs_facts(2) by (simp add: frame_get_def frame_slot_def reg_frame_def)

lemma frame_set_frame: "trap_frame (kmem (lib s)) f r \<Longrightarrow> trap_frame (kmem (lib (frame_set f x v s))) f (r(x := v))"
  using reg_frame_store [of "kmem (lib s)" f "trap_regs @ [SP]" r "reg_index (trap_regs @ [SP]) x" v]
    reg_index_frame [of x] trap_regs_facts(1,2) by (simp add: frame_set_def frame_slot_def)

lemma frame_set_other: "z \<notin> span f 248 \<Longrightarrow> kmem (lib (frame_set f x v s)) z = kmem (lib s) z"
  using frame_word_span [of "reg_index (trap_regs @ [SP]) x" 31 z f] reg_index_frame(1) [of x]
  by (auto simp: frame_set_def frame_slot_def intro!: store64_other)

lemma trap_save_frame:
  assumes "trap_save s = (f, s')"
  shows "f = sscratch (hart s) - 248" "trap_frame (kmem (lib s')) f (regs (hart s))"
    "z \<notin> span f 248 \<Longrightarrow> kmem (lib s') z = kmem (lib s) z" "sscratch (hart s') = sscratch (hart s)"
    "s' = s\<lparr>lib := (lib s)\<lparr>kmem := kmem (lib s')\<rparr>, hart := hart s'\<rparr>"
    "hart s' = (hart s)\<lparr>regs := regs (hart s')\<rparr>"
proof -
  let ?f = "sscratch (hart s) - 248" and ?r = "regs (hart s)"
  have "kmem (lib s') = store64 (save_regs ?f trap_regs (?r(SP := ?f)) (kmem (lib s))) (?f + 240) (?r SP)"
    using assms by (auto simp: trap_save_def Let_def)
  also have "save_regs ?f trap_regs (?r(SP := ?f)) (kmem (lib s)) = save_regs ?f trap_regs ?r (kmem (lib s))"
    using trap_regs_facts(3) by (intro save_regs_cong) auto
  also have "store64 \<dots> (?f + 240) (?r SP) = save_regs ?f (trap_regs @ [SP]) ?r (kmem (lib s))"
    by (simp add: save_regs_append trap_regs_facts(2))
  finally have m: "kmem (lib s') = save_regs ?f (trap_regs @ [SP]) ?r (kmem (lib s))" .
  show f: "f = ?f" using assms by (auto simp: trap_save_def Let_def)
  show "trap_frame (kmem (lib s')) f ?r"
    unfolding f m by (rule reg_frame_saved) (simp add: trap_regs_facts(2))
  show "kmem (lib s') z = kmem (lib s) z" if "z \<notin> span f 248"
    using that save_regs_other [of "trap_regs @ [SP]" z ?f] by (simp add: f m trap_regs_facts(2))
  show "sscratch (hart s') = sscratch (hart s)" "s' = s\<lparr>lib := (lib s)\<lparr>kmem := kmem (lib s')\<rparr>, hart := hart s'\<rparr>"
    "hart s' = (hart s)\<lparr>regs := regs (hart s')\<rparr>"
    using assms by (auto simp: trap_save_def Let_def)
qed

lemma trap_restore_frame:
  assumes "trap_frame (kmem (lib s)) f r"
  shows "regs (hart (trap_restore f s)) = r" "pc (hart (trap_restore f s)) = sepc (hart s)"
    "lib (trap_restore f s) = lib s" "procs (trap_restore f s) = procs s"
    "current_proc (trap_restore f s) = current_proc s" "sscratch (hart (trap_restore f s)) = sscratch (hart s)"
proof -
  note A = reg_frame_append [OF assms]
  have sp: "load64 (kmem (lib s)) (f + 240) = r SP" using A(2) by (simp add: reg_frame_def trap_regs_facts(2))
  have "x \<in> set trap_regs" if "x \<noteq> SP" for x using that UNIV_I [of x] unfolding trap_regs_facts(4) by auto
  then show "regs (hart (trap_restore f s)) = r"
    using load_reg_frame [OF A(1)] trap_regs_facts(1) sp by (auto simp: trap_restore_def Let_def fun_eq_iff)
qed (simp_all add: trap_restore_def Let_def)

section \<open>A system call from the caller's side\<close>

text \<open>
  What the caller of a system call that returned sees: it goes on behind its \<open>ecall\<close> with its own
  registers but for the result, and nothing but the trap frame below its kernel stack was written.
\<close>

definition returned :: "ksys \<Rightarrow> (reg \<Rightarrow> u64) \<Rightarrow> console \<Rightarrow> ksys \<Rightarrow> bool" where
  "returned s r con s' \<longleftrightarrow> regs (hart s') = r \<and> pc (hart s') = sepc (hart s) + 4 \<and>
     sscratch (hart s') = sscratch (hart s) \<and> satp (hart s') = satp (hart s) \<and>
     procs s' = procs s \<and> current_proc s' = current_proc s \<and> idle_proc s' = idle_proc s \<and> console (lib s') = con \<and>
     free_lists (lib s') = free_lists (lib s) \<and>
     (\<forall>z. z \<notin> span (sscratch (hart s) - 248) 248 \<longrightarrow> kmem (lib s') z = kmem (lib s) z)"

lemma kernel_trap_done:
  assumes "scause (hart s) = SCAUSE_ECALL" "trap_save s = (f, s1)"
    and "syscall_entry polls f s1 = Inr (Done cs s2)"
    and "s2 = s1\<lparr>lib := (lib s1)\<lparr>kmem := kmem (lib s2), console := con\<rparr>\<rparr>" "trap_frame (kmem (lib s2)) f r"
    and "\<And>z. z \<notin> span f 248 \<Longrightarrow> kmem (lib s2) z = kmem (lib s1) z"
  shows "\<exists>s'. kernel_trap polls s = Inr (Done cs s') \<and> returned s r con s'"
proof -
  note S = trap_save_frame [OF assms(2)]
  let ?s3 = "s2\<lparr>hart := (hart s2)\<lparr>sepc := sepc (hart s) + 4\<rparr>\<rparr>"
  have h: "hart s2 = hart s1" "procs s2 = procs s1" "current_proc s2 = current_proc s1" "idle_proc s2 = idle_proc s1" "console (lib s2) = con"
    "free_lists (lib s2) = free_lists (lib s1)"
    by (subst assms(4), simp)+
  have h1: "scause (hart s1) = scause (hart s)" "sepc (hart s1) = sepc (hart s)" "satp (hart s1) = satp (hart s)"
    by (subst S(6), simp)+
  have s1: "procs s1 = procs s" "current_proc s1 = current_proc s" "idle_proc s1 = idle_proc s" "free_lists (lib s1) = free_lists (lib s)"
    by (subst S(5), simp)+
  have f3: "trap_frame (kmem (lib ?s3)) f r" using assms(5) by simp
  have run: "kernel_trap polls s = Inr (Done cs (trap_restore f ?s3))"
    using assms(1-3) h1 by (simp add: kernel_trap_def handle_trap_def finish_trap_def trap_return_def Let_def)
  have mem: "kmem (lib s2) z = kmem (lib s) z" if "z \<notin> span (sscratch (hart s) - 248) 248" for z
    using that assms(6) [of z] S(3) [of z] S(1) by simp
  have "satp (hart (trap_restore f ?s3)) = satp (hart s)" "idle_proc (trap_restore f ?s3) = idle_proc s"
    using h h1 s1 by (simp_all add: trap_restore_def Let_def)
  then have "returned s r con (trap_restore f ?s3)"
    using trap_restore_frame [OF f3] h s1 S(4) mem by (simp add: returned_def)
  with run show ?thesis by blast
qed

lemma getc_loop_alone:
  assumes "yield s = Inr (Back s)"
  shows "getc_loop polls f s =
    (case dropWhile (\<lambda>c. sint c < 0) polls of [] \<Rightarrow> Inr (Polling s) | c # cs \<Rightarrow> Inr (Done cs (frame_set f A0 c s)))"
  using assms by (induction polls) auto

text \<open>The rest of a suspended \<open>SYS_GETC\<close>, from \<open>yield\<close>'s return to the \<open>sret\<close>.\<close>

definition resume_getc :: "u64 \<Rightarrow> u64 list \<Rightarrow> u64 \<Rightarrow> ksys \<Rightarrow> sysret res" where
  "resume_getc user_pc polls f s =
     bind_res (getc_loop polls f s) (\<lambda>r. Inr (trap_return f (finish_trap (user_pc + 4) r)))"

lemma frame_set_shape: "frame_set f x v s = s\<lparr>lib := (lib s)\<lparr>kmem := kmem (lib (frame_set f x v s))\<rparr>\<rparr>"
  by (simp add: frame_set_def)

end
