(* ===== verification/User.thy ===== *)
theory User
  imports Trap
begin

text \<open>
  User programs. \<open>user/libc/oppostd.c\<close>: the stub \<open>syscall\<close> up to its \<open>ecall\<close>, the handler of the
  kernel, and what the stub returns; the named calls on top of it. \<open>user/shell/shell.c\<close>: the
  command loop, over the shell's own memory, the keys that \<open>getc\<close> returns one after the other, and
  the bytes sent to the console. \<open>printf\<close> and \<open>strcmp\<close> of \<open>user/libc\<close> have the text of the functions of the
  same names in \<open>klib\<close>, and are the definitions made for those.
\<close>

section \<open>System calls from user mode\<close>

text \<open>
  The hart when the \<open>ecall\<close> at \<open>at\<close> traps. The four values are \<open>int\<close>, which a register holds
  with its sign extended.
\<close>

definition ecall :: "u64 \<Rightarrow> u32 \<Rightarrow> u32 \<Rightarrow> u32 \<Rightarrow> u32 \<Rightarrow> ksys \<Rightarrow> ksys" where
  "ecall at sysno arg0 arg1 arg2 s =
     s\<lparr>hart := (hart s)\<lparr>regs := (regs (hart s))(A0 := scast arg0, A1 := scast arg1, A2 := scast arg2, A3 := scast sysno),
        scause := SCAUSE_ECALL, sepc := at\<rparr>\<rparr>"

definition syscall :: "u64 list \<Rightarrow> u64 \<Rightarrow> u32 \<Rightarrow> u32 \<Rightarrow> u32 \<Rightarrow> u32 \<Rightarrow> ksys \<Rightarrow> sysret res" where
  "syscall polls at sysno arg0 arg1 arg2 s = kernel_trap polls (ecall at sysno arg0 arg1 arg2 s)"

text \<open>The value of a call that returned: \<open>a0\<close>, as an \<open>int\<close>.\<close>

definition call_value :: "ksys \<Rightarrow> u32" where
  "call_value s = ucast (regs (hart s) A0)"

text \<open>A pointer is cast to \<open>int\<close> for the call: its upper half is lost.\<close>

definition user_open :: "u64 list \<Rightarrow> u64 \<Rightarrow> u64 \<Rightarrow> u32 \<Rightarrow> ksys \<Rightarrow> sysret res" where
  "user_open polls at path access s = syscall polls at (ucast SYS_OPEN) (ucast path) access 0 s"

definition user_read :: "u64 list \<Rightarrow> u64 \<Rightarrow> u32 \<Rightarrow> u64 \<Rightarrow> u32 \<Rightarrow> ksys \<Rightarrow> sysret res" where
  "user_read polls at fd buf sz s = syscall polls at (ucast SYS_READ) fd (ucast buf) sz s"

definition user_close :: "u64 list \<Rightarrow> u64 \<Rightarrow> u32 \<Rightarrow> ksys \<Rightarrow> sysret res" where
  "user_close polls at fd s = syscall polls at (ucast SYS_CLOSE) fd 0 0 s"

definition user_putc :: "u64 list \<Rightarrow> u64 \<Rightarrow> u8 \<Rightarrow> ksys \<Rightarrow> sysret res" where
  "user_putc polls at c s = syscall polls at (ucast SYS_PUTC) (ucast c) 0 0 s"

definition user_getc :: "u64 list \<Rightarrow> u64 \<Rightarrow> ksys \<Rightarrow> sysret res" where
  "user_getc polls at s = syscall polls at (ucast SYS_GETC) 0 0 0 s"

definition user_exit :: "u64 list \<Rightarrow> u64 \<Rightarrow> ksys \<Rightarrow> sysret res" where
  "user_exit polls at s = syscall polls at (ucast SYS_EXIT) 0 0 0 s"

section \<open>The shell\<close>

text \<open>
  The array \<open>cmdline\<close> and the two string literals that it is compared with are at addresses the compiler chooses.
\<close>

record shell_data =
  cmdline_at :: u64
  hello_at :: u64
  exit_at :: u64

text \<open>
  The inner loop. When the keys are used up, \<open>getc\<close> does not return; the test of the index comes before the
  test for the end of the line.
\<close>

datatype line = Waiting console | Too_long "u8 list" mem console | Entered "u8 list" mem console

fun read_line :: "u64 \<Rightarrow> nat \<Rightarrow> u8 list \<Rightarrow> mem \<Rightarrow> console \<Rightarrow> line res" where
  "read_line cmdline i [] m con = Inr (Waiting con)"
| "read_line cmdline i (ch # keys) m con =
     (let con = putc ch con in
      if i = 128 - 1 then bind_res (printf m (''Command too long!'' @ [CHR 0x0A]) [] con) (\<lambda>con. Inr (Too_long keys m con))
      else if ch = 13 then
        bind_res (printf m [CHR 0x0A] [] con) (\<lambda>con. Inr (Entered keys (m(cmdline + of_nat i := 0)) con))
      else read_line cmdline (i + 1) keys (m(cmdline + of_nat i := ch)) con)"

text \<open>One round of the outer loop, from the prompt to the next one.\<close>

datatype round = Waits console | Prompts "u8 list" mem console | Exits "u8 list" console

definition run_command :: "shell_data \<Rightarrow> u8 list \<Rightarrow> mem \<Rightarrow> console \<Rightarrow> round res" where
  "run_command d keys m con =
     bind_res (or_hang (strcmp m (cmdline_at d) (hello_at d))) (\<lambda>r.
       if r = 0 then bind_res (printf m (''Hello world from shell!'' @ [CHR 0x0A]) [] con) (\<lambda>con. Inr (Prompts keys m con))
       else bind_res (or_hang (strcmp m (cmdline_at d) (exit_at d))) (\<lambda>r.
         if r = 0 then Inr (Exits keys con)
         else bind_res (printf m (''Unknown command: %s'' @ [CHR 0x0A]) [cmdline_at d] con) (\<lambda>con. Inr (Prompts keys m con))))"

definition shell_round :: "shell_data \<Rightarrow> u8 list \<Rightarrow> mem \<Rightarrow> console \<Rightarrow> round res" where
  "shell_round d keys m con =
     bind_res (printf m ''> '' [] con) (\<lambda>con.
     bind_res (read_line (cmdline_at d) 0 keys m con) (\<lambda>l.
       case l of
         Waiting con \<Rightarrow> Inr (Waits con)
       | Too_long keys m con \<Rightarrow> Inr (Prompts keys m con)
       | Entered keys m con \<Rightarrow> run_command d keys m con))"

text \<open>Every round that comes to the next prompt has taken a key, so the loop ends with the keys.\<close>

lemma bind_res_Inr: "bind_res r f = Inr y \<longleftrightarrow> (\<exists>x. r = Inr x \<and> f x = Inr y)"
  by (cases r) simp_all

lemma read_line_takes:
  "read_line a i keys m con = Inr (Too_long keys' m' con') \<Longrightarrow> length keys' < length keys"
  "read_line a i keys m con = Inr (Entered keys' m' con') \<Longrightarrow> length keys' < length keys"
  by (induction a i keys m con rule: read_line.induct) (force simp: bind_res_Inr Let_def split: if_splits)+

lemma run_command_keys: "run_command d keys m con = Inr (Prompts keys' m' con') \<Longrightarrow> keys' = keys"
  by (auto simp: run_command_def bind_res_Inr split: if_splits)

lemma shell_round_takes: "shell_round d keys m con = Inr (Prompts keys' m' con') \<Longrightarrow> length keys' < length keys"
proof -
  assume "shell_round d keys m con = Inr (Prompts keys' m' con')"
  then obtain x l where l: "read_line (cmdline_at d) 0 keys m x = Inr l"
    "(case l of Waiting con \<Rightarrow> Inr (Waits con) | Too_long keys m con \<Rightarrow> Inr (Prompts keys m con)
      | Entered keys m con \<Rightarrow> run_command d keys m con) = Inr (Prompts keys' m' con')"
    by (auto simp: shell_round_def bind_res_Inr)
  then show "length keys' < length keys"
    by (cases l) (auto dest: read_line_takes run_command_keys)
qed

function shell_main :: "shell_data \<Rightarrow> u8 list \<Rightarrow> mem \<Rightarrow> console \<Rightarrow> round res" where
  "shell_main d keys m con =
     (case shell_round d keys m con of
        Inl e \<Rightarrow> Inl e
      | Inr (Prompts keys m con) \<Rightarrow> shell_main d keys m con
      | Inr r \<Rightarrow> Inr r)"
  by pat_completeness auto
termination
  by (relation "measure (\<lambda>(d, keys, m, con). length keys)") (auto dest: shell_round_takes)

declare shell_main.simps [simp del]

section \<open>What the shell prints\<close>

lemma printf_text:
  assumes "byte_of CHR ''%'' \<notin> set (bytes_of t)"
  shows "printf m t [] con = Inr (con @ crlf (bytes_of t))"
  using vprintf_literal [OF assms, of m "[]" "[]" con] by (simp add: printf_def)

lemma crlf_append: "crlf (s @ t) = crlf s @ crlf t"
  by (simp add: crlf_def)

lemma crlf_plain: "10 \<notin> set s \<Longrightarrow> crlf s = s"
  by (induction s) (auto simp: crlf_def)

lemma shell_texts:
  "printf m ''> '' [] con = Inr (con @ bytes_of ''> '')"
  "printf m [CHR 0x0A] [] con = Inr (con @ [13, 10])"
  "printf m (''Hello world from shell!'' @ [CHR 0x0A]) [] con = Inr (con @ bytes_of ''Hello world from shell!'' @ [13, 10])"
  "printf m (''Command too long!'' @ [CHR 0x0A]) [] con = Inr (con @ bytes_of ''Command too long!'' @ [13, 10])"
  using printf_text [of "''> ''" m con] printf_text [of "[CHR 0x0A]" m con] printf_text [of "''Hello world from shell!'' @ [CHR 0x0A]" m con]
    printf_text [of "''Command too long!'' @ [CHR 0x0A]" m con]
  by (simp_all add: crlf_def)

lemma unknown_text:
  assumes "cstr m a w"
  shows "printf m (''Unknown command: %s'' @ [CHR 0x0A]) [a] con = Inr (con @ bytes_of ''Unknown command: '' @ w @ [13, 10])"
proof -
  have pct: "byte_of CHR ''%'' \<notin> set (bytes_of ''Unknown command: '')" by simp
  have fmt: "bytes_of (''Unknown command: %s'' @ [CHR 0x0A]) = bytes_of ''Unknown command: '' @ byte_of CHR ''%'' # byte_of CHR ''s'' # [10]" by simp
  have "crlf (bytes_of ''Unknown command: '') = bytes_of ''Unknown command: ''" by (simp add: crlf_def)
  then show ?thesis
    unfolding printf_def fmt vprintf_literal [OF pct] vprintf_conv printf_s [OF assms] bind_res_simps by (simp add: putc_def)
qed

section \<open>The command line\<close>

text \<open>Memory after \<open>w\<close> and its terminator have been stored from index \<open>i\<close> on.\<close>

fun store_text :: "u64 \<Rightarrow> nat \<Rightarrow> u8 list \<Rightarrow> mem \<Rightarrow> mem" where
  "store_text a i [] m = m(a + of_nat i := 0)"
| "store_text a i (c # w) m = store_text a (i + 1) w (m(a + of_nat i := c))"

lemma store_text_other: "(\<And>j. i \<le> j \<Longrightarrow> j \<le> i + length w \<Longrightarrow> z \<noteq> a + of_nat j) \<Longrightarrow> store_text a i w m z = m z"
proof (induction w arbitrary: i m)
  case (Cons c w)
  have "store_text a (i + 1) w (m(a + of_nat i := c)) z = (m(a + of_nat i := c)) z" by (rule Cons.IH) (use Cons.prems in simp)
  also have "\<dots> = m z" using Cons.prems [of i] by simp
  finally show ?case by simp
qed simp

lemma store_text_line: "length w < 128 \<Longrightarrow> z \<notin> span a 128 \<Longrightarrow> store_text a 0 w m z = m z"
proof (rule store_text_other)
  fix j assume "length w < 128" "z \<notin> span a 128" "j \<le> 0 + length w"
  then show "z \<noteq> a + of_nat j" by (auto simp: span_def unat_of_nat_64)
qed

lemma store_text_cstr: "0 \<notin> set w \<Longrightarrow> i + length w < 128 \<Longrightarrow> cstr (store_text a i w m) (a + of_nat i) w"
proof (induction w arbitrary: i m)
  case (Cons c w)
  have "store_text a (i + 1) w (m(a + of_nat i := c)) (a + of_nat i) = (m(a + of_nat i := c)) (a + of_nat i)"
  proof (rule store_text_other)
    fix j assume "i + 1 \<le> j" "j \<le> i + 1 + length w"
    then have "unat (of_nat i :: u64) \<noteq> unat (of_nat j :: u64)" using Cons.prems(2) by (simp add: unat_of_nat_64)
    then show "a + of_nat i \<noteq> a + of_nat j" by auto
  qed
  moreover have "cstr (store_text a (i + 1) w (m(a + of_nat i := c))) (a + of_nat (i + 1)) w" using Cons.prems by (intro Cons.IH) simp_all
  ultimately show ?case using Cons.prems(1) by (auto simp: ac_simps)
qed simp

lemma read_line_entered:
  "13 \<notin> set w \<Longrightarrow> i + length w < 127 \<Longrightarrow>
    read_line a i (w @ 13 # rest) m con = Inr (Entered rest (store_text a i w m) (con @ w @ [13, 13, 10]))"
  by (induction w arbitrary: i m con) (simp_all add: putc_def shell_texts)

text \<open>A line that is too long is cut after 128 keys, whatever the last of them is; what was stored stays within the array.\<close>

lemma read_line_too_long:
  "13 \<notin> set w \<Longrightarrow> i + length w = 127 \<Longrightarrow>
    \<exists>m'. read_line a i (w @ c # rest) m con = Inr (Too_long rest m' (con @ w @ [c] @ bytes_of ''Command too long!'' @ [13, 10])) \<and>
      (\<forall>z. z \<notin> span a 128 \<longrightarrow> m' z = m z)"
proof (induction w arbitrary: i m con)
  case Nil
  then show ?case by (simp add: putc_def shell_texts [simplified])
next
  case (Cons x w)
  have "a + of_nat i \<in> span a 128" using Cons.prems(2) by (simp add: span_def unat_of_nat_64)
  then have "z \<noteq> a + of_nat i" if "z \<notin> span a 128" for z using that by blast
  moreover obtain m' where "read_line a (i + 1) (w @ c # rest) (m(a + of_nat i := x)) (con @ [x]) =
      Inr (Too_long rest m' ((con @ [x]) @ w @ [c] @ bytes_of ''Command too long!'' @ [13, 10]))"
    "\<forall>z. z \<notin> span a 128 \<longrightarrow> m' z = (m(a + of_nat i := x)) z"
    using Cons.IH [of "i + 1" "m(a + of_nat i := x)" "con @ [x]"] Cons.prems by (elim meta_impE exE conjE) (simp_all only: set_simps list.size simp_thms insert_iff, simp_all)
  ultimately show ?case using Cons.prems by (intro exI [of _ m']) (simp add: putc_def)
qed

section \<open>A session\<close>

text \<open>The shell's data: the two literals are in memory that the command line does not overlap.\<close>

definition literals_ok :: "shell_data \<Rightarrow> mem \<Rightarrow> bool" where
  "literals_ok d m \<longleftrightarrow> cstr m (hello_at d) (bytes_of ''hello'') \<and> cstr m (exit_at d) (bytes_of ''exit'') \<and>
     span (cmdline_at d) 128 \<inter> span (hello_at d) 6 = {} \<and> span (cmdline_at d) 128 \<inter> span (exit_at d) 5 = {}"

definition line_ok :: "u8 list \<Rightarrow> bool" where
  "line_ok w \<longleftrightarrow> length w < 127 \<and> 13 \<notin> set w \<and> 0 \<notin> set w"

text \<open>What the console shows of one command: the prompt, the echo of the keys, and the reply.\<close>

definition reply :: "u8 list \<Rightarrow> u8 list" where
  "reply w =
     (if w = bytes_of ''hello'' then bytes_of ''Hello world from shell!'' @ [13, 10]
      else if w = bytes_of ''exit'' then []
      else bytes_of ''Unknown command: '' @ w @ [13, 10])"

definition transcript :: "u8 list \<Rightarrow> u8 list" where
  "transcript w = bytes_of ''> '' @ w @ [13, 13, 10] @ reply w"

lemma literals_cong:
  assumes "literals_ok d m" "\<And>z. z \<notin> span (cmdline_at d) 128 \<Longrightarrow> m' z = m z"
  shows "literals_ok d m'"
proof -
  have "z \<notin> span (cmdline_at d) 128" if "z \<in> span (hello_at d) 6 \<or> z \<in> span (exit_at d) 5" for z
    using that assms(1) unfolding literals_ok_def by blast
  then have same: "m' z = m z" if "z \<in> span (hello_at d) 6 \<or> z \<in> span (exit_at d) 5" for z using that assms(2) by blast
  have len: "Suc (length (bytes_of ''hello'')) = 6" "Suc (length (bytes_of ''exit'')) = 5" by simp_all
  have "cstr m' (hello_at d) (bytes_of ''hello'') = cstr m (hello_at d) (bytes_of ''hello'')"
    "cstr m' (exit_at d) (bytes_of ''exit'') = cstr m (exit_at d) (bytes_of ''exit'')"
    by (rule cstr_cong, rule same, simp only: len simp_thms)+
  then show ?thesis using assms(1) unfolding literals_ok_def by blast
qed

lemma round_answers:
  assumes "literals_ok d m" "line_ok w"
  obtains m' where "shell_round d (w @ 13 # rest) m con =
      Inr (if w = bytes_of ''exit'' then Exits rest (con @ transcript w) else Prompts rest m' (con @ transcript w))"
    "literals_ok d m'"
proof -
  let ?m = "store_text (cmdline_at d) 0 w m" and ?con = "con @ bytes_of ''> '' @ w @ [13, 13, 10]"
  have lit: "literals_ok d ?m" using assms by (intro literals_cong [OF assms(1)] store_text_line) (simp_all add: line_ok_def)
  have c: "cstr ?m (cmdline_at d) w" using store_text_cstr [of w 0 "cmdline_at d" m] assms(2) by (simp add: line_ok_def)
  have len: "length w < 2 ^ 31" using assms(2) by (simp add: line_ok_def)
  have l: "cstr ?m (hello_at d) (bytes_of ''hello'')" "cstr ?m (exit_at d) (bytes_of ''exit'')" using lit by (simp_all add: literals_ok_def)
  have cmp: "strcmp ?m (cmdline_at d) (hello_at d) = Some (str_diff w (bytes_of ''hello''))"
    "strcmp ?m (cmdline_at d) (exit_at d) = Some (str_diff w (bytes_of ''exit''))"
    by (rule strcmp_cstr [OF c l(1) len], rule strcmp_cstr [OF c l(2) len])
  have eq: "str_diff w (bytes_of ''hello'') = 0 \<longleftrightarrow> w = bytes_of ''hello''" "str_diff w (bytes_of ''exit'') = 0 \<longleftrightarrow> w = bytes_of ''exit''"
    using str_diff_eq_0_iff [OF cstr_nonzero [OF c] cstr_nonzero [OF l(1)]] str_diff_eq_0_iff [OF cstr_nonzero [OF c] cstr_nonzero [OF l(2)]] by simp_all
  have "read_line (cmdline_at d) 0 (w @ 13 # rest) m (con @ bytes_of ''> '') = Inr (Entered rest ?m ?con)"
    using read_line_entered [of w 0 "cmdline_at d" rest m "con @ bytes_of ''> ''"] assms(2) by (simp add: line_ok_def)
  then have "shell_round d (w @ 13 # rest) m con = run_command d rest ?m ?con"
    unfolding shell_round_def shell_texts(1) bind_res_simps by simp
  also have "\<dots> = Inr (if w = bytes_of ''exit'' then Exits rest (con @ transcript w) else Prompts rest ?m (con @ transcript w))"
    unfolding run_command_def cmp or_hang_simps bind_res_simps eq shell_texts(3) unknown_text [OF c] transcript_def reply_def by auto
  finally show thesis using that lit by blast
qed

lemma shell_session:
  "literals_ok d m \<Longrightarrow> \<forall>w \<in> set ws. line_ok w \<and> w \<noteq> bytes_of ''exit'' \<Longrightarrow>
    \<exists>m'. literals_ok d m' \<and>
      shell_main d (concat (map (\<lambda>w. w @ [13]) ws) @ keys) m con = shell_main d keys m' (con @ concat (map transcript ws))"
proof (induction ws arbitrary: m con)
  case (Cons w ws)
  then have ok: "line_ok w" "w \<noteq> bytes_of ''exit''" by simp_all
  let ?rest = "concat (map (\<lambda>w. w @ [13]) ws) @ keys"
  obtain m1 where m1: "shell_round d (w @ 13 # ?rest) m con =
      Inr (if w = bytes_of ''exit'' then Exits ?rest (con @ transcript w) else Prompts ?rest m1 (con @ transcript w))" "literals_ok d m1"
    by (rule round_answers [OF Cons.prems(1) ok(1)])
  have "shell_main d (w @ 13 # ?rest) m con = shell_main d ?rest m1 (con @ transcript w)"
    using m1(1) ok(2) by (subst shell_main.simps) simp
  then show ?case using Cons.IH [OF m1(2), of "con @ transcript w"] Cons.prems(2) by auto
qed auto

end
