(* ===== verification/Space_Lookup.thy ===== *)
theory Space_Lookup
  imports Proc_Space
begin

text \<open>
  Reading the address space of a process: which virtual addresses below \<open>2 ^ 39\<close> are mapped, to
  which frames and with which permissions. The kernel, device and user pages are three contiguous
  ranges, so one lemma on ranges serves all of them.
\<close>

section \<open>Index triples\<close>

lemma unat_drop12: "unat (drop_bit 12 (a :: u64)) = unat a div 4096"
  by (simp add: drop_bit_eq_div unat_div)

lemma vpns_eq_iff:
  assumes "unat a < 2 ^ 39" "unat b < 2 ^ 39"
  shows "vpns a = vpns b \<longleftrightarrow> unat a div 4096 = unat b div 4096"
proof
  assume eq: "vpns a = vpns b"
  have bits: "bit (drop_bit 12 x) n \<longleftrightarrow> (if n < 9 then bit (vpn0 x) n else if n < 18 then bit (vpn1 x) (n - 9) else bit (vpn2 x) (n - 18))"
    if "unat x < 2 ^ 39" for x n
    using high_bits [OF that, of "12 + n"]
    by (auto simp: vpn0_def vpn1_def vpn2_def VPN_MASK_mask bit_simps)
  have "drop_bit 12 a = drop_bit 12 b"
    using eq bits [OF assms(1)] bits [OF assms(2)] by (intro bit_word_eqI) (simp add: vpns_def)
  then show "unat a div 4096 = unat b div 4096"
    unfolding unat_drop12 [symmetric] by (rule arg_cong)
next
  assume "unat a div 4096 = unat b div 4096"
  then have "unat (drop_bit 12 a) = unat (drop_bit 12 b)" by (simp only: unat_drop12)
  then have "drop_bit 12 a = drop_bit 12 b" by (simp only: word_unat_eq_iff)
  then have eq: "drop_bit (n + 12) a = drop_bit (n + 12) b" for n by (metis drop_bit_drop_bit)
  from eq [of 0] eq [of 9] eq [of 18] show "vpns a = vpns b"
    by (simp add: vpns_def vpn0_def vpn1_def vpn2_def)
qed

lemma pte_leaf_page:
  assumes "unat a div 4096 = unat b div 4096"
  shows "pte_leaf a f = pte_leaf b f"
proof -
  have "unat (a div PAGE_SIZE) = unat (b div PAGE_SIZE)" using assms by (simp add: PAGE_SIZE_def unat_div)
  then have "a div PAGE_SIZE = b div PAGE_SIZE" by (simp only: word_unat_eq_iff)
  then show ?thesis by (simp add: pte_leaf_def pte_ppn_def)
qed

section \<open>A range of pages\<close>

definition range_mappings :: "u64 \<Rightarrow> (nat \<Rightarrow> u64) \<Rightarrow> u32 \<Rightarrow> nat \<Rightarrow> mapping list" where
  "range_mappings base f flags n = map (\<lambda>i. (base + 4096 * of_nat i, f i, flags)) [0..<n]"

lemma space_of_append: "space_of (xs @ ys) = space_of xs ++ space_of ys"
  by (simp add: space_of_def map_of_append)

lemma page_index:
  assumes "4096 dvd (b :: nat)"
  shows "a div 4096 = (b + 4096 * n) div 4096 \<longleftrightarrow> b + 4096 * n \<le> a \<and> a < b + 4096 * Suc n"
proof -
  obtain q where q: "b = 4096 * q" using assms by (auto elim: dvdE)
  have "(b + 4096 * n) div 4096 = q + n"
    unfolding q distrib_left [symmetric] by (rule nonzero_mult_div_cancel_left) simp
  moreover have "a div 4096 = k \<longleftrightarrow> 4096 * k \<le> a \<and> a < 4096 + 4096 * k" for k
  proof
    show "4096 * k \<le> a \<and> a < 4096 + 4096 * k" if "a div 4096 = k"
      using times_div_less_eq_dividend [of 4096 a] dividend_less_times_div [of 4096 a] unfolding that by simp
  next
    assume "4096 * k \<le> a \<and> a < 4096 + 4096 * k"
    then show "a div 4096 = k" by (intro div_nat_eqI) (simp_all add: mult.commute)
  qed
  ultimately show ?thesis by (simp add: q distrib_left add.left_commute)
qed

lemma range_lookup:
  assumes "unat a < 2 ^ 39" "4096 dvd unat base" "unat base + 4096 * n \<le> 2 ^ 39"
  shows "space_of (range_mappings base f flags n) (vpns a) =
    (if unat base \<le> unat a \<and> unat a < unat base + 4096 * n
     then Some (pte_leaf (f ((unat a - unat base) div 4096)) flags) else None)"
  using assms(3)
proof (induction n)
  case 0
  show ?case by (simp add: range_mappings_def space_of_def)
next
  case (Suc n)
  let ?va = "base + 4096 * of_nat n"
  have "unat (base + of_nat (4096 * n)) = unat base + 4096 * n"
    using Suc.prems by (intro unat_plus_of_nat) simp
  then have va: "unat ?va = unat base + 4096 * n" by simp
  then have key: "vpns a = vpns ?va \<longleftrightarrow> unat base + 4096 * n \<le> unat a \<and> unat a < unat base + 4096 * Suc n"
    using vpns_eq_iff [OF assms(1), of ?va] Suc.prems page_index [OF assms(2), of "unat a" n] by simp
  have "space_of (range_mappings base f flags (Suc n)) =
      (space_of (range_mappings base f flags n))(vpns ?va \<mapsto> pte_leaf (f n) flags)"
    by (simp add: range_mappings_def space_of_def mapping_key_def mapping_pte_def)
  moreover have "(unat a - unat base) div 4096 = n" if "vpns a = vpns ?va"
    using that unfolding key by (intro div_nat_eqI) auto
  ultimately show ?case using Suc key by auto
qed

section \<open>The three ranges of a process\<close>

definition kernel_pages :: "u64 \<Rightarrow> u64 \<Rightarrow> nat" where
  "kernel_pages kb he = (unat he - unat kb + 4095) div 4096"

lemma kernel_range: "kernel_mappings kb he =
    range_mappings kb (\<lambda>i. kb + 4096 * of_nat i) (PAGE_R OR PAGE_W OR PAGE_X) (kernel_pages kb he)"
  by (simp add: kernel_mappings_def range_mappings_def kernel_pages_def)

lemma device_range: "device_mappings =
    range_mappings VIRTIO_PADDR (\<lambda>i. VIRTIO_PADDR + 4096 * of_nat i) (PAGE_R OR PAGE_W) 8"
  unfolding device_mappings_def range_mappings_def by (rule map_cong) (simp_all add: device_mapping_def Let_def)

lemma user_range: "map2 user_mapping [0..<length pgs] pgs =
    range_mappings USER_BASE (\<lambda>i. pgs ! i) (PAGE_U OR PAGE_R OR PAGE_W OR PAGE_X) (length pgs)"
  unfolding range_mappings_def by (intro nth_equalityI) (simp_all add: user_mapping_def)

text \<open>The ranges are apart and within the 39 bits that Sv39 translates.\<close>

definition ranges_ok :: "u64 \<Rightarrow> u64 \<Rightarrow> nat \<Rightarrow> bool" where
  "ranges_ok kb he n \<longleftrightarrow> 4096 dvd unat kb \<and> 0x10009000 \<le> unat kb \<and> unat kb + 4096 * kernel_pages kb he \<le> 2 ^ 39 \<and>
     0x1000000 + 4096 * n \<le> 0x10001000"

lemma identity_page:
  assumes "4096 dvd unat base" "unat base \<le> unat a"
  shows "pte_leaf (base + 4096 * of_nat ((unat a - unat base) div 4096)) f = pte_leaf a f"
proof (rule pte_leaf_page)
  let ?i = "(unat a - unat base) div 4096"
  have le: "unat base + 4096 * ?i \<le> unat a" using assms(2) times_div_less_eq_dividend [of 4096 "unat a - unat base"] by simp
  have "unat (base + of_nat (4096 * ?i)) = unat base + 4096 * ?i"
    using le unat_bound(4) [of a] by (intro unat_plus_of_nat) linarith
  then have "unat (base + 4096 * of_nat ?i) = unat base + 4096 * ?i" by simp
  moreover have "unat a < unat base + 4096 * Suc ?i"
    using assms(2) mod_less_divisor [of 4096 "unat a - unat base"] mult_div_mod_eq [of 4096 "unat a - unat base"] by simp
  ultimately show "unat (base + 4096 * of_nat ?i) div 4096 = unat a div 4096"
    using page_index [OF assms(1), of "unat a" ?i] le by simp
qed

lemma space_lookup:
  assumes ok: "ranges_ok kb he (length pgs)" and a: "unat a < 2 ^ 39"
  shows "space_of (space_mappings kb he pgs) (vpns a) =
    (if 0x1000000 \<le> unat a \<and> unat a < 0x1000000 + 4096 * length pgs
       then Some (pte_leaf (pgs ! ((unat a - 0x1000000) div 4096)) (PAGE_U OR PAGE_R OR PAGE_W OR PAGE_X))
     else if 0x10001000 \<le> unat a \<and> unat a < 0x10009000 then Some (pte_leaf a (PAGE_R OR PAGE_W))
     else if unat kb \<le> unat a \<and> unat a < unat kb + 4096 * kernel_pages kb he
       then Some (pte_leaf a (PAGE_R OR PAGE_W OR PAGE_X))
     else None)"
proof -
  have K: "space_of (kernel_mappings kb he) (vpns a) =
      (if unat kb \<le> unat a \<and> unat a < unat kb + 4096 * kernel_pages kb he then Some (pte_leaf a (PAGE_R OR PAGE_W OR PAGE_X)) else None)"
    unfolding kernel_range using ok a identity_page [of kb a] by (subst range_lookup) (auto simp: ranges_ok_def)
  have D: "space_of device_mappings (vpns a) =
      (if 0x10001000 \<le> unat a \<and> unat a < 0x10009000 then Some (pte_leaf a (PAGE_R OR PAGE_W)) else None)"
    unfolding device_range using a identity_page [of VIRTIO_PADDR a]
    by (subst range_lookup) (auto simp: VIRTIO_PADDR_def)
  have U: "space_of (map2 user_mapping [0..<length pgs] pgs) (vpns a) =
      (if 0x1000000 \<le> unat a \<and> unat a < 0x1000000 + 4096 * length pgs
       then Some (pte_leaf (pgs ! ((unat a - 0x1000000) div 4096)) (PAGE_U OR PAGE_R OR PAGE_W OR PAGE_X)) else None)"
    unfolding user_range using a ok by (subst range_lookup) (auto simp: USER_BASE_def ranges_ok_def)
  show ?thesis
    unfolding space_mappings_def space_of_append map_add_def K D U by (auto split: option.splits)
qed

section \<open>Physical addresses\<close>

lemma mod_diff_eq_nat_4096: "0x1000000 \<le> (n :: nat) \<Longrightarrow> (n - 0x1000000) mod 4096 = n mod 4096"
proof -
  assume "0x1000000 \<le> n"
  then obtain k where "n = 0x1000000 + k" using le_iff_add by blast
  then show ?thesis by (simp add: mod_add_eq [symmetric, of "0x1000000" k 4096])
qed

lemma identity_paddr:
  assumes "unat a < 2 ^ 46" "unat flags < 1024"
  shows "pte_frame (pte_leaf a flags) OR (a AND (PAGE_SIZE - 1)) = a"
proof -
  have "PAGE_SIZE - 1 = mask 12" by (simp add: PAGE_SIZE_def mask_eq_exp_minus_1)
  then show ?thesis
    unfolding pte_frame_leaf [OF assms(2)]
    by (intro bit_word_eqI) (auto simp: bit_simps dest: high_bits [OF assms(1)])
qed

lemma page_paddr:
  assumes "4096 dvd unat pg" "unat pg < 2 ^ 46" "unat flags < 1024"
  shows "pte_frame (pte_leaf pg flags) OR (a AND (PAGE_SIZE - 1)) = pg + of_nat (unat a mod 4096)"
proof -
  have m: "PAGE_SIZE - 1 = mask 12" by (simp add: PAGE_SIZE_def mask_eq_exp_minus_1)
  have "unat (take_bit 12 a) = unat a mod 4096" by (simp add: take_bit_eq_mod unat_mod)
  then have "of_nat (unat a mod 4096) = take_bit 12 a" by (metis of_nat_unat ucast_id)
  moreover have "pg AND take_bit 12 a = 0"
    by (intro bit_word_eqI) (auto simp: bit_simps dest: aligned_bits [OF assms(1)])
  ultimately show ?thesis
    unfolding pte_frame_exact [OF assms] m
    by (simp add: disjunctive_add_eq_or take_bit_eq_mask)
qed

lemma and_16_bit: "x AND 16 \<noteq> 0 \<longleftrightarrow> bit (x :: 'a :: len word) 4"
  using and_exp_eq_0_iff_not_bit [of x 4] by simp

lemma leaf_user_bit: "pte_leaf p flags AND 16 \<noteq> 0 \<longleftrightarrow> flags AND 16 \<noteq> 0"
  unfolding and_16_bit by (simp add: pte_leaf_def pte_ppn_def PAGE_V_def bit_simps)

section \<open>The number of tables\<close>

text \<open>Pages of the same two megabytes share their tables, so a range needs few of them.\<close>

lemma walk_tables_region:
  assumes "unat a div 2 ^ 21 = unat b div 2 ^ 21"
  shows "walk_tables a = walk_tables b"
proof -
  have "unat (drop_bit 21 a) = unat (drop_bit 21 b)" using assms by (simp add: drop_bit_eq_div unat_div)
  then have "drop_bit 21 a = drop_bit 21 b" by (simp only: word_unat_eq_iff)
  then have eq: "drop_bit (n + 21) a = drop_bit (n + 21) b" for n by (metis drop_bit_drop_bit)
  from eq [of 0] eq [of 9] show ?thesis by (simp add: walk_tables_def vpn1_def vpn2_def)
qed

definition regions :: "u64 \<Rightarrow> nat \<Rightarrow> nat" where
  "regions base n = (if n = 0 then 0 else Suc ((unat base + 4096 * n - 1) div 2 ^ 21 - unat base div 2 ^ 21))"

lemma range_tables_card:
  assumes "unat base + 4096 * n < 2 ^ 64"
  shows "card (mapping_tables (range_mappings base f flags n)) \<le> 2 * regions base n"
proof (cases "n = 0")
  case True
  then show ?thesis by (simp add: range_mappings_def mapping_tables_def)
next
  case False
  let ?Q = "{unat base div 2 ^ 21 .. (unat base + 4096 * n - 1) div 2 ^ 21}"
  have sub: "mapping_tables (range_mappings base f flags n) \<subseteq> (\<Union>q \<in> ?Q. walk_tables (of_nat (q * 2 ^ 21)))"
  proof
    fix x assume "x \<in> mapping_tables (range_mappings base f flags n)"
    then obtain i where i: "i < n" "x \<in> walk_tables (base + 4096 * of_nat i)"
      by (auto simp: mapping_tables_def range_mappings_def mapping_need_def)
    have "unat (base + of_nat (4096 * i)) = unat base + 4096 * i"
      using assms i(1) by (intro unat_plus_of_nat) simp
    then have u: "unat (base + 4096 * of_nat i) = unat base + 4096 * i" by simp
    let ?q = "(unat base + 4096 * i) div 2 ^ 21"
    have le: "?q * 2 ^ 21 \<le> unat base + 4096 * i" by (rule div_times_less_eq_dividend)
    have "unat (of_nat (?q * 2 ^ 21) :: u64) = ?q * 2 ^ 21"
      using assms i(1) le by (intro unat_of_nat_64) linarith
    then have "unat (of_nat (?q * 2 ^ 21) :: u64) div 2 ^ 21 = ?q" by simp
    then have "walk_tables (base + 4096 * of_nat i) = walk_tables (of_nat (?q * 2 ^ 21))"
      using u by (intro walk_tables_region) simp
    moreover have "?q \<in> ?Q" using i(1) by (simp add: div_le_mono)
    ultimately show "x \<in> (\<Union>q \<in> ?Q. walk_tables (of_nat (q * 2 ^ 21)))" using i(2) by blast
  qed
  have "card (mapping_tables (range_mappings base f flags n)) \<le> card (\<Union>q \<in> ?Q. walk_tables (of_nat (q * 2 ^ 21)))"
    by (rule card_mono [OF _ sub]) (simp add: walk_tables_def)
  also have "\<dots> \<le> (\<Sum>q \<in> ?Q. card (walk_tables (of_nat (q * 2 ^ 21))))" by (rule card_UN_le) simp
  also have "\<dots> \<le> (\<Sum>q \<in> ?Q. 2)" by (rule sum_mono) (simp add: walk_tables_def card_insert_if)
  also have "\<dots> = 2 * regions base n"
    using False by (simp add: regions_def Suc_diff_le div_le_mono)
  finally show ?thesis .
qed

text \<open>A bound on the memory a process costs that can be computed from the layout.\<close>

definition space_bound :: "u64 \<Rightarrow> u64 \<Rightarrow> nat \<Rightarrow> nat" where
  "space_bound kb he n =
     4096 * (1 + n + 2 * (regions kb (kernel_pages kb he) + regions VIRTIO_PADDR 8 + regions USER_BASE n))"

lemma user_tables_range: "user_tables 0 n = mapping_tables (range_mappings USER_BASE f flags n)"
  by (auto simp: user_tables_def mapping_tables_def range_mappings_def mapping_need_def)

lemma space_cost_bound:
  assumes "ranges_ok kb he n"
  shows "space_cost kb he n \<le> space_bound kb he n"
proof -
  have eq: "space_tables kb he n = mapping_tables (kernel_mappings kb he) \<union> mapping_tables device_mappings \<union> user_tables 0 n"
    by (auto simp: space_tables_def mapping_tables_def)
  have "card (space_tables kb he n) \<le>
      card (mapping_tables (kernel_mappings kb he)) + card (mapping_tables device_mappings) + card (user_tables 0 n)"
    unfolding eq by (rule order_trans [OF card_Un_le]) (simp add: card_Un_le)
  moreover have "card (mapping_tables (kernel_mappings kb he)) \<le> 2 * regions kb (kernel_pages kb he)"
    unfolding kernel_range using assms by (intro range_tables_card) (simp add: ranges_ok_def)
  moreover have "card (mapping_tables device_mappings) \<le> 2 * regions VIRTIO_PADDR 8"
    unfolding device_range by (intro range_tables_card) (simp add: VIRTIO_PADDR_def)
  moreover have "card (user_tables 0 n) \<le> 2 * regions USER_BASE n"
    unfolding user_tables_range [of n "\<lambda>_. 0" 0] using assms by (intro range_tables_card) (simp add: ranges_ok_def USER_BASE_def)
  ultimately show ?thesis by (simp add: space_cost_def space_bound_def)
qed

end
