(* ===== verification/Virtio.thy ===== *)
theory Virtio
  imports Buddy
begin

text \<open>
  The virtio transport, \<open>drivers/virtio/virtio.c\<close>, and the block device driver,
  \<open>drivers/virtio/virtio_blkio.c\<close>. The device is not part of the program: it is a value of type
  \<open>'d bus\<close>, with states of type \<open>'d\<close>, that says what a register reads as, what a write to a register
  does to memory and to the device, and what the device does between two polls of the driver.
  Structures in memory are accessed at the offsets of their fields; they are packed, the used ring of
  \<open>struct virt_queue\<close> is aligned to a page.
\<close>

section \<open>The bus\<close>

record 'd bus =
  bus_read32 :: "u64 \<Rightarrow> 'd \<Rightarrow> u32"
  bus_read64 :: "u64 \<Rightarrow> 'd \<Rightarrow> u64"
  bus_write32 :: "u64 \<Rightarrow> u32 \<Rightarrow> mem \<times> 'd \<Rightarrow> mem \<times> 'd"
  bus_step :: "mem \<times> 'd \<Rightarrow> mem \<times> 'd"

record 'd vst =
  vlib :: kst
  vdev :: 'd

definition VIRTR_MAGIC_O :: u32 where "VIRTR_MAGIC_O = 0x000"
definition VIRTR_VERSION_O :: u32 where "VIRTR_VERSION_O = 0x004"
definition VIRTR_DEV_ID_O :: u32 where "VIRTR_DEV_ID_O = 0x008"
definition VIRTR_QUEUE_SEL_O :: u32 where "VIRTR_QUEUE_SEL_O = 0x030"
definition VIRTR_QUEUE_ALIGN_O :: u32 where "VIRTR_QUEUE_ALIGN_O = 0x03c"
definition VIRTR_QUEUE_PFN_O :: u32 where "VIRTR_QUEUE_PFN_O = 0x040"
definition VIRTR_QUEUE_NUM_O :: u32 where "VIRTR_QUEUE_NUM_O = 0x038"
definition VIRTR_QUEUE_NOTIFY_O :: u32 where "VIRTR_QUEUE_NOTIFY_O = 0x050"
definition VIRTR_DEV_STATUS_O :: u32 where "VIRTR_DEV_STATUS_O = 0x070"
definition VIRTR_CFG_O :: u32 where "VIRTR_CFG_O = 0x100"
definition VIRTIO_MAGIC_NUMBER :: u32 where "VIRTIO_MAGIC_NUMBER = 0x74726976"
definition VIRTIO_STATUS_ACKNOWLEDGE :: u32 where "VIRTIO_STATUS_ACKNOWLEDGE = 1"
definition VIRTIO_STATUS_DRIVER :: u32 where "VIRTIO_STATUS_DRIVER = 2"
definition VIRTIO_STATUS_DRIVER_OK :: u32 where "VIRTIO_STATUS_DRIVER_OK = 4"
definition VIRTIO_STATUS_FEATURES_OK :: u32 where "VIRTIO_STATUS_FEATURES_OK = 8"
definition VIRTQ_ENTRY_NUM :: u32 where "VIRTQ_ENTRY_NUM = 16"
definition VIRTQ_DESC_F_WRITE :: u16 where "VIRTQ_DESC_F_WRITE = 2"
definition VIRTQ_DESC_F_NEXT :: u16 where "VIRTQ_DESC_F_NEXT = 1"

text \<open>The address arithmetic is that of \<open>unsigned\<close>, 32 bits wide.\<close>

definition virtio_reg :: "u32 \<Rightarrow> u32 \<Rightarrow> u64" where
  "virtio_reg port offset = ucast (0x10001000 + port * 0x1000 + offset)"

definition virtio_reg_read32 :: "'d bus \<Rightarrow> u32 \<Rightarrow> u32 \<Rightarrow> 'd vst \<Rightarrow> u32" where
  "virtio_reg_read32 bus port offset v = bus_read32 bus (virtio_reg port offset) (vdev v)"

definition virtio_reg_read64 :: "'d bus \<Rightarrow> u32 \<Rightarrow> u32 \<Rightarrow> 'd vst \<Rightarrow> u64" where
  "virtio_reg_read64 bus port offset v = bus_read64 bus (virtio_reg port offset) (vdev v)"

definition virtio_reg_write32 :: "'d bus \<Rightarrow> u32 \<Rightarrow> u32 \<Rightarrow> u32 \<Rightarrow> 'd vst \<Rightarrow> 'd vst" where
  "virtio_reg_write32 bus port offset value v =
     (case bus_write32 bus (virtio_reg port offset) value (kmem (vlib v), vdev v) of
        (m, d) \<Rightarrow> v\<lparr>vlib := (vlib v)\<lparr>kmem := m\<rparr>, vdev := d\<rparr>)"

definition virtio_reg_fetch_and_or32 :: "'d bus \<Rightarrow> u32 \<Rightarrow> u32 \<Rightarrow> u32 \<Rightarrow> 'd vst \<Rightarrow> 'd vst" where
  "virtio_reg_fetch_and_or32 bus port offset value v =
     virtio_reg_write32 bus port offset (virtio_reg_read32 bus port offset v OR value) v"

section \<open>The queue\<close>

text \<open>
  \<open>struct virt_queue\<close>: sixteen descriptors of 16 bytes, the available ring at 256, the used ring at
  4096, then \<open>queue_index\<close>, \<open>used_index\<close> and \<open>last_used_index\<close>; its size is two pages.
\<close>

definition VQ_SIZE :: u64 where "VQ_SIZE = 8192"
definition avail_idx_at :: "u64 \<Rightarrow> u64" where "avail_idx_at vq = vq + 258"
definition avail_ring_at :: "u64 \<Rightarrow> u16 \<Rightarrow> u64" where "avail_ring_at vq i = vq + 260 + 2 * ucast (i mod 16)"
definition used_idx_at :: "u64 \<Rightarrow> u64" where "used_idx_at vq = vq + 4098"
definition queue_index_at :: "u64 \<Rightarrow> u64" where "queue_index_at vq = vq + 4228"
definition used_index_at :: "u64 \<Rightarrow> u64" where "used_index_at vq = vq + 4232"
definition last_used_index_at :: "u64 \<Rightarrow> u64" where "last_used_index_at vq = vq + 4240"

definition virtq_init :: "'d bus \<Rightarrow> u32 \<Rightarrow> u32 \<Rightarrow> 'd vst \<Rightarrow> (u64 \<times> 'd vst) res" where
  "virtq_init bus port index v =
     bind_res (kalloc (align_up VQ_SIZE PAGE_SIZE div PAGE_SIZE) (vlib v)) (\<lambda>(virtq_paddr, k).
       if virtq_paddr = 0 then Inl (Panic ''virtio: out of memory'' [])
       else
         let vq = virtq_paddr;
             m = store32 (kmem k) (queue_index_at vq) index;
             m = store64 m (used_index_at vq) (used_idx_at vq);
             v = v\<lparr>vlib := k\<lparr>kmem := m\<rparr>\<rparr>;
             v = virtio_reg_write32 bus port VIRTR_QUEUE_SEL_O index v;
             v = virtio_reg_write32 bus port VIRTR_QUEUE_NUM_O VIRTQ_ENTRY_NUM v;
             v = virtio_reg_write32 bus port VIRTR_QUEUE_ALIGN_O 0 v;
             v = virtio_reg_write32 bus port VIRTR_QUEUE_PFN_O (ucast virtq_paddr) v
         in Inr (vq, v))"

definition virtq_kick :: "'d bus \<Rightarrow> u32 \<Rightarrow> u64 \<Rightarrow> u32 \<Rightarrow> 'd vst \<Rightarrow> 'd vst" where
  "virtq_kick bus port vq desc_index v =
     (let m = kmem (vlib v);
          m = store16 m (avail_ring_at vq (load16 m (avail_idx_at vq))) (ucast desc_index);
          m = store16 m (avail_idx_at vq) (load16 m (avail_idx_at vq) + 1);
          v = v\<lparr>vlib := (vlib v)\<lparr>kmem := m\<rparr>\<rparr>;
          v = virtio_reg_write32 bus port VIRTR_QUEUE_NOTIFY_O (load32 (kmem (vlib v)) (queue_index_at vq)) v;
          m = kmem (vlib v);
          m = store16 m (last_used_index_at vq) (load16 m (last_used_index_at vq) + 1)
      in v\<lparr>vlib := (vlib v)\<lparr>kmem := m\<rparr>\<rparr>)"

definition virtq_is_busy :: "u64 \<Rightarrow> 'd vst \<Rightarrow> bool" where
  "virtq_is_busy vq v \<longleftrightarrow>
     (let m = kmem (vlib v) in load16 m (last_used_index_at vq) \<noteq> load16 m (load64 m (used_index_at vq)))"

section \<open>The block device\<close>

definition SECTOR_SIZE :: u64 where "SECTOR_SIZE = 512"
definition VIRTIO_DEVICE_BLK :: u32 where "VIRTIO_DEVICE_BLK = 2"
definition VIRTIO_BLK_T_IN :: u32 where "VIRTIO_BLK_T_IN = 0"
definition VIRTIO_BLK_T_OUT :: u32 where "VIRTIO_BLK_T_OUT = 1"

text \<open>\<open>struct virtio_blk_req\<close>: type, reserved word, sector, 512 bytes of data, status.\<close>

definition BLK_REQ_SIZE :: u64 where "BLK_REQ_SIZE = 529"
definition req_sector_at :: "u64 \<Rightarrow> u64" where "req_sector_at req = req + 8"
definition req_data_at :: "u64 \<Rightarrow> u64" where "req_data_at req = req + 16"
definition req_status_at :: "u64 \<Rightarrow> u64" where "req_status_at req = req + 528"

record blk =
  blk_request_vq :: u64
  blk_req :: u64
  blk_req_paddr :: u32
  blk_capacity :: u64

definition virtio_blk_init :: "'d bus \<Rightarrow> 'd vst \<Rightarrow> (blk \<times> 'd vst) res" where
  "virtio_blk_init bus v =
     (if virtio_reg_read32 bus 0 VIRTR_MAGIC_O v \<noteq> VIRTIO_MAGIC_NUMBER then Inl (Panic ''virtio: invalid magic value!'' [])
      else if virtio_reg_read32 bus 0 VIRTR_VERSION_O v \<noteq> 1 then Inl (Panic ''virtio: invalid version'' [])
      else if virtio_reg_read32 bus 0 VIRTR_DEV_ID_O v \<noteq> VIRTIO_DEVICE_BLK then Inl (Panic ''virtio: invalid device id'' [])
      else
        let v = virtio_reg_write32 bus 0 VIRTR_DEV_STATUS_O 0 v;
            v = virtio_reg_fetch_and_or32 bus 0 VIRTR_DEV_STATUS_O VIRTIO_STATUS_ACKNOWLEDGE v;
            v = virtio_reg_fetch_and_or32 bus 0 VIRTR_DEV_STATUS_O VIRTIO_STATUS_DRIVER v;
            v = virtio_reg_fetch_and_or32 bus 0 VIRTR_DEV_STATUS_O VIRTIO_STATUS_FEATURES_OK v
        in bind_res (virtq_init bus 0 0 v) (\<lambda>(vq, v).
          let v = virtio_reg_write32 bus 0 VIRTR_DEV_STATUS_O VIRTIO_STATUS_DRIVER_OK v;
              capacity = virtio_reg_read64 bus 0 (VIRTR_CFG_O + 0) v * SECTOR_SIZE
          in bind_res (printf (kmem (vlib v)) (''virtio-blk: capacity is %d bytes'' @ [CHR 0x0A]) [capacity] (console (vlib v))) (\<lambda>con.
          bind_res (kalloc (align_up BLK_REQ_SIZE PAGE_SIZE div PAGE_SIZE) ((vlib v)\<lparr>console := con\<rparr>)) (\<lambda>(page, k).
            let paddr = (ucast page :: u32)
            in if paddr = 0 then Inl (Panic ''virtio-blk: out of memory'' [])
               else Inr (\<lparr>blk_request_vq = vq, blk_req = ucast paddr, blk_req_paddr = paddr, blk_capacity = capacity\<rparr>,
                      v\<lparr>vlib := k\<rparr>)))))"

text \<open>The request and the three descriptors that point at its parts.\<close>

definition build_request :: "blk \<Rightarrow> u64 \<Rightarrow> u32 \<Rightarrow> bool \<Rightarrow> mem \<Rightarrow> mem res" where
  "build_request b buf sector is_write m =
     (let m = store64 m (req_sector_at (blk_req b)) (ucast sector);
          m = store32 m (blk_req b) (if is_write then VIRTIO_BLK_T_OUT else VIRTIO_BLK_T_IN)
      in if is_write then memcpy m (req_data_at (blk_req b)) buf SECTOR_SIZE else Inr m)"

definition set_desc :: "u64 \<Rightarrow> u64 \<Rightarrow> u64 \<Rightarrow> u32 \<Rightarrow> u16 \<Rightarrow> mem \<Rightarrow> mem" where
  "set_desc vq i addr len flags m =
     (let d = vq + 16 * i; m = store64 m d addr; m = store32 m (d + 8) len in store16 m (d + 12) flags)"

definition set_desc_next :: "u64 \<Rightarrow> u64 \<Rightarrow> u16 \<Rightarrow> mem \<Rightarrow> mem" where
  "set_desc_next vq i nxt m = store16 m (vq + 16 * i + 14) nxt"

definition build_descs :: "blk \<Rightarrow> bool \<Rightarrow> mem \<Rightarrow> mem" where
  "build_descs b is_write m =
     (let vq = blk_request_vq b; paddr = (ucast (blk_req_paddr b) :: u64);
          m = set_desc_next vq 0 1 (set_desc vq 0 paddr 16 VIRTQ_DESC_F_NEXT m);
          m = set_desc_next vq 1 2 (set_desc vq 1 (req_data_at paddr) (ucast SECTOR_SIZE)
                (VIRTQ_DESC_F_NEXT OR (if is_write then 0 else VIRTQ_DESC_F_WRITE)) m)
      in set_desc vq 2 (req_status_at paddr) 1 VIRTQ_DESC_F_WRITE m)"

text \<open>\<open>while (virtq_is_busy(vq)) {}\<close>: between two polls the device does one step; \<open>None\<close> is a loop that never ends.\<close>

partial_function (option) wait_idle :: "'d bus \<Rightarrow> u64 \<Rightarrow> 'd vst \<Rightarrow> 'd vst option" where
  "wait_idle bus vq v =
     (if virtq_is_busy vq v
      then wait_idle bus vq (case bus_step bus (kmem (vlib v), vdev v) of (m, d) \<Rightarrow> v\<lparr>vlib := (vlib v)\<lparr>kmem := m\<rparr>, vdev := d\<rparr>)
      else Some v)"

definition read_write_disk :: "'d bus \<Rightarrow> blk \<Rightarrow> u64 \<Rightarrow> u32 \<Rightarrow> bool \<Rightarrow> 'd vst \<Rightarrow> 'd vst res" where
  "read_write_disk bus b buf sector is_write v =
     (if blk_capacity b div SECTOR_SIZE \<le> ucast sector
      then Inl (Panic ''virtio-blk: tried to read/write sector=%d, but capacity is %d'' [ucast sector, blk_capacity b div SECTOR_SIZE])
      else
        bind_res (build_request b buf sector is_write (kmem (vlib v))) (\<lambda>m.
          let v = virtq_kick bus 0 (blk_request_vq b) 0 (v\<lparr>vlib := (vlib v)\<lparr>kmem := build_descs b is_write m\<rparr>\<rparr>)
          in bind_res (or_hang (wait_idle bus (blk_request_vq b) v)) (\<lambda>v.
            let status = kmem (vlib v) (req_status_at (blk_req b))
            in if status \<noteq> 0 then
                 bind_res (printf (kmem (vlib v)) (''virtio-blk: warn: failed to r/w sector=%d status%d'' @ [CHR 0x0A])
                     [ucast sector, ucast status] (console (vlib v)))
                   (\<lambda>con. Inr (v\<lparr>vlib := (vlib v)\<lparr>console := con\<rparr>\<rparr>))
               else if is_write then Inr v
               else bind_res (memcpy (kmem (vlib v)) buf (req_data_at (blk_req b)) SECTOR_SIZE)
                 (\<lambda>m. Inr (v\<lparr>vlib := (vlib v)\<lparr>kmem := m\<rparr>\<rparr>)))))"

end
