(* ===== verification/Virtqueue.thy ===== *)
theory Virtqueue
  imports Virtio Buddy_Pages
begin

text \<open>
  The virtqueue against a device that behaves as the virtio specification says, for both drivers: the
  queue between two requests, the kick and the wait, and the initialisation of a queue.
\<close>

section \<open>The queue between two requests\<close>

lemma driver_words:
  "span (queue_index_at vq) 14 \<subseteq> span (vq + 4096) 4096" "span (used_idx_at vq) 2 \<subseteq> span (vq + 4096) 4096"
  "span (queue_index_at vq) 4 \<subseteq> span (queue_index_at vq) 14" "span (used_index_at vq) 8 \<subseteq> span (queue_index_at vq) 14"
  "span (last_used_index_at vq) 2 \<subseteq> span (queue_index_at vq) 14"
  "span (used_index_at vq) 8 \<inter> span (last_used_index_at vq) 2 = {}" "span (used_idx_at vq) 2 \<inter> span (last_used_index_at vq) 2 = {}"
  "span (queue_index_at vq) 4 \<inter> span (last_used_index_at vq) 2 = {}"
proof -
  show "span (queue_index_at vq) 14 \<subseteq> span (vq + 4096) 4096" "span (used_idx_at vq) 2 \<subseteq> span (vq + 4096) 4096"
    using span_field [of 132 14 4096 "vq + 4096"] span_field [of 2 2 4096 "vq + 4096"] by (simp_all add: queue_index_at_def used_idx_at_def add.assoc)
  show "span (queue_index_at vq) 4 \<subseteq> span (queue_index_at vq) 14" by (rule span_mono) simp
  show "span (used_index_at vq) 8 \<subseteq> span (queue_index_at vq) 14" "span (last_used_index_at vq) 2 \<subseteq> span (queue_index_at vq) 14"
    using span_field [of 4 8 14 "vq + 4228"] span_field [of 12 2 14 "vq + 4228"]
    by (simp_all add: queue_index_at_def used_index_at_def last_used_index_at_def add.assoc)
qed (simp_all add: used_index_at_def used_idx_at_def queue_index_at_def last_used_index_at_def apart)

text \<open>
  The queue between two requests: it is queue 0, the pointer to the used index is right, and no request is under way.
\<close>

definition vq_idle :: "u64 \<Rightarrow> mem \<Rightarrow> bool" where
  "vq_idle vq m \<longleftrightarrow> load32 m (queue_index_at vq) = 0 \<and> load64 m (used_index_at vq) = used_idx_at vq \<and>
     load16 m (last_used_index_at vq) = load16 m (used_idx_at vq)"

lemma vq_words_cong:
  assumes "\<And>z. z \<in> span (queue_index_at vq) 14 \<Longrightarrow> m' z = m z"
  shows "load32 m' (queue_index_at vq) = load32 m (queue_index_at vq)" "load64 m' (used_index_at vq) = load64 m (used_index_at vq)"
    "load16 m' (last_used_index_at vq) = load16 m (last_used_index_at vq)"
  using assms driver_words(3,4,5) by (blast intro: load32_cong load64_cong load16_cong)+

lemma vq_idle_cong:
  assumes "vq_idle vq m" "\<And>z. z \<in> span (vq + 4096) 4096 \<Longrightarrow> m' z = m z"
  shows "vq_idle vq m'"
proof -
  have e: "m' z = m z" if "z \<in> span (queue_index_at vq) 14 \<or> z \<in> span (used_idx_at vq) 2" for z
    using that driver_words(1,2) [of vq] by (intro assms(2)) blast
  then have "load16 m' (used_idx_at vq) = load16 m (used_idx_at vq)" by (intro load16_cong) blast
  then show ?thesis using assms(1) e vq_words_cong [of vq m' m] by (simp add: vq_idle_def)
qed

section \<open>Kicking the queue and waiting\<close>

text \<open>Memory when the device is notified: head 0 is the newest entry of the available ring.\<close>

definition kicked :: "u64 \<Rightarrow> mem \<Rightarrow> mem" where
  "kicked vq m =
     (let i = load16 m (avail_idx_at vq); m = store16 m (avail_ring_at vq i) 0 in store16 m (avail_idx_at vq) (i + 1))"

lemma ring_offset: "unat (2 * ucast (i mod 16 :: u16) :: u64) = 2 * (unat i mod 16)" "unat (260 + 2 * ucast (i mod 16 :: u16) :: u64) = 260 + 2 * (unat i mod 16)"
proof -
  have "unat (ucast (i mod 16) :: u64) = unat i mod 16" by (simp add: unat_ucast_16_64 unat_mod)
  then show d: "unat (2 * ucast (i mod 16 :: u16) :: u64) = 2 * (unat i mod 16)"
    by (subst unat_mult_lem [THEN iffD1]) simp_all
  have "2 * (unat i mod 16) < 32" by simp
  then show "unat (260 + 2 * ucast (i mod 16 :: u16) :: u64) = 260 + 2 * (unat i mod 16)"
    using d by (subst unat_add_lem [THEN iffD1]) simp_all
qed

lemma ring_span: "span (avail_ring_at vq i) 2 \<subseteq> span (vq + 260) 32" "span (avail_ring_at vq i) 2 \<inter> span (avail_idx_at vq) 2 = {}"
proof -
  have e: "avail_ring_at vq i = vq + 260 + 2 * ucast (i mod 16)" by (simp add: avail_ring_at_def)
  have "2 * (unat i mod 16) + 2 \<le> 32" by simp
  then show s: "span (avail_ring_at vq i) 2 \<subseteq> span (vq + 260) 32"
    unfolding e by (intro span_field) (simp_all only: ring_offset(1), simp_all)
  have "span (vq + 258) 2 \<inter> span (vq + 260) 32 = {}" by (rule fields_apart) simp_all
  then show "span (avail_ring_at vq i) 2 \<inter> span (avail_idx_at vq) 2 = {}" using s by (auto simp: avail_idx_at_def)
qed

lemma kicked_ring:
  "load16 (kicked vq m) (avail_ring_at vq (load16 (kicked vq m) (avail_idx_at vq) - 1)) = 0"
  "load16 (kicked vq m) (avail_idx_at vq) = load16 m (avail_idx_at vq) + 1"
proof -
  have r: "span (avail_idx_at vq) 2 \<inter> span (avail_ring_at vq i) 2 = {}" for i using ring_span(2) by blast
  show i: "load16 (kicked vq m) (avail_idx_at vq) = load16 m (avail_idx_at vq) + 1"
    by (simp add: kicked_def Let_def mem_simps)
  show "load16 (kicked vq m) (avail_ring_at vq (load16 (kicked vq m) (avail_idx_at vq) - 1)) = 0"
    unfolding i by (simp add: kicked_def Let_def mem_simps r)
qed

lemma kicked_other: "z \<notin> span (vq + 258) 34 \<Longrightarrow> kicked vq m z = m z"
proof -
  assume z: "z \<notin> span (vq + 258) 34"
  have "span (vq + 258 + 2) 32 \<subseteq> span (vq + 258) 34" by (rule span_field) simp_all
  then have "z \<notin> span (avail_ring_at vq i) 2" for i using z ring_span(1) [of vq i] by (auto simp: add.assoc)
  moreover have "z \<notin> span (avail_idx_at vq) 2" using z span_mono [of 2 34 "vq + 258"] by (auto simp: avail_idx_at_def)
  ultimately show ?thesis by (simp add: kicked_def Let_def store16_other)
qed

text \<open>The device after \<open>j\<close> steps, and the wait.\<close>

definition after_steps :: "'d bus \<Rightarrow> nat \<Rightarrow> 'd vst \<Rightarrow> 'd vst" where
  "after_steps bus j v = (case (bus_step bus ^^ j) (kmem (vlib v), vdev v) of (m, d) \<Rightarrow> v\<lparr>vlib := (vlib v)\<lparr>kmem := m\<rparr>, vdev := d\<rparr>)"

lemma after_steps_Suc: "after_steps bus (Suc j) v = after_steps bus j (after_steps bus 1 v)"
  by (cases "bus_step bus (kmem (vlib v), vdev v)") (simp add: after_steps_def funpow_swap1 split: prod.splits)

lemma wait_idle_done:
  "(\<And>j. j < n \<Longrightarrow> virtq_is_busy vq (after_steps bus j v)) \<Longrightarrow> \<not> virtq_is_busy vq (after_steps bus n v) \<Longrightarrow>
    wait_idle bus vq v = Some (after_steps bus n v)"
proof (induction n arbitrary: v)
  case 0
  have "after_steps bus 0 v = v" by (simp add: after_steps_def)
  then show ?case using 0 by (subst wait_idle.simps) simp
next
  case (Suc n)
  have "after_steps bus 0 v = v" by (simp add: after_steps_def)
  then have busy: "virtq_is_busy vq v" using Suc.prems(1) [of 0] by simp
  have "wait_idle bus vq (after_steps bus 1 v) = Some (after_steps bus n (after_steps bus 1 v))"
    using Suc.prems after_steps_Suc [of bus _ v] by (intro Suc.IH) (metis Suc_less_eq, metis)
  moreover have "after_steps bus 1 v = (case bus_step bus (kmem (vlib v), vdev v) of (m, d) \<Rightarrow> v\<lparr>vlib := (vlib v)\<lparr>kmem := m\<rparr>, vdev := d\<rparr>)"
    by (simp add: after_steps_def)
  ultimately show ?case
    using busy by (subst wait_idle.simps) (simp only: after_steps_Suc [of bus n] if_True)
qed

lemma kick_eq:
  assumes "load32 (kicked vq m) (queue_index_at vq) = 0"
    and "bus_write32 bus (virtio_reg port VIRTR_QUEUE_NOTIFY_O) 0 (kicked vq m, vdev v) = (m1, d1)"
  shows "virtq_kick bus port vq 0 (v\<lparr>vlib := (vlib v)\<lparr>kmem := m\<rparr>\<rparr>) =
    v\<lparr>vlib := (vlib v)\<lparr>kmem := store16 m1 (last_used_index_at vq) (load16 m1 (last_used_index_at vq) + 1)\<rparr>, vdev := d1\<rparr>"
proof -
  have r: "load16 (store16 m (avail_ring_at vq (load16 m (avail_idx_at vq))) 0) (avail_idx_at vq) = load16 m (avail_idx_at vq)"
    using ring_span(2) by (simp add: mem_simps)
  show ?thesis
    using assms unfolding kicked_def by (simp add: virtq_kick_def Let_def r virtio_reg_write32_def)
qed

lemma kicked_idle: "vq_idle vq m \<Longrightarrow> vq_idle vq (kicked vq m)"
proof (erule vq_idle_cong)
  fix z assume "z \<in> span (vq + 4096) 4096"
  moreover have "span (vq + 258) 34 \<inter> span (vq + 4096) 4096 = {}" by (simp add: apart)
  ultimately show "kicked vq m z = m z" by (intro kicked_other) blast
qed

text \<open>
  What the virtio specification says of a device that is notified of a request, with memory \<open>m\<close> and the
  device in state \<open>d\<close>: it is done after some number of steps; until then it does not touch the index of
  the used ring, and never the driver's own words behind the rings; when it is done the index has advanced by
  one, and the result is as \<open>res\<close> says. The driver may write its \<open>last_used_index\<close> meanwhile.
\<close>

definition completes :: "'d bus \<Rightarrow> u32 \<Rightarrow> u64 \<Rightarrow> mem \<Rightarrow> 'd \<Rightarrow> (mem \<Rightarrow> 'd \<Rightarrow> bool) \<Rightarrow> bool" where
  "completes bus port vq m d res \<longleftrightarrow> (\<forall>m1 d1.
     bus_write32 bus (virtio_reg port VIRTR_QUEUE_NOTIFY_O) 0 (m, d) = (m1, d1) \<longrightarrow>
     (\<forall>z \<in> span (queue_index_at vq) 14. m1 z = m z) \<and>
     (\<forall>m2. (\<forall>z. z \<notin> span (last_used_index_at vq) 2 \<longrightarrow> m2 z = m1 z) \<longrightarrow>
       (\<exists>n. let r = (\<lambda>j. (bus_step bus ^^ j) (m2, d1)) in
          (\<forall>j \<le> n. \<forall>z \<in> span (queue_index_at vq) 14. fst (r j) z = m2 z) \<and>
          (\<forall>j < n. load16 (fst (r j)) (used_idx_at vq) = load16 m (used_idx_at vq)) \<and>
          load16 (fst (r n)) (used_idx_at vq) = load16 m (used_idx_at vq) + 1 \<and> res (fst (r n)) (snd (r n)))))"

lemma kick_wait:
  assumes idle: "vq_idle vq m" and dev: "completes bus port vq (kicked vq m) (vdev v) res"
  obtains m' d' where "wait_idle bus vq (virtq_kick bus port vq 0 (v\<lparr>vlib := (vlib v)\<lparr>kmem := m\<rparr>\<rparr>)) =
      Some (v\<lparr>vlib := (vlib v)\<lparr>kmem := m'\<rparr>, vdev := d'\<rparr>)" "vq_idle vq m'" "res m' d'"
proof -
  let ?k = "kicked vq m"
  have words: "load32 ?k (queue_index_at vq) = 0" "load64 ?k (used_index_at vq) = used_idx_at vq"
    "load16 ?k (last_used_index_at vq) = load16 ?k (used_idx_at vq)" using kicked_idle [OF idle] by (simp_all add: vq_idle_def)
  obtain m1 d1 where n: "bus_write32 bus (virtio_reg port VIRTR_QUEUE_NOTIFY_O) 0 (?k, vdev v) = (m1, d1)" by fastforce
  have k1: "m1 z = ?k z" if "z \<in> span (queue_index_at vq) 14" for z using dev n that by (simp add: completes_def)
  define m2 where "m2 = store16 m1 (last_used_index_at vq) (load16 m1 (last_used_index_at vq) + 1)"
  define r where "r = (\<lambda>j. (bus_step bus ^^ j) (m2, d1))"
  have m2: "\<forall>z. z \<notin> span (last_used_index_at vq) 2 \<longrightarrow> m2 z = m1 z" by (simp add: m2_def store16_other)
  have r: "(bus_step bus ^^ j) (m2, d1) = r j" for j by (simp add: r_def)
  obtain N where E: "(\<forall>j \<le> N. \<forall>z \<in> span (queue_index_at vq) 14. fst (r j) z = m2 z) \<and>
      (\<forall>j < N. load16 (fst (r j)) (used_idx_at vq) = load16 ?k (used_idx_at vq)) \<and>
      load16 (fst (r N)) (used_idx_at vq) = load16 ?k (used_idx_at vq) + 1 \<and> res (fst (r N)) (snd (r N))"
    using dev [unfolded completes_def Let_def, THEN spec, THEN spec, THEN mp, OF n, THEN conjunct2, THEN spec, THEN mp, OF m2, unfolded r]
    by (rule exE)
  have N: "\<And>j z. j \<le> N \<Longrightarrow> z \<in> span (queue_index_at vq) 14 \<Longrightarrow> fst (r j) z = m2 z"
    "\<And>j. j < N \<Longrightarrow> load16 (fst (r j)) (used_idx_at vq) = load16 ?k (used_idx_at vq)"
    "load16 (fst (r N)) (used_idx_at vq) = load16 ?k (used_idx_at vq) + 1" "res (fst (r N)) (snd (r N))"
    using E by simp_all
  have sub: "span (queue_index_at vq) 4 \<inter> span (last_used_index_at vq) 2 = {}" "span (used_index_at vq) 8 \<inter> span (last_used_index_at vq) 2 = {}"
    by (simp_all only: driver_words)
  have w2: "load32 m2 (queue_index_at vq) = 0" "load64 m2 (used_index_at vq) = used_idx_at vq"
    "load16 m2 (last_used_index_at vq) = load16 ?k (used_idx_at vq) + 1"
    using vq_words_cong [OF k1] words sub by (simp_all add: m2_def mem_simps Int_commute)
  have wj: "load32 (fst (r j)) (queue_index_at vq) = 0" "load64 (fst (r j)) (used_index_at vq) = used_idx_at vq"
    "load16 (fst (r j)) (last_used_index_at vq) = load16 ?k (used_idx_at vq) + 1" if "j \<le> N" for j
    using vq_words_cong [of vq "fst (r j)" m2] N(1) [OF that] w2 by simp_all
  let ?V = "v\<lparr>vlib := (vlib v)\<lparr>kmem := m2\<rparr>, vdev := d1\<rparr>"
  have kick: "virtq_kick bus port vq 0 (v\<lparr>vlib := (vlib v)\<lparr>kmem := m\<rparr>\<rparr>) = ?V"
    unfolding m2_def by (rule kick_eq [OF words(1) n])
  have st: "after_steps bus j ?V = v\<lparr>vlib := (vlib v)\<lparr>kmem := fst (r j)\<rparr>, vdev := snd (r j)\<rparr>" for j
    by (simp add: after_steps_def r_def split: prod.splits)
  have "wait_idle bus vq ?V = Some (after_steps bus N ?V)"
  proof (rule wait_idle_done)
    show "virtq_is_busy vq (after_steps bus j ?V)" if "j < N" for j
      using wj [of j] N(2) [OF that] that by (simp add: virtq_is_busy_def Let_def st)
    show "\<not> virtq_is_busy vq (after_steps bus N ?V)" using wj [of N] N(3) by (simp add: virtq_is_busy_def Let_def st)
  qed
  moreover have "vq_idle vq (fst (r N))" using wj [OF order_refl] N(3) by (simp add: vq_idle_def)
  ultimately show thesis using that [of "snd (r N)" "fst (r N)"] kick N(4) by (simp add: st)
qed

text \<open>A device that serves a request within the notification completes it.\<close>

lemma completes_at_once:
  assumes "bus_step bus = (\<lambda>s. s)" "bus_write32 bus (virtio_reg port VIRTR_QUEUE_NOTIFY_O) 0 (m, d) = (m1, d1)"
    and "\<And>z. z \<in> span (queue_index_at vq) 14 \<Longrightarrow> m1 z = m z" "load16 m1 (used_idx_at vq) = load16 m (used_idx_at vq) + 1"
    and "\<And>m2. (\<And>z. z \<notin> span (last_used_index_at vq) 2 \<Longrightarrow> m2 z = m1 z) \<Longrightarrow> res m2 d1"
  shows "completes bus port vq m d res"
proof -
  have steps: "(bus_step bus ^^ j) s = s" for j s by (induction j) (simp_all add: assms(1))
  have "load16 m2 (used_idx_at vq) = load16 m (used_idx_at vq) + 1" if "\<And>z. z \<notin> span (last_used_index_at vq) 2 \<Longrightarrow> m2 z = m1 z" for m2
    using assms(4) that driver_words(7) [of vq] load16_cong [of "used_idx_at vq" m2 m1] by auto
  then show ?thesis
    unfolding completes_def Let_def steps assms(2) using assms(3,5) by (auto intro!: exI [of _ 0])
qed

section \<open>Initialisation\<close>

text \<open>
  What the specification says of the device before it is notified: its identity registers, and that
  a write to a register other than the notification does not touch memory.
\<close>

definition virtio_device :: "'d bus \<Rightarrow> u32 \<Rightarrow> u32 \<Rightarrow> ('d \<Rightarrow> bool) \<Rightarrow> bool" where
  "virtio_device bus port dev_id I \<longleftrightarrow>
     (\<forall>d. I d \<longrightarrow> bus_read32 bus (virtio_reg port VIRTR_MAGIC_O) d = VIRTIO_MAGIC_NUMBER \<and>
        bus_read32 bus (virtio_reg port VIRTR_VERSION_O) d = 1 \<and> bus_read32 bus (virtio_reg port VIRTR_DEV_ID_O) d = dev_id) \<and>
     (\<forall>d m off x. I d \<longrightarrow> off \<noteq> VIRTR_QUEUE_NOTIFY_O \<longrightarrow>
        fst (bus_write32 bus (virtio_reg port off) x (m, d)) = m \<and> I (snd (bus_write32 bus (virtio_reg port off) x (m, d))))"

lemma quiet_write:
  assumes "virtio_device bus port dev_id I" "I (vdev v)" "off \<noteq> VIRTR_QUEUE_NOTIFY_O"
  obtains d where "virtio_reg_write32 bus port off x v = v\<lparr>vdev := d\<rparr>" "I d"
proof -
  have "fst (bus_write32 bus (virtio_reg port off) x (kmem (vlib v), vdev v)) = kmem (vlib v)"
    "I (snd (bus_write32 bus (virtio_reg port off) x (kmem (vlib v), vdev v)))"
    using assms by (simp_all add: virtio_device_def)
  moreover have "v\<lparr>vlib := (vlib v)\<lparr>kmem := kmem (vlib v)\<rparr>, vdev := d\<rparr> = v\<lparr>vdev := d\<rparr>" for d by (cases v) simp
  ultimately show thesis
    using that [of "snd (bus_write32 bus (virtio_reg port off) x (kmem (vlib v), vdev v))"]
    by (cases "bus_write32 bus (virtio_reg port off) x (kmem (vlib v), vdev v)") (simp add: virtio_reg_write32_def)
qed

lemma quiet_or:
  assumes "virtio_device bus port dev_id I" "I (vdev v)" "off \<noteq> VIRTR_QUEUE_NOTIFY_O"
  obtains d where "virtio_reg_fetch_and_or32 bus port off x v = v\<lparr>vdev := d\<rparr>" "I d"
  unfolding virtio_reg_fetch_and_or32_def by (rule quiet_write [OF assms])

lemma reg_offsets:
  "VIRTR_DEV_STATUS_O \<noteq> VIRTR_QUEUE_NOTIFY_O" "VIRTR_QUEUE_SEL_O \<noteq> VIRTR_QUEUE_NOTIFY_O" "VIRTR_QUEUE_NUM_O \<noteq> VIRTR_QUEUE_NOTIFY_O"
  "VIRTR_QUEUE_ALIGN_O \<noteq> VIRTR_QUEUE_NOTIFY_O" "VIRTR_QUEUE_PFN_O \<noteq> VIRTR_QUEUE_NOTIFY_O"
  by (simp_all add: VIRTR_DEV_STATUS_O_def VIRTR_QUEUE_SEL_O_def VIRTR_QUEUE_NUM_O_def VIRTR_QUEUE_ALIGN_O_def VIRTR_QUEUE_PFN_O_def VIRTR_QUEUE_NOTIFY_O_def)

text \<open>The four writes to the status register with which both drivers begin.\<close>

lemma status_sequence:
  assumes dev: "virtio_device bus port dev_id I" "I (vdev v)"
  obtains d where "virtio_reg_fetch_and_or32 bus port VIRTR_DEV_STATUS_O VIRTIO_STATUS_FEATURES_OK
      (virtio_reg_fetch_and_or32 bus port VIRTR_DEV_STATUS_O VIRTIO_STATUS_DRIVER
        (virtio_reg_fetch_and_or32 bus port VIRTR_DEV_STATUS_O VIRTIO_STATUS_ACKNOWLEDGE
          (virtio_reg_write32 bus port VIRTR_DEV_STATUS_O 0 v))) = v\<lparr>vdev := d\<rparr>" "I d"
proof -
  have or: "\<exists>d'. virtio_reg_fetch_and_or32 bus port VIRTR_DEV_STATUS_O x (v\<lparr>vdev := d\<rparr>) = v\<lparr>vdev := d'\<rparr> \<and> I d'" if "I d" for d x
    using quiet_or [OF dev(1) _ reg_offsets(1), of "v\<lparr>vdev := d\<rparr>" x] that by auto
  obtain d1 where "virtio_reg_write32 bus port VIRTR_DEV_STATUS_O 0 v = v\<lparr>vdev := d1\<rparr>" "I d1" by (rule quiet_write [OF dev reg_offsets(1)])
  then show thesis using or that by metis
qed

text \<open>A cleared queue, with the two words that \<open>virtq_init\<close> writes, is idle.\<close>

lemma fresh_queue:
  assumes zero: "\<And>z. z \<in> span p 8192 \<Longrightarrow> m z = 0"
  defines "m' \<equiv> store64 (store32 m (queue_index_at p) 0) (used_index_at p) (used_idx_at p)"
  shows "vq_idle p m'" "z \<notin> span p 8192 \<Longrightarrow> m' z = m z"
proof -
  show "m' z = m z" if "z \<notin> span p 8192"
    unfolding m'_def by (simp add: used_index_at_def queue_index_at_def store_other not_in_field [OF that])
  have u16: "load16 m' a = 0" if "span a 2 \<subseteq> span p 8192" "span a 2 \<inter> span (queue_index_at p) 4 = {}" "span a 2 \<inter> span (used_index_at p) 8 = {}" for a
  proof -
    have "load16 m' a = load16 m a" unfolding m'_def using that(2,3) by (subst load_store_apart, blast)+ (rule refl)
    also have "\<dots> = load16 (\<lambda>_. 0) a" using zero that(1) by (intro load16_cong) auto
    finally show ?thesis by (simp add: load16_zero)
  qed
  have "load16 m' (last_used_index_at p) = 0" "load16 m' (used_idx_at p) = 0"
    using span_field [of 4240 2 8192 p] span_field [of 4098 2 8192 p]
    by (intro u16; simp add: last_used_index_at_def used_idx_at_def queue_index_at_def used_index_at_def apart)+
  moreover have "span (used_index_at p) 8 \<inter> span (queue_index_at p) 4 = {}" by (simp add: used_index_at_def queue_index_at_def apart)
  then have "load32 m' (queue_index_at p) = 0" "load64 m' (used_index_at p) = used_idx_at p" by (simp_all add: m'_def mem_simps)
  ultimately show "vq_idle p m'" by (simp add: vq_idle_def)
qed

text \<open>The last register written tells the device where the queue is.\<close>

definition queue_told :: "'d bus \<Rightarrow> u32 \<Rightarrow> ('d \<Rightarrow> bool) \<Rightarrow> u64 \<Rightarrow> 'd \<Rightarrow> bool" where
  "queue_told bus port I vq d \<longleftrightarrow> (\<exists>m d0. I d0 \<and> d = snd (bus_write32 bus (virtio_reg port VIRTR_QUEUE_PFN_O) (ucast vq) (m, d0)))"

lemma queue_registers:
  assumes dev: "virtio_device bus port dev_id I" "I (vdev v)"
  obtains d where "virtio_reg_write32 bus port VIRTR_QUEUE_PFN_O (ucast vq) (virtio_reg_write32 bus port VIRTR_QUEUE_ALIGN_O 0
      (virtio_reg_write32 bus port VIRTR_QUEUE_NUM_O VIRTQ_ENTRY_NUM (virtio_reg_write32 bus port VIRTR_QUEUE_SEL_O 0 v))) = v\<lparr>vdev := d\<rparr>"
    "I d" "queue_told bus port I vq d"
proof -
  have w: "\<exists>d'. virtio_reg_write32 bus port off x (v\<lparr>vdev := d\<rparr>) = v\<lparr>vdev := d'\<rparr> \<and> I d' \<and>
      d' = snd (bus_write32 bus (virtio_reg port off) x (kmem (vlib v), d))" if d: "I d" and off: "off \<noteq> VIRTR_QUEUE_NOTIFY_O" for d off x
  proof -
    have "I (vdev (v\<lparr>vdev := d\<rparr>))" using d by simp
    from quiet_write [OF dev(1) this off, of x] obtain d' where "virtio_reg_write32 bus port off x (v\<lparr>vdev := d\<rparr>) = v\<lparr>vdev := d'\<rparr>" "I d'" by auto
    moreover from this(1) have "vdev (virtio_reg_write32 bus port off x (v\<lparr>vdev := d\<rparr>)) = d'" by simp
    then have "d' = snd (bus_write32 bus (virtio_reg port off) x (kmem (vlib v), d))" by (simp add: virtio_reg_write32_def split: prod.splits)
    ultimately show ?thesis by blast
  qed
  have v: "v = v\<lparr>vdev := vdev v\<rparr>" by simp
  obtain d1 where d1: "virtio_reg_write32 bus port VIRTR_QUEUE_SEL_O 0 v = v\<lparr>vdev := d1\<rparr>" "I d1" using w [OF dev(2) reg_offsets(2), of 0] by auto
  obtain d2 where d2: "virtio_reg_write32 bus port VIRTR_QUEUE_NUM_O VIRTQ_ENTRY_NUM (v\<lparr>vdev := d1\<rparr>) = v\<lparr>vdev := d2\<rparr>" "I d2"
    using w [OF d1(2) reg_offsets(3)] by blast
  obtain d3 where d3: "virtio_reg_write32 bus port VIRTR_QUEUE_ALIGN_O 0 (v\<lparr>vdev := d2\<rparr>) = v\<lparr>vdev := d3\<rparr>" "I d3"
    using w [OF d2(2) reg_offsets(4)] by blast
  obtain d4 where d4: "virtio_reg_write32 bus port VIRTR_QUEUE_PFN_O (ucast vq) (v\<lparr>vdev := d3\<rparr>) = v\<lparr>vdev := d4\<rparr>" "I d4"
    "d4 = snd (bus_write32 bus (virtio_reg port VIRTR_QUEUE_PFN_O) (ucast vq) (kmem (vlib v), d3))" using w [OF d3(2) reg_offsets(5)] by blast
  have "queue_told bus port I vq d4" unfolding queue_told_def using d3(2) d4(3) by blast
  then show thesis using that [of d4] d1(1) d2(1) d3(1) d4(1,2) by simp
qed

text \<open>The page a driver takes for its request: below \<open>2 ^ 32\<close>, so that its address survives the 32-bit pointer of the driver.\<close>

lemma request_page:
  assumes inv: "alloc_inv b k F" and F: "F \<subseteq> {..< 2 ^ 32}" "0 < card F"
  obtains p k' where "kalloc 1 k = Inr (p, k')" "(ucast p :: u32) \<noteq> 0" "ucast (ucast p :: u32) = p" "unat p < 2 ^ 32" "page_at p \<subseteq> F"
    "alloc_inv b k' (F - page_at p)" "card (F - page_at p) + 4096 = card F" "\<forall>a. unat a \<notin> F \<longrightarrow> kmem k' a = kmem k a"
    "\<forall>a. unat a \<in> page_at p \<longrightarrow> kmem k' a = 0"
    "heap_start k' = heap_start k" "heap_end k' = heap_end k" "console k' = console k"
proof -
  have fin: "finite F" using F(1) by (rule finite_subset) simp
  obtain p k' where K: "kalloc 1 k = Inr (p, k')" using pages.alloc_enough [OF inv F(2)] .
  note P = pages.alloc_page [OF inv K]
  have p32: "unat p < 2 ^ 32" using P F(1) page_ne [of p] by blast
  then have pe: "ucast (ucast p :: u32) = p" by (rule ucast_ucast_64)
  then have "(ucast p :: u32) \<noteq> 0" using P by (metis ucast_0)
  then show thesis
    using that [OF K _ pe p32] P pages.alloc_card [OF inv K fin] pages.alloc_keeps [OF inv K] pages.alloc_zero [OF inv K] pages_alloc_frame [OF inv K]
    by blast
qed

lemma virtq_init_ok:
  assumes dev: "virtio_device bus port dev_id I" "I (vdev v)" and al: "alloc_inv True (vlib v) F" "8192 \<le> card F"
  obtains vq k d where "virtq_init bus port 0 v = Inr (vq, v\<lparr>vlib := k, vdev := d\<rparr>)" "I d" "4096 dvd unat vq" "unat vq + 8192 < 2 ^ 64"
    "{unat vq ..< unat vq + 8192} \<subseteq> F" "alloc_inv True k (F - {unat vq ..< unat vq + 8192})" "card (F - {unat vq ..< unat vq + 8192}) + 8192 = card F"
    "heap_start k = heap_start (vlib v)" "heap_end k = heap_end (vlib v)" "console k = console (vlib v)"
    "\<forall>a. unat a \<notin> F \<longrightarrow> kmem k a = kmem (vlib v) a"
    "vq_idle vq (kmem k)" "queue_told bus port I vq d"
proof -
  obtain p k where K: "kalloc 2 (vlib v) = Inr (p, k)" "p \<noteq> 0" "4096 dvd unat p" "unat p + 8192 < 2 ^ 64" "{unat p ..< unat p + 8192} \<subseteq> F"
    "alloc_inv True k (F - {unat p ..< unat p + 8192})" "card (F - {unat p ..< unat p + 8192}) + 8192 = card F" "heap_start k = heap_start (vlib v)" "heap_end k = heap_end (vlib v)" "console k = console (vlib v)"
    "\<And>a. unat a \<notin> F \<Longrightarrow> kmem k a = kmem (vlib v) a" "\<And>a. unat p \<le> unat a \<Longrightarrow> unat a < unat p + 8192 \<Longrightarrow> kmem k a = 0"
    using kalloc_two [OF al] by metis
  define m where "m = store64 (store32 (kmem k) (queue_index_at p) 0) (used_index_at p) (used_idx_at p)"
  have vqs: "z \<in> span p 8192 \<longleftrightarrow> unat p \<le> unat z \<and> unat z < unat p + 8192" for z using K(4) by (intro in_span_iff) simp
  have "kmem k z = 0" if "z \<in> span p 8192" for z using that K(12) vqs by blast
  note Q = fresh_queue [of p "kmem k", OF this, folded m_def]
  have same: "m z = kmem k z" if "unat z \<notin> {unat p ..< unat p + 8192}" for z using that vqs Q(2) by auto
  have inv: "alloc_inv True (k\<lparr>kmem := m\<rparr>) (F - {unat p ..< unat p + 8192})" by (rule alloc_inv_frame [OF K(6)]) (simp add: same)
  let ?v0 = "v\<lparr>vlib := k\<lparr>kmem := m\<rparr>\<rparr>"
  have "I (vdev ?v0)" using dev(2) by simp
  then obtain d where d: "virtio_reg_write32 bus port VIRTR_QUEUE_PFN_O (ucast p) (virtio_reg_write32 bus port VIRTR_QUEUE_ALIGN_O 0
      (virtio_reg_write32 bus port VIRTR_QUEUE_NUM_O VIRTQ_ENTRY_NUM (virtio_reg_write32 bus port VIRTR_QUEUE_SEL_O 0 ?v0))) = ?v0\<lparr>vdev := d\<rparr>"
    "I d" "queue_told bus port I p d" using queue_registers [OF dev(1)] by metis
  have "align_up VQ_SIZE PAGE_SIZE div PAGE_SIZE = 2" by (simp add: align_up_def VQ_SIZE_def PAGE_SIZE_def)
  then have run: "virtq_init bus port 0 v = Inr (p, v\<lparr>vlib := k\<lparr>kmem := m\<rparr>, vdev := d\<rparr>)"
    using K(1,2) d(1) by (simp add: virtq_init_def m_def Let_def)
  have "m a = kmem (vlib v) a" if "unat a \<notin> F" for a
  proof -
    have "unat a \<notin> {unat p ..< unat p + 8192}" using that K(5) by blast
    then show ?thesis using same K(11) [OF that] by simp
  qed
  then show thesis
    using that [OF run d(2) K(3,4,5) inv K(7)] K(8-10) Q(1) d(3) by simp
qed

end
