(* ===== verification/Virtio_Blk.thy ===== *)
theory Virtio_Blk
  imports Virtqueue
begin

text \<open>
  The block device driver against a device that behaves as the virtio specification says: the
  request as the device finds it, a whole transfer, and the initialisation of the driver.
\<close>

section \<open>The request in memory\<close>

text \<open>
  The chain of descriptors 0, 1 and 2 that the driver offers: a header of 16 bytes, a sector of
  data and a byte for the status, the last one (and for a read the data) for the device to write.
\<close>

definition blk_chain :: "mem \<Rightarrow> u64 \<Rightarrow> u64 \<Rightarrow> u64 \<Rightarrow> u64 \<Rightarrow> bool \<Rightarrow> bool" where
  "blk_chain m vq hdr data stat is_write \<longleftrightarrow>
     load64 m vq = hdr \<and> load32 m (vq + 8) = 16 \<and> load16 m (vq + 12) = 1 \<and> load16 m (vq + 14) = 1 \<and>
     load64 m (vq + 16) = data \<and> load32 m (vq + 24) = 512 \<and> load16 m (vq + 28) = (if is_write then 1 else 3) \<and> load16 m (vq + 30) = 2 \<and>
     load64 m (vq + 32) = stat \<and> load32 m (vq + 40) = 1 \<and> load16 m (vq + 44) = 2"

lemma build_descs_chain:
  "blk_chain (build_descs b w m) (blk_request_vq b) (ucast (blk_req_paddr b)) (ucast (blk_req_paddr b) + 16) (ucast (blk_req_paddr b) + 528) w"
  unfolding blk_chain_def
  by (intro conjI)
    (simp_all add: build_descs_def set_desc_def set_desc_next_def Let_def add.assoc mem_simps apart req_data_at_def req_status_at_def
      VIRTQ_DESC_F_NEXT_def VIRTQ_DESC_F_WRITE_def SECTOR_SIZE_def)

lemma build_descs_other:
  assumes "z \<notin> span (blk_request_vq b) 48"
  shows "build_descs b w m z = m z"
  by (simp add: build_descs_def set_desc_def set_desc_next_def Let_def add.assoc not_in_field [OF assms] not_in_head [OF assms] store_other)

section \<open>The driver's invariant\<close>

text \<open>
  The driver is initialised and idle: the queue and the request are in memory of their own, the
  pointer to the used index is right, and no request is under way. The request must lie below four
  gigabytes, where its 32-bit address is the whole address.
\<close>

definition blk_ready :: "blk \<Rightarrow> mem \<Rightarrow> bool" where
  "blk_ready b m \<longleftrightarrow> blk_req b = ucast (blk_req_paddr b) \<and> blk_req b \<noteq> 0 \<and>
     span (blk_request_vq b) 8192 \<inter> span (blk_req b) 529 = {} \<and> unat (blk_request_vq b) + 8192 < 2 ^ 64 \<and>
     vq_idle (blk_request_vq b) m"

definition bytes_at :: "mem \<Rightarrow> u64 \<Rightarrow> nat \<Rightarrow> u8 list" where
  "bytes_at m a n = map (\<lambda>i. m (a + of_nat i)) [0..<n]"

text \<open>
  What the virtio specification says of a block device, for the requests this driver makes. Notified of
  the chain whose head is the newest entry of the available ring, the device completes it; then the
  sector is written to the disk or the data is in the buffer, and the status is 0. It writes nothing
  else but the used ring.
\<close>

definition served :: "('d \<Rightarrow> bool) \<Rightarrow> ('d \<Rightarrow> u64 \<Rightarrow> u8 list) \<Rightarrow> u64 \<Rightarrow> u64 \<Rightarrow> bool \<Rightarrow> mem \<Rightarrow> 'd \<Rightarrow> mem \<Rightarrow> 'd \<Rightarrow> bool" where
  "served I disk vq hdr w m d m' d' \<longleftrightarrow> m' (hdr + 528) = 0 \<and> I d' \<and>
     (if w then disk d' = (disk d)(load64 m (hdr + 8) := bytes_at m (hdr + 16) 512)
      else disk d' = disk d \<and> bytes_at m' (hdr + 16) 512 = disk d (load64 m (hdr + 8))) \<and>
     (\<forall>z. z \<notin> span vq 8192 \<longrightarrow> z \<notin> span (hdr + 528) 1 \<longrightarrow> (w \<or> z \<notin> span (hdr + 16) 512) \<longrightarrow> m' z = m z)"

definition serves :: "'d bus \<Rightarrow> ('d \<Rightarrow> bool) \<Rightarrow> ('d \<Rightarrow> u64 \<Rightarrow> u8 list) \<Rightarrow> u64 \<Rightarrow> bool" where
  "serves bus I disk vq \<longleftrightarrow> (\<forall>m d hdr w.
     I d \<longrightarrow> blk_chain m vq hdr (hdr + 16) (hdr + 528) w \<longrightarrow> span vq 8192 \<inter> span hdr 529 = {} \<longrightarrow>
     load16 m (avail_ring_at vq (load16 m (avail_idx_at vq) - 1)) = 0 \<longrightarrow>
     load32 m hdr = (if w then 1 else 0) \<longrightarrow>
     completes bus 0 vq m d (served I disk vq hdr w m d))"

section \<open>Copying a sector\<close>

lemma bytes_at_cong: "(\<And>z. z \<in> span a n \<Longrightarrow> m' z = m z) \<Longrightarrow> n \<le> 2 ^ 64 \<Longrightarrow> bytes_at m' a n = bytes_at m a n"
  by (simp add: bytes_at_def span_def unat_of_nat_64)

lemma sector_copy:
  assumes "d \<noteq> 0" "s \<noteq> 0" "unat d + 512 \<le> 2 ^ 64" "unat s + 512 \<le> 2 ^ 64" "span d 512 \<inter> span s 512 = {}"
  obtains m' where "memcpy m d s SECTOR_SIZE = Inr m'" "bytes_at m' d 512 = bytes_at m s 512" "\<And>z. z \<notin> span d 512 \<Longrightarrow> m' z = m z"
proof -
  have "d \<in> span d 512" "s \<in> span s 512" by simp_all
  then have "d \<notin> span s 512" "s \<notin> span d 512" using assms(5) by blast+
  then have "copy_safe d s (unat SECTOR_SIZE)"
    using assms(3,4) by (auto simp: copy_safe_def SECTOR_SIZE_def in_span_iff)
  from memcpy_ok [OF assms(1,2) this, of m] show thesis
    by (rule that) (simp_all add: bytes_at_def span_def SECTOR_SIZE_def unat_of_nat_64)
qed

lemma ready_req:
  assumes "blk_ready b m"
  shows "blk_req b = ucast (blk_req_paddr b)" "unat (blk_req b) + 529 \<le> 2 ^ 64" "req_data_at (blk_req b) \<noteq> 0"
    "unat (req_data_at (blk_req b)) + 512 \<le> 2 ^ 64"
proof -
  show e: "blk_req b = ucast (blk_req_paddr b)" using assms by (simp add: blk_ready_def)
  have u: "unat (blk_req b) < 2 ^ 32" unfolding e unat_ucast_32_64 by (rule unat_bound(3))
  then show "unat (blk_req b) + 529 \<le> 2 ^ 64" by simp
  have "unat (req_data_at (blk_req b)) = unat (blk_req b) + 16"
    using unat_plus_of_nat [of "blk_req b" 16] u by (simp add: req_data_at_def)
  then show "req_data_at (blk_req b) \<noteq> 0" "unat (req_data_at (blk_req b)) + 512 \<le> 2 ^ 64" using u by (auto simp: unat_eq_0)
qed

lemma build_request_ok:
  assumes "blk_ready b m" "buf \<noteq> 0" "unat buf + 512 \<le> 2 ^ 64" "span buf 512 \<inter> span (blk_req b) 529 = {}"
  obtains m' where "build_request b buf sector w m = Inr m'" "load64 m' (blk_req b + 8) = ucast sector"
    "load32 m' (blk_req b) = (if w then 1 else 0)" "w \<longrightarrow> bytes_at m' (blk_req b + 16) 512 = bytes_at m buf 512"
    "\<forall>z. z \<notin> span (blk_req b) 529 \<longrightarrow> m' z = m z"
proof -
  let ?r = "blk_req b"
  let ?m = "store32 (store64 m (?r + 8) (ucast sector)) ?r (if w then 1 else 0)"
  have f: "load64 ?m (?r + 8) = ucast sector" "load32 ?m ?r = (if w then 1 else 0)"
    by (simp_all add: mem_simps apart)
  have o: "?m z = m z" if "z \<notin> span ?r 529" for z
    by (simp add: store_other not_in_field [OF that] not_in_head [OF that])
  show thesis
  proof (cases w)
    case True
    note R = ready_req [OF assms(1)]
    have sub: "span (?r + 16) 512 \<subseteq> span ?r 529" by (rule span_field) simp_all
    then have "span (?r + 16) 512 \<inter> span buf 512 = {}" using assms(4) by blast
    then obtain m' where m': "memcpy ?m (?r + 16) buf SECTOR_SIZE = Inr m'" "bytes_at m' (?r + 16) 512 = bytes_at ?m buf 512"
      "\<And>z. z \<notin> span (?r + 16) 512 \<Longrightarrow> m' z = ?m z"
      using sector_copy [of "?r + 16" buf ?m] R(3,4) assms(2,3) unfolding req_data_at_def by metis
    have "span ?r 16 \<inter> span (?r + 16) 512 = {}" by (rule head_apart) simp_all
    then have keep: "m' z = ?m z" if "z \<in> span ?r 16" for z using that by (intro m'(3)) blast
    have hd: "span (?r + 8) 8 \<subseteq> span ?r 16" "span ?r 4 \<subseteq> span ?r 16" by (rule span_field, simp_all) (rule span_mono, simp)
    have "load64 m' (?r + 8) = load64 ?m (?r + 8)" using keep hd(1) by (intro load64_cong) blast
    moreover have "load32 m' ?r = load32 ?m ?r" using keep hd(2) by (intro load32_cong) blast
    moreover have "bytes_at ?m buf 512 = bytes_at m buf 512" by (intro bytes_at_cong o) (use assms(4) in blast, simp)
    moreover have "m' z = m z" if "z \<notin> span ?r 529" for z using m'(3) [of z] o [OF that] sub that by auto
    ultimately show thesis
      using that [of m'] m'(1,2) f True by (simp add: build_request_def Let_def req_sector_at_def req_data_at_def VIRTIO_BLK_T_OUT_def)
  next
    case False
    then show thesis
      using that [of ?m] f o by (simp add: build_request_def Let_def req_sector_at_def VIRTIO_BLK_T_IN_def)
  qed
qed

section \<open>A transfer\<close>

text \<open>What a transfer relies on: the driver is ready, the device idle, and the caller's buffer is apart from both structures.\<close>

definition buf_ok :: "blk \<Rightarrow> u64 \<Rightarrow> bool" where
  "buf_ok b buf \<longleftrightarrow> buf \<noteq> 0 \<and> unat buf + 512 \<le> 2 ^ 64 \<and> span buf 512 \<inter> span (blk_req b) 529 = {} \<and>
     span buf 512 \<inter> span (blk_request_vq b) 8192 = {}"

text \<open>The bytes of the queue that the driver owns and those of the descriptors are where the kick does not write.\<close>

lemma blk_chain_cong:
  assumes "blk_chain m vq hdr data stat w" "\<And>z. z \<in> span vq 48 \<Longrightarrow> m' z = m z"
  shows "blk_chain m' vq hdr data stat w"
  using assms(1) field_cong [of vq 48 m' m, OF assms(2)] head_cong [of vq 48 m' m, OF assms(2)] by (simp add: blk_chain_def)

text \<open>Memory up to the notification: the request is complete and the driver's words at the end of the queue are as before.\<close>

lemma request_offered:
  assumes "blk_ready b m" "buf_ok b buf"
  obtains m1 where "build_request b buf sector w m = Inr m1"
    "blk_chain (kicked (blk_request_vq b) (build_descs b w m1)) (blk_request_vq b) (blk_req b) (blk_req b + 16) (blk_req b + 528) w"
    "load32 (kicked (blk_request_vq b) (build_descs b w m1)) (blk_req b) = (if w then 1 else 0)"
    "load64 (kicked (blk_request_vq b) (build_descs b w m1)) (blk_req b + 8) = ucast sector"
    "w \<longrightarrow> bytes_at (kicked (blk_request_vq b) (build_descs b w m1)) (blk_req b + 16) 512 = bytes_at m buf 512"
    "\<forall>z. z \<in> span (blk_request_vq b + 4096) 4096 \<longrightarrow> build_descs b w m1 z = m z"
    "\<forall>z. z \<notin> span (blk_request_vq b) 8192 \<longrightarrow> z \<notin> span (blk_req b) 529 \<longrightarrow> kicked (blk_request_vq b) (build_descs b w m1) z = m z"
proof -
  let ?vq = "blk_request_vq b" and ?r = "blk_req b"
  have A: "buf \<noteq> 0" "unat buf + 512 \<le> 2 ^ 64" "span buf 512 \<inter> span ?r 529 = {}" using assms(2) by (simp_all add: buf_ok_def)
  have apt: "span ?vq 8192 \<inter> span ?r 529 = {}" using assms(1) unfolding blk_ready_def by blast
  obtain m1 where m1: "build_request b buf sector w m = Inr m1" "load64 m1 (?r + 8) = ucast sector"
    "load32 m1 ?r = (if w then 1 else 0)" "w \<longrightarrow> bytes_at m1 (?r + 16) 512 = bytes_at m buf 512"
    "\<forall>z. z \<notin> span ?r 529 \<longrightarrow> m1 z = m z" by (rule build_request_ok [OF assms(1) A, where sector = sector and w = w])
  let ?m2 = "build_descs b w m1"
  let ?m3 = "kicked ?vq ?m2"
  have sub: "span ?vq 48 \<subseteq> span ?vq 8192" "span (?vq + 258) 34 \<subseteq> span ?vq 8192" "span (?vq + 4096) 4096 \<subseteq> span ?vq 8192"
    by (rule span_mono, simp) (rule span_field; simp)+
  have dis: "span ?vq 48 \<inter> span (?vq + 258) 34 = {}" "span ?vq 48 \<inter> span (?vq + 4096) 4096 = {}" "span (?vq + 258) 34 \<inter> span (?vq + 4096) 4096 = {}"
    by (simp_all add: apart)
  have out: "?m3 z = m1 z" if "z \<notin> span ?vq 8192 \<or> z \<in> span (?vq + 4096) 4096" for z
  proof -
    have "z \<notin> span (?vq + 258) 34" "z \<notin> span ?vq 48" using that sub dis by blast+
    then show ?thesis by (simp add: kicked_other build_descs_other)
  qed
  have rq: "?m3 z = m1 z" if "z \<in> span ?r 529" for z using that apt by (intro out) blast
  have rsub: "span (?r + 8) 8 \<subseteq> span ?r 529" "span (?r + 16) 512 \<subseteq> span ?r 529" "span ?r 4 \<subseteq> span ?r 529"
    by (rule span_field; simp)+ (rule span_mono, simp)
  show thesis
  proof (rule that [of m1])
    have "blk_chain ?m2 ?vq ?r (?r + 16) (?r + 528) w" using build_descs_chain [of b w m1] ready_req(1) [OF assms(1)] by simp
    then show "blk_chain ?m3 ?vq ?r (?r + 16) (?r + 528) w"
      by (rule blk_chain_cong) (rule kicked_other, use dis(1) in blast)
    have "load32 ?m3 ?r = load32 m1 ?r" using rq rsub(3) by (intro load32_cong) blast
    then show "load32 ?m3 ?r = (if w then 1 else 0)" using m1(3) by simp
    have "load64 ?m3 (?r + 8) = load64 m1 (?r + 8)" using rq rsub(1) by (intro load64_cong) blast
    then show "load64 ?m3 (?r + 8) = ucast sector" using m1(2) by simp
    have "bytes_at ?m3 (?r + 16) 512 = bytes_at m1 (?r + 16) 512" using rq rsub(2) by (intro bytes_at_cong) auto
    then show "w \<longrightarrow> bytes_at ?m3 (?r + 16) 512 = bytes_at m buf 512" using m1(4) by metis
    have "z \<notin> span ?r 529" if "z \<in> span (?vq + 4096) 4096" for z using that apt sub(3) by blast
    moreover have "?m2 z = m1 z" if "z \<in> span (?vq + 4096) 4096" for z using that dis(2) by (intro build_descs_other) blast
    ultimately show "\<forall>z. z \<in> span (?vq + 4096) 4096 \<longrightarrow> ?m2 z = m z" using m1(5) by simp
    show "\<forall>z. z \<notin> span ?vq 8192 \<longrightarrow> z \<notin> span ?r 529 \<longrightarrow> ?m3 z = m z" using out m1(5) by simp
  qed (rule m1(1))
qed

lemma blk_ready_span: "blk_ready b m \<Longrightarrow> z \<in> span (blk_request_vq b) 8192 \<Longrightarrow> unat z \<in> {unat (blk_request_vq b) ..< unat (blk_request_vq b) + 8192}"
  by (subst (asm) in_span_iff) (simp_all add: blk_ready_def)

lemma ready_cong:
  assumes "blk_ready b m" "\<And>z. z \<in> span (blk_request_vq b) 8192 \<Longrightarrow> m' z = m z"
  shows "blk_ready b m'"
proof -
  have "span (blk_request_vq b + 4096) 4096 \<subseteq> span (blk_request_vq b) 8192" by (rule span_field) simp_all
  then have "vq_idle (blk_request_vq b) m \<Longrightarrow> vq_idle (blk_request_vq b) m'" using assms(2) by (elim vq_idle_cong) blast
  then show ?thesis using assms(1) unfolding blk_ready_def by blast
qed

text \<open>The transfer up to the status: the request is offered, kicked and served.\<close>

lemma request_served:
  assumes dev: "serves bus I disk (blk_request_vq b)" "I (vdev v)" and rdy: "blk_ready b (kmem (vlib v))" "buf_ok b buf"
  obtains m1 m' d' where "build_request b buf sector w (kmem (vlib v)) = Inr m1"
    "wait_idle bus (blk_request_vq b) (virtq_kick bus 0 (blk_request_vq b) 0 (v\<lparr>vlib := (vlib v)\<lparr>kmem := build_descs b w m1\<rparr>\<rparr>)) =
       Some (v\<lparr>vlib := (vlib v)\<lparr>kmem := m'\<rparr>, vdev := d'\<rparr>)"
    "blk_ready b m'" "I d'" "m' (blk_req b + 528) = 0"
    "if w then disk d' = (disk (vdev v))(ucast sector := bytes_at (kmem (vlib v)) buf 512)
     else disk d' = disk (vdev v) \<and> bytes_at m' (blk_req b + 16) 512 = disk (vdev v) (ucast sector)"
    "\<forall>z. z \<notin> span (blk_request_vq b) 8192 \<longrightarrow> z \<notin> span (blk_req b) 529 \<longrightarrow> m' z = kmem (vlib v) z"
proof -
  let ?vq = "blk_request_vq b" and ?r = "blk_req b" and ?m = "kmem (vlib v)"
  obtain m1 where R: "build_request b buf sector w ?m = Inr m1"
    "blk_chain (kicked ?vq (build_descs b w m1)) ?vq ?r (?r + 16) (?r + 528) w"
    "load32 (kicked ?vq (build_descs b w m1)) ?r = (if w then 1 else 0)"
    "load64 (kicked ?vq (build_descs b w m1)) (?r + 8) = ucast sector"
    "w \<longrightarrow> bytes_at (kicked ?vq (build_descs b w m1)) (?r + 16) 512 = bytes_at ?m buf 512"
    "\<forall>z. z \<in> span (?vq + 4096) 4096 \<longrightarrow> build_descs b w m1 z = ?m z"
    "\<forall>z. z \<notin> span ?vq 8192 \<longrightarrow> z \<notin> span ?r 529 \<longrightarrow> kicked ?vq (build_descs b w m1) z = ?m z"
    by (rule request_offered [OF rdy, where sector = sector and w = w])
  let ?k = "kicked ?vq (build_descs b w m1)"
  have apt: "span ?vq 8192 \<inter> span ?r 529 = {}" and idle: "vq_idle ?vq ?m" using rdy(1) unfolding blk_ready_def by blast+
  have dv: "completes bus 0 ?vq ?k (vdev v) (served I disk ?vq ?r w ?k (vdev v))"
    using dev(1) [unfolded serves_def, rule_format, OF dev(2) R(2) apt kicked_ring(1) R(3)] .
  have "vq_idle ?vq (build_descs b w m1)" using R(6) by (intro vq_idle_cong [OF idle]) blast
  then obtain m' d' where W: "wait_idle bus ?vq (virtq_kick bus 0 ?vq 0 (v\<lparr>vlib := (vlib v)\<lparr>kmem := build_descs b w m1\<rparr>\<rparr>)) =
      Some (v\<lparr>vlib := (vlib v)\<lparr>kmem := m'\<rparr>, vdev := d'\<rparr>)" "vq_idle ?vq m'" "served I disk ?vq ?r w ?k (vdev v) m' d'"
    using dv by (rule kick_wait)
  note S = W(3) [unfolded served_def R(4)]
  have "blk_ready b m'" using rdy(1) W(2) unfolding blk_ready_def by blast
  moreover have "if w then disk d' = (disk (vdev v))(ucast sector := bytes_at ?m buf 512)
     else disk d' = disk (vdev v) \<and> bytes_at m' (?r + 16) 512 = disk (vdev v) (ucast sector)"
    using S R(5) by (cases w) simp_all
  moreover have "m' z = ?m z" if "z \<notin> span ?vq 8192" "z \<notin> span ?r 529" for z
    using S not_in_field [OF that(2), of 528 1] not_in_field [OF that(2), of 16 512] R(7) that by simp
  ultimately show thesis using that [OF R(1) W(1)] S by blast
qed

lemma transfer:
  assumes dev: "serves bus I disk (blk_request_vq b)" "I (vdev v)" and rdy: "blk_ready b (kmem (vlib v))" "buf_ok b buf"
    and sec: "(ucast sector :: u64) < blk_capacity b div SECTOR_SIZE"
  obtains m' d' where "read_write_disk bus b buf sector w v = Inr (v\<lparr>vlib := (vlib v)\<lparr>kmem := m'\<rparr>, vdev := d'\<rparr>)" "I d'" "blk_ready b m'"
    "if w then disk d' = (disk (vdev v))(ucast sector := bytes_at (kmem (vlib v)) buf 512)
     else disk d' = disk (vdev v) \<and> bytes_at m' buf 512 = disk (vdev v) (ucast sector)"
    "\<forall>z. z \<notin> span (blk_request_vq b) 8192 \<longrightarrow> z \<notin> span (blk_req b) 529 \<longrightarrow> w \<or> z \<notin> span buf 512 \<longrightarrow> m' z = kmem (vlib v) z"
proof -
  let ?vq = "blk_request_vq b" and ?r = "blk_req b"
  obtain m1 M d where R: "build_request b buf sector w (kmem (vlib v)) = Inr m1"
    "wait_idle bus ?vq (virtq_kick bus 0 ?vq 0 (v\<lparr>vlib := (vlib v)\<lparr>kmem := build_descs b w m1\<rparr>\<rparr>)) =
       Some (v\<lparr>vlib := (vlib v)\<lparr>kmem := M\<rparr>, vdev := d\<rparr>)"
    "blk_ready b M" "I d" "M (?r + 528) = 0"
    "if w then disk d = (disk (vdev v))(ucast sector := bytes_at (kmem (vlib v)) buf 512)
     else disk d = disk (vdev v) \<and> bytes_at M (?r + 16) 512 = disk (vdev v) (ucast sector)"
    "\<forall>z. z \<notin> span ?vq 8192 \<longrightarrow> z \<notin> span ?r 529 \<longrightarrow> M z = kmem (vlib v) z"
    by (rule request_served [OF dev rdy, where sector = sector and w = w])
  have no: "(blk_capacity b div SECTOR_SIZE \<le> ucast sector) = False" using sec by (simp add: not_le)
  have run: "read_write_disk bus b buf sector w v =
      (if w then Inr (v\<lparr>vlib := (vlib v)\<lparr>kmem := M\<rparr>, vdev := d\<rparr>)
       else bind_res (memcpy M buf (?r + 16) SECTOR_SIZE) (\<lambda>m. Inr (v\<lparr>vlib := (vlib v)\<lparr>kmem := m\<rparr>, vdev := d\<rparr>)))"
    unfolding read_write_disk_def Let_def R(1,2) bind_res_simps or_hang_simps no if_False req_status_at_def req_data_at_def
    by (cases w) (simp_all add: R(5), cases v, simp)
  show thesis
  proof (cases w)
    case True
    then show thesis using that [of d M] run R(3,4,6,7) by simp
  next
    case False
    have B: "buf \<noteq> 0" "unat buf + 512 \<le> 2 ^ 64" "span buf 512 \<inter> span ?r 529 = {}" "span buf 512 \<inter> span ?vq 8192 = {}"
      using rdy(2) by (simp_all add: buf_ok_def)
    note Q = ready_req(3,4) [OF rdy(1), unfolded req_data_at_def]
    have "span (?r + 16) 512 \<subseteq> span ?r 529" by (rule span_field) simp_all
    then have "span buf 512 \<inter> span (?r + 16) 512 = {}" using B(3) by blast
    then obtain m' where m': "memcpy M buf (?r + 16) SECTOR_SIZE = Inr m'" "bytes_at m' buf 512 = bytes_at M (?r + 16) 512"
      "\<And>z. z \<notin> span buf 512 \<Longrightarrow> m' z = M z"
      using sector_copy [OF B(1) Q(1) B(2) Q(2)] by metis
    have "blk_ready b m'" using B(4) m'(3) by (intro ready_cong [OF R(3)]) blast
    then show thesis using that [of d m'] run m' R(4,6,7) False by simp
  qed
qed

abbreviation blk_device :: "'d bus \<Rightarrow> ('d \<Rightarrow> bool) \<Rightarrow> bool" where
  "blk_device bus I \<equiv> virtio_device bus 0 VIRTIO_DEVICE_BLK I"

section \<open>Initialisation\<close>

lemma capacity_line: "\<exists>con'. printf m (''virtio-blk: capacity is %d bytes'' @ [CHR 0x0A]) [a] con = Inr con'"
proof -
  have pct: "byte_of CHR ''%'' \<notin> set (bytes_of ''virtio-blk: capacity is '')" "byte_of CHR ''%'' \<notin> set (bytes_of '' bytes'' @ [10])" by simp_all
  have fmt: "bytes_of (''virtio-blk: capacity is %d bytes'' @ [CHR 0x0A]) =
      bytes_of ''virtio-blk: capacity is '' @ byte_of CHR ''%'' # byte_of CHR ''d'' # (bytes_of '' bytes'' @ [10]) @ []" by simp
  show ?thesis
    unfolding printf_def fmt vprintf_literal [OF pct(1)] vprintf_conv printf_d_raw bind_res_simps
    by (simp only: prod.case vprintf_literal [OF pct(2)]) simp
qed

lemma virtio_blk_init_ok:
  assumes dev: "blk_device bus I" "I (vdev v)" and al: "alloc_inv True (vlib v) F" "F \<subseteq> {..< 2 ^ 32}" "12288 \<le> card F"
  obtains b k d F' where "virtio_blk_init bus v = Inr (b, v\<lparr>vlib := k, vdev := d\<rparr>)" "I d" "blk_ready b (kmem k)"
    "blk_capacity b = bus_read64 bus (virtio_reg 0 VIRTR_CFG_O) d * 512"
    "F' \<subseteq> F" "card F = card F' + 12288" "alloc_inv True k F'" "heap_start k = heap_start (vlib v)" "heap_end k = heap_end (vlib v)"
    "\<forall>a. unat a \<notin> F \<longrightarrow> kmem k a = kmem (vlib v) a"
    "{unat (blk_request_vq b) ..< unat (blk_request_vq b) + 8192} \<union> {unat (blk_req b) ..< unat (blk_req b) + 4096} \<subseteq> F - F'"
proof -
  obtain d4 where d4: "virtio_reg_fetch_and_or32 bus 0 VIRTR_DEV_STATUS_O VIRTIO_STATUS_FEATURES_OK
      (virtio_reg_fetch_and_or32 bus 0 VIRTR_DEV_STATUS_O VIRTIO_STATUS_DRIVER
        (virtio_reg_fetch_and_or32 bus 0 VIRTR_DEV_STATUS_O VIRTIO_STATUS_ACKNOWLEDGE
          (virtio_reg_write32 bus 0 VIRTR_DEV_STATUS_O 0 v))) = v\<lparr>vdev := d4\<rparr>" "I d4" by (rule status_sequence [OF dev])
  have al4: "I (vdev (v\<lparr>vdev := d4\<rparr>))" "alloc_inv True (vlib (v\<lparr>vdev := d4\<rparr>)) F" "8192 \<le> card F" using d4(2) al by simp_all
  obtain vq k1 d5 where Q0: "virtq_init bus 0 0 (v\<lparr>vdev := d4\<rparr>) = Inr (vq, (v\<lparr>vdev := d4\<rparr>)\<lparr>vlib := k1, vdev := d5\<rparr>)" and Q: "I d5" "4096 dvd unat vq" "unat vq + 8192 < 2 ^ 64"
    "{unat vq ..< unat vq + 8192} \<subseteq> F" "alloc_inv True k1 (F - {unat vq ..< unat vq + 8192})" "card (F - {unat vq ..< unat vq + 8192}) + 8192 = card F"
    "heap_start k1 = heap_start (vlib (v\<lparr>vdev := d4\<rparr>))" "heap_end k1 = heap_end (vlib (v\<lparr>vdev := d4\<rparr>))" "console k1 = console (vlib (v\<lparr>vdev := d4\<rparr>))"
    "\<forall>a. unat a \<notin> F \<longrightarrow> kmem k1 a = kmem (vlib (v\<lparr>vdev := d4\<rparr>)) a"
    "vq_idle vq (kmem k1)"
    by (rule virtq_init_ok [OF dev(1) al4])
  have "(v\<lparr>vdev := d4\<rparr>)\<lparr>vlib := k1, vdev := d5\<rparr> = v\<lparr>vlib := k1, vdev := d5\<rparr>" by (cases v) simp
  note Q0 = Q0 [unfolded this]
  let ?v1 = "v\<lparr>vlib := k1, vdev := d5\<rparr>" and ?F1 = "F - {unat vq ..< unat vq + 8192}"
  obtain d6 where d6: "virtio_reg_write32 bus 0 VIRTR_DEV_STATUS_O VIRTIO_STATUS_DRIVER_OK ?v1 = v\<lparr>vlib := k1, vdev := d6\<rparr>" "I d6"
    using quiet_write [OF dev(1) _ reg_offsets(1), of ?v1] Q(1) by auto
  let ?cap = "bus_read64 bus (virtio_reg 0 VIRTR_CFG_O) d6 * 512"
  obtain con where con: "printf (kmem k1) (''virtio-blk: capacity is %d bytes'' @ [CHR 0x0A]) [?cap] (console k1) = Inr con"
    using capacity_line by blast
  note inv = alloc_inv_console [OF Q(5), of con] and cF1 = Q(6)
  have F1: "?F1 \<subseteq> {..< 2 ^ 32}" "0 < card ?F1" using cF1 al(2,3) by auto
  obtain p k2 where P: "kalloc 1 (k1\<lparr>console := con\<rparr>) = Inr (p, k2)" "(ucast p :: u32) \<noteq> 0" "ucast (ucast p :: u32) = p" "unat p < 2 ^ 32"
    "page_at p \<subseteq> ?F1" "alloc_inv True k2 (?F1 - page_at p)" "card (?F1 - page_at p) + 4096 = card ?F1"
    and keep: "\<forall>a. unat a \<notin> ?F1 \<longrightarrow> kmem k2 a = kmem (k1\<lparr>console := con\<rparr>) a"
    and Ph: "heap_start k2 = heap_start (k1\<lparr>console := con\<rparr>)" "heap_end k2 = heap_end (k1\<lparr>console := con\<rparr>)"
    by (rule request_page [OF inv F1])
  let ?b = "\<lparr>blk_request_vq = vq, blk_req = p, blk_req_paddr = ucast p, blk_capacity = ?cap\<rparr>" and ?v2 = "v\<lparr>vlib := k2, vdev := d6\<rparr>"
  have ident: "bus_read32 bus (virtio_reg 0 VIRTR_MAGIC_O) (vdev v) = VIRTIO_MAGIC_NUMBER"
    "bus_read32 bus (virtio_reg 0 VIRTR_VERSION_O) (vdev v) = 1" "bus_read32 bus (virtio_reg 0 VIRTR_DEV_ID_O) (vdev v) = VIRTIO_DEVICE_BLK"
    using dev by (simp_all add: virtio_device_def)
  have one: "align_up BLK_REQ_SIZE PAGE_SIZE div PAGE_SIZE = 1" by (simp add: align_up_def BLK_REQ_SIZE_def PAGE_SIZE_def)
  have upd: "v\<lparr>vlib := k1, vdev := d6, vlib := k2\<rparr> = ?v2" by (cases v) simp
  have run: "virtio_blk_init bus v = Inr (?b, ?v2)"
    unfolding virtio_blk_init_def Let_def virtio_reg_read32_def virtio_reg_read64_def ident one
    by (simp add: d4(1) Q0 d6(1) con [simplified] P(1-3) upd SECTOR_SIZE_def)
  have vqs: "z \<in> span vq 8192 \<longleftrightarrow> unat z \<in> {unat vq ..< unat vq + 8192}" for z using Q(3) by (subst in_span_iff) simp_all
  have ps: "z \<in> span p 529 \<Longrightarrow> unat z \<in> page_at p" for z using P(4) by (subst (asm) in_span_iff) (simp_all add: page_at_def)
  have "span vq 8192 \<inter> span p 529 = {}" using P(5) ps vqs by blast
  then have "blk_ready ?b (kmem k1)" using Q(3,11) P(2,3) by (auto simp: blk_ready_def)
  moreover have "kmem k2 z = kmem k1 z" if "z \<in> span vq 8192" for z using keep that vqs by simp
  ultimately have rdy: "blk_ready ?b (kmem k2)" by (rule ready_cong) simp
  let ?F' = "?F1 - page_at p"
  have "kmem k2 a = kmem (vlib v) a" if "unat a \<notin> F" for a using keep Q(10) that by simp
  then show thesis
    using that [OF run d6(2) rdy, of ?F'] P Ph cF1 Q(4,7,8) by (simp add: page_at_def) blast
qed

end
