(* ===== verification/Kernel.thy ===== *)
theory Kernel
  imports Trap Space_Lookup Virtio_Blk
begin

text \<open>
  The whole kernel: \<open>kmain\<close> of \<open>kernel/kernel.c\<close>, and the life of the process table as a transition
  system whose steps are the operations of the scheduler and of the trap handler. What every
  reachable table looks like is proved by rule induction over it.
\<close>

section \<open>\<open>kmain\<close>\<close>

text \<open>
  \<open>handler\<close> is the address of \<open>kernel_trap_context_save\<close>, \<open>shell\<close> and \<open>shell_size\<close> are the symbols
  of the embedded program, and \<open>d\<close> is the state of the block device behind \<open>bus\<close>.
  The final \<open>yield\<close> returns to \<open>kmain\<close> only when every process has exited.
\<close>

definition kmain :: "u64 \<Rightarrow> 'd bus \<Rightarrow> u64 \<Rightarrow> u64 \<Rightarrow> ksys \<Rightarrow> 'd \<Rightarrow> (ksys \<times> blk \<times> 'd) res" where
  "kmain handler bus shell shell_size s d =
     bind_res (printf (kmem (lib s)) (replicate 15 (CHR 0x0A)) [] (console (lib s))) (\<lambda>con.
     bind_res (init_memory ((lib s)\<lparr>console := con\<rparr>)) (\<lambda>k.
     bind_res (init_proc (init_trap_handler handler (s\<lparr>lib := k\<rparr>))) (\<lambda>s.
     bind_res (virtio_blk_init bus \<lparr>vlib = lib s, vdev = d\<rparr>) (\<lambda>(b, v).
     bind_res (create_process shell shell_size (s\<lparr>lib := vlib v\<rparr>)) (\<lambda>(i, s).
     bind_res (yield s) (\<lambda>y. case y of
         Back s \<Rightarrow> Inl (Panic ''Exited out of scheduler. Halting!'' [])
       | Away s \<Rightarrow> Inr (s, b, vdev v)))))))"

section \<open>The process table over time\<close>

text \<open>
  \<open>work\<close> is everything that is not an operation on the table: user code, or kernel code between
  two operations. The idle process is the kernel's own thread; it makes no system calls.
\<close>

inductive sched_step :: "ksys \<Rightarrow> ksys \<Rightarrow> bool" where
  spawn: "create_process img image_size s = Inr (i, s') \<Longrightarrow> sched_step s s'"
| switch: "yield s = Inr (Away s') \<Longrightarrow> sched_step s s'"
| exit: "current_proc s \<noteq> idle_proc s \<Longrightarrow> proc_exit s = Inr (Away s') \<Longrightarrow> sched_step s s'"
| trap: "current_proc s \<noteq> idle_proc s \<Longrightarrow> kernel_trap polls s = Inr (Done cs s') \<Longrightarrow> sched_step s s'"
| block: "current_proc s \<noteq> idle_proc s \<Longrightarrow> kernel_trap polls s = Inr (Suspended cs s') \<Longrightarrow> sched_step s s'"
| work: "procs s' = procs s \<Longrightarrow> current_proc s' = current_proc s \<Longrightarrow> idle_proc s' = idle_proc s \<Longrightarrow> sched_step s s'"

inductive_cases sched_stepE: "sched_step s s'"

inductive reaches :: "ksys \<Rightarrow> ksys \<Rightarrow> bool" where
  here: "reaches s s"
| step: "reaches s s' \<Longrightarrow> sched_step s' s'' \<Longrightarrow> reaches s s''"

definition sched_inv :: "ksys \<Rightarrow> bool" where
  "sched_inv s \<longleftrightarrow> (\<exists>idle cur. idle_proc s = Some idle \<and> current_proc s = Some cur \<and>
     table_ok idle (procs s) \<and> in_use (procs s) cur)"

text \<open>What an operation may do to the table and to the current process.\<close>

definition table_step :: "ksys \<Rightarrow> ksys \<Rightarrow> bool" where
  "table_step s s' \<longleftrightarrow> idle_proc s' = idle_proc s \<and> length (procs s') = length (procs s) \<and>
     (\<forall>j < length (procs s). state (procs s ! j) \<noteq> PROC_UNUSED \<longrightarrow>
        pid (procs s' ! j) = pid (procs s ! j) \<and> page_table (procs s' ! j) = page_table (procs s ! j) \<and>
        (state (procs s' ! j) = state (procs s ! j) \<or> state (procs s' ! j) = PROC_EXITED \<and> current_proc s = Some j \<and> idle_proc s \<noteq> Some j)) \<and>
     (\<forall>j < length (procs s). state (procs s ! j) = PROC_UNUSED \<longrightarrow>
        state (procs s' ! j) = PROC_UNUSED \<or> state (procs s' ! j) = PROC_RUNNABLE \<and> pid (procs s' ! j) = of_nat (j + 1))"

lemma table_stepD:
  assumes "table_step s s'"
  shows "idle_proc s' = idle_proc s" "length (procs s') = length (procs s)"
    "j < length (procs s) \<Longrightarrow> state (procs s ! j) \<noteq> PROC_UNUSED \<Longrightarrow>
      pid (procs s' ! j) = pid (procs s ! j) \<and> page_table (procs s' ! j) = page_table (procs s ! j) \<and>
      (state (procs s' ! j) = state (procs s ! j) \<or> state (procs s' ! j) = PROC_EXITED \<and> current_proc s = Some j \<and> idle_proc s \<noteq> Some j)"
    "j < length (procs s) \<Longrightarrow> state (procs s ! j) = PROC_UNUSED \<Longrightarrow>
      state (procs s' ! j) = PROC_UNUSED \<or> state (procs s' ! j) = PROC_RUNNABLE \<and> pid (procs s' ! j) = of_nat (j + 1)"
  using assms by (simp_all add: table_step_def)

lemma table_step_refl: "procs s' = procs s \<Longrightarrow> idle_proc s' = idle_proc s \<Longrightarrow> table_step s s'"
  by (simp add: table_step_def)

lemma create_process_slot:
  assumes "create_process img image_size s = Inr (i, s')"
  obtains root sp where "find_unused 0 (procs s) = Some i" "current_proc s' = current_proc s" "idle_proc s' = idle_proc s"
    "procs s' = (procs s)[i := \<lparr>pid = of_nat (i + 1), state = PROC_RUNNABLE, psp = sp, page_table = root\<rparr>]"
  using assms by (auto simp: create_process_def bind_res_Inr_iff split: option.splits prod.splits)

lemma create_process_table: "create_process img image_size s = Inr (i, s') \<Longrightarrow> table_step s s' \<and> current_proc s' = current_proc s"
  by (erule create_process_slot) (auto simp: table_step_def nth_list_update split: if_splits dest!: find_unused_Some)

lemma sched_inv_current:
  assumes "sched_inv s"
  obtains idle cur where "idle_proc s = Some idle" "current_proc s = Some cur" "table_ok idle (procs s)"
    "in_use (procs s) cur" "cur < length (procs s)" "length (procs s) = 8"
  using assms by (auto simp: sched_inv_def table_ok_def in_use_def PROCS_MAX_def)

lemma yield_table:
  assumes "sched_inv s" "yield s = Inr (Away s')"
  shows "table_step s s'" "current_proc s' = Some (next_slot (procs s) (the (idle_proc s)) (the (current_proc s)))"
proof -
  obtain idle cur where S: "idle_proc s = Some idle" "current_proc s = Some cur" "cur < length (procs s)"
    using sched_inv_current [OF assms(1)] by metis
  obtain n where s': "n = next_slot (procs s) idle cur"
    "s' = switch_context cur n (s\<lparr>current_proc := Some n,
       hart := (hart s)\<lparr>sscratch := stack_top s n, satp := new_satp (page_table (procs s ! n))\<rparr>\<rparr>)"
    using yield_away [OF assms(2)] S(1,2) by (metis option.sel)
  show "table_step s s'"
    using switch_context_slot [of cur "s\<lparr>current_proc := Some n, hart := (hart s)\<lparr>sscratch := stack_top s n, satp := new_satp (page_table (procs s ! n))\<rparr>\<rparr>" n] S
    by (auto simp: table_step_def s'(2))
  show "current_proc s' = Some (next_slot (procs s) (the (idle_proc s)) (the (current_proc s)))"
    using S s' by simp
qed

lemma sched_inv_step:
  assumes "sched_inv s" "table_step s s'" "current_proc s' = Some c" "in_use (procs s') c"
  shows "sched_inv s'"
proof -
  obtain idle cur where S: "idle_proc s = Some idle" "current_proc s = Some cur" "table_ok idle (procs s)" "length (procs s) = 8"
    using sched_inv_current [OF assms(1)] by metis
  have "pid (procs s' ! i) = of_nat (i + 1)" if i: "i < 8" "i \<noteq> idle" "state (procs s' ! i) \<noteq> PROC_UNUSED" for i
    using assms(2) S i by (cases "state (procs s ! i) = PROC_UNUSED") (auto simp: table_step_def table_ok_def PROCS_MAX_def)
  moreover have "in_use (procs s') idle \<and> pid (procs s' ! idle) = 0"
    using assms(2) S by (auto simp: table_step_def table_ok_def in_use_def PROCS_MAX_def)
  ultimately have "table_ok idle (procs s')"
    using assms(2) S by (auto simp: table_ok_def table_step_def PROCS_MAX_def)
  then show ?thesis using assms(2-4) S(1) by (auto simp: sched_inv_def table_step_def)
qed

lemma table_step_in_use:
  assumes "table_step s s'" "in_use (procs s) j" "length (procs s) = 8"
  shows "in_use (procs s') j"
  using assms by (auto simp: table_step_def in_use_def PROCS_MAX_def PROC_EXITED_def PROC_UNUSED_def)

lemma yield_inv:
  assumes "sched_inv s" "yield s = Inr (Away s')"
  shows "sched_inv s'"
proof -
  obtain idle cur where S: "idle_proc s = Some idle" "current_proc s = Some cur" "table_ok idle (procs s)"
    "in_use (procs s) cur" "length (procs s) = 8" using sched_inv_current [OF assms(1)] by metis
  have "in_use (procs s) (next_slot (procs s) idle cur)" by (rule rr.pick_used [OF S(3,4)])
  then have "in_use (procs s') (next_slot (procs s) idle cur)"
    using table_step_in_use [OF yield_table(1) [OF assms] _ S(5)] by blast
  then show ?thesis using sched_inv_step [OF assms(1) yield_table(1) [OF assms]] yield_table(2) [OF assms] S by simp
qed

text \<open>\<open>proc_exit\<close> marks the caller and yields.\<close>

definition mark_exited :: "console \<Rightarrow> ksys \<Rightarrow> ksys" where
  "mark_exited con s = s\<lparr>lib := (lib s)\<lparr>console := con\<rparr>,
     procs := (procs s)[the (current_proc s) := (procs s ! the (current_proc s))\<lparr>state := PROC_EXITED\<rparr>]\<rparr>"

lemma proc_exit_yields:
  assumes "proc_exit s = Inr y"
  obtains con where "yield (mark_exited con s) = Inr y" "current_proc s \<noteq> None"
  using assms by (auto simp: proc_exit_def mark_exited_def bind_res_Inr_iff split: option.splits)

lemma mark_exited_table:
  assumes "sched_inv s" "current_proc s \<noteq> idle_proc s"
  shows "table_step s (mark_exited con s)" "sched_inv (mark_exited con s)" "current_proc (mark_exited con s) = current_proc s"
    "state (procs (mark_exited con s) ! the (current_proc s)) = PROC_EXITED"
proof -
  obtain idle cur where S: "idle_proc s = Some idle" "current_proc s = Some cur" "table_ok idle (procs s)"
    "in_use (procs s) cur" "cur < length (procs s)" "length (procs s) = 8" using sched_inv_current [OF assms(1)] by metis
  show t: "table_step s (mark_exited con s)"
    using S assms(2) by (auto simp: table_step_def mark_exited_def nth_list_update in_use_def)
  show c: "current_proc (mark_exited con s) = current_proc s" by (simp add: mark_exited_def)
  show "state (procs (mark_exited con s) ! the (current_proc s)) = PROC_EXITED"
    using S by (simp add: mark_exited_def)
  show "sched_inv (mark_exited con s)"
    using sched_inv_step [OF assms(1) t, of cur] table_step_in_use [OF t S(4,6)] c S(2) by simp
qed

lemma table_step_trans:
  assumes "table_step s s'" "table_step s' s''" "current_proc s' = current_proc s" "sched_inv s"
  shows "table_step s s''"
proof -
  obtain idle cur where S: "current_proc s = Some cur" "in_use (procs s) cur" using sched_inv_current [OF assms(4)] by metis
  have "state (procs s'' ! j) = PROC_UNUSED \<or> state (procs s'' ! j) = PROC_RUNNABLE \<and> pid (procs s'' ! j) = of_nat (j + 1)"
    if j: "j < length (procs s)" "state (procs s ! j) = PROC_UNUSED" for j
  proof -
    have "current_proc s' \<noteq> Some j" using j S assms(3) by (auto simp: in_use_def)
    moreover have "PROC_RUNNABLE \<noteq> PROC_UNUSED" by (simp add: PROC_RUNNABLE_def PROC_UNUSED_def)
    ultimately show ?thesis
      using table_stepD(4) [OF assms(1) j] table_stepD(3,4) [OF assms(2), of j] table_stepD(2) [OF assms(1)] j(1) by auto
  qed
  moreover have "pid (procs s'' ! j) = pid (procs s ! j) \<and> page_table (procs s'' ! j) = page_table (procs s ! j) \<and>
        (state (procs s'' ! j) = state (procs s ! j) \<or> state (procs s'' ! j) = PROC_EXITED \<and> current_proc s = Some j \<and> idle_proc s \<noteq> Some j)"
    if j: "j < length (procs s)" "state (procs s ! j) \<noteq> PROC_UNUSED" for j
  proof -
    have 1: "pid (procs s' ! j) = pid (procs s ! j) \<and> page_table (procs s' ! j) = page_table (procs s ! j) \<and>
        (state (procs s' ! j) = state (procs s ! j) \<or> state (procs s' ! j) = PROC_EXITED \<and> current_proc s = Some j \<and> idle_proc s \<noteq> Some j)"
      by (rule table_stepD(3) [OF assms(1) j])
    then have "state (procs s' ! j) \<noteq> PROC_UNUSED" using j(2) by (auto simp: PROC_EXITED_def PROC_UNUSED_def)
    then have "pid (procs s'' ! j) = pid (procs s' ! j) \<and> page_table (procs s'' ! j) = page_table (procs s' ! j) \<and>
        (state (procs s'' ! j) = state (procs s' ! j) \<or> state (procs s'' ! j) = PROC_EXITED \<and> current_proc s' = Some j \<and> idle_proc s' \<noteq> Some j)"
      using j(1) table_stepD(2) [OF assms(1)] by (intro table_stepD(3) [OF assms(2)]) simp_all
    then show ?thesis using 1 assms(3) table_stepD(1) [OF assms(1)] by auto
  qed
  ultimately show ?thesis using assms(1,2) by (simp add: table_step_def)
qed

lemma exit_step:
  assumes "sched_inv s" "current_proc s \<noteq> idle_proc s" "proc_exit s = Inr (Away s')"
  shows "table_step s s'" "sched_inv s'" "state (procs s' ! the (current_proc s)) = PROC_EXITED"
    "current_proc s' \<noteq> current_proc s"
proof -
  obtain con where y: "yield (mark_exited con s) = Inr (Away s')" using proc_exit_yields [OF assms(3)] by blast
  note M = mark_exited_table [OF assms(1,2), of con]
  note Y = yield_table [OF M(2) y]
  show "table_step s s'" by (rule table_step_trans [OF M(1) Y(1) M(3) assms(1)])
  show "sched_inv s'" by (rule yield_inv [OF M(2) y])
  obtain idle cur where S: "current_proc s = Some cur" "in_use (procs s) cur" "cur < length (procs s)"
    using sched_inv_current [OF assms(1)] by metis
  have "length (procs (mark_exited con s)) = length (procs s)" by (simp add: mark_exited_def)
  then show "state (procs s' ! the (current_proc s)) = PROC_EXITED"
    using Y(1) M(4) S by (auto simp: table_step_def PROC_EXITED_def PROC_UNUSED_def)
  show "current_proc s' \<noteq> current_proc s" using yield_away [OF y] M(3) by (metis option.sel switch_context_simps(1) Y(2))
qed

section \<open>Traps as steps\<close>

definition same_table :: "ksys \<Rightarrow> ksys \<Rightarrow> bool" where
  "same_table s s' \<longleftrightarrow> procs s' = procs s \<and> current_proc s' = current_proc s \<and> idle_proc s' = idle_proc s"

lemma same_tableI: "same_table s (s\<lparr>lib := l, hart := h\<rparr>)" "same_table s (s\<lparr>lib := l\<rparr>)" "same_table s (s\<lparr>hart := h\<rparr>)" "same_table s s"
  by (simp_all add: same_table_def)

lemma same_table_trans: "same_table s s' \<Longrightarrow> same_table s' s'' \<Longrightarrow> same_table s s''"
  by (simp add: same_table_def)

lemma yield_back: "yield s = Inr (Back s') \<Longrightarrow> s' = s"
  by (auto simp: yield_def Let_def split: option.splits if_splits)

lemma getc_loop_steps:
  "getc_loop polls f s = Inr r \<Longrightarrow>
    (case r of Done cs s' \<Rightarrow> same_table s s' | Suspended cs s' \<Rightarrow> yield s = Inr (Away s') | Polling s' \<Rightarrow> s' = s)"
proof (induction polls)
  case (Cons c polls)
  show ?case
  proof (cases "0 \<le> sint c")
    case True
    then show ?thesis using Cons.prems by (auto simp: frame_set_def same_tableI)
  next
    case False
    then obtain y where y: "yield s = Inr y" using Cons.prems by (auto simp: bind_res_Inr_iff)
    show ?thesis
    proof (cases y)
      case (Back s1)
      then have "s1 = s" using y yield_back by blast
      then show ?thesis using Cons False y Back by auto
    qed (use Cons.prems False y in auto)
  qed
qed auto

lemma exit_call:
  assumes "bind_res (proc_exit s) (\<lambda>y. case y of Back s \<Rightarrow> Inl e | Away s \<Rightarrow> Inr (Suspended polls s)) = Inr r"
  shows "\<exists>s'. r = Suspended polls s' \<and> proc_exit s = Inr (Away s')"
proof -
  obtain y where y: "proc_exit s = Inr y" using assms by (auto simp: bind_res_Inr_iff)
  show ?thesis using assms y by (cases y) auto
qed

lemma syscall_steps:
  "syscall_entry polls f s = Inr r \<Longrightarrow>
    (case r of Done cs s' \<Rightarrow> same_table s s'
     | Suspended cs s' \<Rightarrow> yield s = Inr (Away s') \<or> proc_exit s = Inr (Away s') | Polling s' \<Rightarrow> s' = s)"
  by (auto simp: syscall_entry_def Let_def same_tableI split: if_splits sysret.splits
      dest!: getc_loop_steps exit_call) (auto simp: bind_res_Inr_iff same_tableI)

lemma kernel_trap_steps:
  assumes "kernel_trap polls s = Inr r"
  obtains s1 where "same_table s s1"
    "case r of Done cs s' \<Rightarrow> same_table s s'
     | Suspended cs s' \<Rightarrow> yield s1 = Inr (Away s') \<or> proc_exit s1 = Inr (Away s') | Polling s' \<Rightarrow> s' = s1"
proof -
  obtain f s1 where f: "trap_save s = (f, s1)" by (cases "trap_save s")
  then have st: "same_table s s1" by (auto simp: trap_save_def Let_def same_tableI)
  obtain r1 where r1: "syscall_entry polls f s1 = Inr r1" "r = trap_return f (finish_trap (sepc (hart s1) + 4) r1)"
    using assms f by (auto simp: kernel_trap_def handle_trap_def Let_def bind_res_Inr_iff split: if_splits)
  have "case r of Done cs s' \<Rightarrow> same_table s1 s'
     | Suspended cs s' \<Rightarrow> yield s1 = Inr (Away s') \<or> proc_exit s1 = Inr (Away s') | Polling s' \<Rightarrow> s' = s1"
    using syscall_steps [OF r1(1)] r1(2)
    by (cases r1) (auto simp: finish_trap_def trap_return_def trap_restore_def Let_def same_table_def)
  then have "case r of Done cs s' \<Rightarrow> same_table s s'
     | Suspended cs s' \<Rightarrow> yield s1 = Inr (Away s') \<or> proc_exit s1 = Inr (Away s') | Polling s' \<Rightarrow> s' = s1"
    using same_table_trans [OF st] by (cases r) auto
  with st show thesis by (rule that)
qed

lemma same_table_inv: "same_table s s' \<Longrightarrow> sched_inv s' = sched_inv s" "same_table s s' \<Longrightarrow> table_step s s'' = table_step s' s''"
  by (auto simp: same_table_def sched_inv_def table_step_def)

lemma same_table_step: "same_table s s' \<Longrightarrow> table_step s s'"
  by (simp add: same_table_def table_step_refl)

text \<open>Every step keeps the table in order, and no step runs a process that has exited.\<close>

definition gone :: "nat \<Rightarrow> ksys \<Rightarrow> bool" where
  "gone j s \<longleftrightarrow> j < 8 \<and> idle_proc s \<noteq> Some j \<and> state (procs s ! j) = PROC_EXITED \<and> current_proc s \<noteq> Some j"

lemma yield_not_gone:
  assumes "sched_inv s" "yield s = Inr (Away s')" "gone j s"
  shows "current_proc s' \<noteq> Some j"
proof -
  obtain idle cur where S: "idle_proc s = Some idle" "current_proc s = Some cur" "table_ok idle (procs s)" "in_use (procs s) cur"
    using sched_inv_current [OF assms(1)] by metis
  have "\<not> runnable (procs s) j" using assms(3) by (simp add: gone_def runnable_def PROC_RUNNABLE_def PROC_EXITED_def)
  then have "next_slot (procs s) idle cur \<noteq> j" using next_slot_first [OF S(3,4)] assms(3) S(1) by (auto simp: gone_def)
  then show ?thesis using yield_table(2) [OF assms(1,2)] S by simp
qed

lemma gone_step: "gone j s \<Longrightarrow> sched_inv s \<Longrightarrow> table_step s s' \<Longrightarrow> current_proc s' \<noteq> Some j \<Longrightarrow> gone j s'"
  using table_stepD(1) [of s s'] table_stepD(3) [of s s' j]
  by (auto simp: gone_def PROC_EXITED_def PROC_UNUSED_def elim!: sched_inv_current)

lemma exit_not_gone:
  assumes "sched_inv s" "current_proc s \<noteq> idle_proc s" "proc_exit s = Inr (Away s')" "gone j s"
  shows "current_proc s' \<noteq> Some j"
proof -
  obtain con where y: "yield (mark_exited con s) = Inr (Away s')" using proc_exit_yields [OF assms(3)] by blast
  note M = mark_exited_table [OF assms(1,2), of con]
  have "gone j (mark_exited con s)" using gone_step [OF assms(4,1) M(1)] M(3) assms(4) by (simp add: gone_def)
  then show ?thesis by (rule yield_not_gone [OF M(2) y])
qed

lemma switch_step:
  assumes "sched_inv s" "yield s = Inr (Away s')"
  shows "sched_inv s' \<and> table_step s s' \<and> (gone j s \<longrightarrow> gone j s')"
  using yield_inv [OF assms] yield_table(1) [OF assms] yield_not_gone [OF assms]
    gone_step [OF _ assms(1) yield_table(1) [OF assms]] by blast

lemma leave_step:
  assumes "sched_inv s" "current_proc s \<noteq> idle_proc s" "yield s = Inr (Away s') \<or> proc_exit s = Inr (Away s')"
  shows "sched_inv s' \<and> table_step s s' \<and> (gone j s \<longrightarrow> gone j s')"
  using assms(3)
proof
  assume "yield s = Inr (Away s')"
  then show ?thesis by (rule switch_step [OF assms(1)])
next
  assume e: "proc_exit s = Inr (Away s')"
  note E = exit_step [OF assms(1,2) e]
  show ?thesis
    using E(1,2) exit_not_gone [OF assms(1,2) e] gone_step [OF _ assms(1) E(1)] by blast
qed

lemma keep_step:
  assumes "same_table s s'" "sched_inv s"
  shows "sched_inv s' \<and> table_step s s' \<and> (gone j s \<longrightarrow> gone j s')"
proof -
  have "gone j s' = gone j s" using assms(1) by (simp add: gone_def same_table_def)
  then show ?thesis using same_table_inv(1) [OF assms(1)] same_table_step [OF assms(1)] assms(2) by simp
qed

lemma sched_step_inv:
  assumes "sched_step s s'" "sched_inv s"
  shows "sched_inv s' \<and> table_step s s' \<and> (gone j s \<longrightarrow> gone j s')"
  using assms(1)
proof cases
  case (spawn img image_size i)
  then have t: "table_step s s'" "current_proc s' = current_proc s" using create_process_table by auto
  then show ?thesis
    using assms(2) sched_inv_step [OF assms(2) t(1)] table_step_in_use [OF t(1)] gone_step [OF _ assms(2) t(1)]
    by (auto simp: gone_def elim!: sched_inv_current)
next
  case switch
  then show ?thesis by (rule switch_step [OF assms(2)])
next
  case exit
  then show ?thesis using leave_step [OF assms(2)] by blast
next
  case (trap polls cs)
  then have "same_table s s'" by (auto elim: kernel_trap_steps)
  then show ?thesis by (rule keep_step [OF _ assms(2)])
next
  case (block polls cs)
  then obtain s1 where s1: "same_table s s1" "yield s1 = Inr (Away s') \<or> proc_exit s1 = Inr (Away s')"
    by (auto elim: kernel_trap_steps)
  then have "sched_inv s1" "current_proc s1 \<noteq> idle_proc s1" "gone j s1 = gone j s"
    using assms(2) same_table_inv(1) [OF s1(1)] block(1) s1(1) by (simp_all add: same_table_def gone_def)
  then show ?thesis using leave_step [OF _ _ s1(2), of j] same_table_inv(2) [OF s1(1)] by blast
next
  case work
  then have "same_table s s'" by (simp add: same_table_def)
  then show ?thesis by (rule keep_step [OF _ assms(2)])
qed

lemma reaches_inv: "reaches s s' \<Longrightarrow> sched_inv s \<Longrightarrow> sched_inv s' \<and> (gone j s \<longrightarrow> gone j s')"
  by (induction rule: reaches.induct) (auto dest: sched_step_inv)

section \<open>Booting\<close>

lemma layout_ok_mono:
  "layout_ok s F \<Longrightarrow> F' \<subseteq> F \<Longrightarrow> length (procs s') = length (procs s) \<Longrightarrow> procs_base s' = procs_base s \<Longrightarrow>
   heap_end (lib s') = heap_end (lib s) \<Longrightarrow> layout_ok s' F'"
  unfolding layout_ok_def stack_region_def by (auto simp: subset_iff disjoint_iff)

lemma image_apart_mono: "image_apart img n A \<Longrightarrow> A' \<subseteq> A \<Longrightarrow> image_apart img n A'"
  by (auto simp: image_apart_def)

lemma image_ok_mono:
  assumes "image_ok s F img n" "F' \<subseteq> F" "procs_base s' = procs_base s"
  shows "image_ok s' F' img n"
proof -
  have "stack_region s' i = stack_region s i" for i using assms(3) by (simp add: stack_region_def)
  then show ?thesis using assms(1) image_apart_mono [OF _ assms(2)] by (auto simp: image_ok_def)
qed

text \<open>A created process, with what the next steps of the boot need.\<close>

lemma create_process_boot:
  assumes lay: "layout_ok s F" "alloc_inv b (lib s) F" and img: "image_ok s F img image_size"
    and base: "4096 dvd unat (kernel_base s)" and free: "find_unused 0 (procs s) = Some i"
    and enough: "space_cost (kernel_base s) (heap_end (lib s)) (image_pages image_size) \<le> card F"
  obtains s' root F' where "create_process img image_size s = Inr (i, s')" "F' \<subseteq> F" "layout_ok s' F'" "alloc_inv b (lib s') F'"
    "card F = card F' + space_cost (kernel_base s) (heap_end (lib s)) (image_pages image_size)"
    "s' = s\<lparr>lib := lib s', procs := (procs s)[i := \<lparr>pid = of_nat (i + 1), state = PROC_RUNNABLE, psp = stack_top s i - 104, page_table = root\<rparr>]\<rparr>"
    "heap_end (lib s') = heap_end (lib s)" "fresh_frame (kmem (lib s')) (stack_top s i - 104) (user_entry_pc s)"
    "\<forall>a. unat a \<notin> F \<longrightarrow> unat a \<notin> stack_region s i \<longrightarrow> kmem (lib s') a = kmem (lib s) a"
proof -
  obtain s' where c: "create_process img image_size s = Inr (i, s')"
    using create_process_total [OF lay img base free enough] by blast
  obtain root F' where P:
    "s' = s\<lparr>lib := lib s', procs := (procs s)[i := \<lparr>pid = of_nat (i + 1), state = PROC_RUNNABLE, psp = stack_top s i - 104, page_table = root\<rparr>]\<rparr>"
    "fresh_frame (kmem (lib s')) (stack_top s i - 104) (user_entry_pc s)"
    "pt_state_of b (lib s') root F'" "F' \<subseteq> F" "heap_end (lib s') = heap_end (lib s)"
    "card F = card F' + space_cost (kernel_base s) (heap_end (lib s)) (image_pages image_size)"
    "\<And>a. unat a \<notin> F \<Longrightarrow> unat a \<notin> stack_region s i \<Longrightarrow> kmem (lib s') a = kmem (lib s) a"
    using create_process_ok [OF lay img c] by metis
  have "layout_ok s' F'"
    using P(5) by (intro layout_ok_mono [OF lay(1) P(4)]) (subst P(1), simp)+
  then show thesis using that [of s' F' root] c P by (simp add: pt_state_of_def)
qed

lemma newlines_printed: "printf m (replicate 15 (CHR 0x0A)) [] con = Inr (con @ concat (replicate 15 [13, 10]))"
proof -
  have "printf m (replicate 15 (CHR 0x0A)) [] con = vprintf m (replicate 15 10 @ []) [] con"
    by (simp add: printf_def)
  also have "\<dots> = Inr (con @ crlf (replicate 15 10))"
    by (subst vprintf_literal) simp_all
  finally show ?thesis by (simp add: crlf_def)
qed

lemma next_slot_only:
  assumes "table_ok idle ps" "in_use ps c" "j < 8" "runnable ps j" "\<And>k. k < 8 \<Longrightarrow> runnable ps k \<Longrightarrow> k = j"
  shows "next_slot ps idle c = j"
  using next_slot_first [OF assms(1,2)] assms(3-5) by blast

lemma list8: "length ps = 8 \<Longrightarrow> j < 8 \<Longrightarrow> j \<noteq> 0 \<Longrightarrow> j \<noteq> 1 \<Longrightarrow> ps[0 := a, 1 := b] ! j = ps ! j"
  by simp

text \<open>The table after the boot: the idle process in slot 0, the shell in slot 1.\<close>

lemma boot_yield:
  assumes ps: "length ps = 8" "\<And>j. j < 8 \<Longrightarrow> state (ps ! j) = PROC_UNUSED"
    and s: "procs s = ps[0 := p0, 1 := p1]" "current_proc s = Some 0" "idle_proc s = Some 0"
    and p: "pid p0 = 0" "state p0 = PROC_RUNNABLE" "pid p1 = 2" "state p1 = PROC_RUNNABLE" "psp p1 = stack_top s 1 - 104"
    and fr: "fresh_frame (kmem (lib s)) (stack_top s 1 - 104) (user_entry_pc s)"
    and sp: "span (regs (hart s) SP - 104) 104 \<inter> span (stack_top s 1 - 104) 104 = {}"
  shows "\<exists>s'. yield s = Inr (Away s') \<and> current_proc s' = Some 1 \<and> idle_proc s' = Some 0 \<and>
    pc (hart s') = user_entry_pc s \<and> regs (hart s') SP = stack_top s 1 \<and> sscratch (hart s') = stack_top s 1 \<and>
    satp (hart s') = new_satp (page_table (procs s' ! 1)) \<and> stvec (hart s') = stvec (hart s) \<and> sched_inv s' \<and>
    saved_frame (kmem (lib s')) (psp (procs s' ! 0)) (regs (hart s)) \<and>
    (\<forall>j < 8. state (procs s' ! j) = (if j < 2 then PROC_RUNNABLE else PROC_UNUSED)) \<and>
    (\<forall>z. z \<notin> span (regs (hart s) SP - 104) 104 \<longrightarrow> kmem (lib s') z = kmem (lib s) z)"
proof -
  have at: "procs s ! 0 = p0" "procs s ! 1 = p1" "length (procs s) = 8" using ps(1) s(1) by simp_all
  have rest: "state (procs s ! j) = PROC_UNUSED" if "j < 8" "j \<noteq> 0" "j \<noteq> 1" for j
    using list8 [OF ps(1) that] ps(2) [OF that(1)] s(1) by simp
  have states: "PROC_RUNNABLE \<noteq> PROC_UNUSED" by (simp add: PROC_RUNNABLE_def PROC_UNUSED_def)
  have ok: "table_ok 0 (procs s)"
    unfolding table_ok_def in_use_def using at p rest states by (auto simp: PROCS_MAX_def) (metis One_nat_def at(2) p(3) of_nat_1 one_add_one)
  have use0: "in_use (procs s) 0" using at p states by (simp add: in_use_def PROCS_MAX_def)
  have only: "k = 1" if "k < 8" "runnable (procs s) k" for k
    using that rest [of k] at p states by (cases "k = 0") (auto simp: runnable_def)
  have "runnable (procs s) 1" using at p by (simp add: runnable_def)
  then have nx: "next_slot (procs s) 0 0 = 1" using next_slot_only [OF ok use0 _ _ only] by simp
  let ?t = "s\<lparr>current_proc := Some 1, hart := (hart s)\<lparr>sscratch := stack_top s 1, satp := new_satp (page_table (procs s ! 1))\<rparr>\<rparr>"
  have y: "yield s = Inr (Away (switch_context 0 1 ?t))"
    using s(2,3) nx by (simp add: yield_def Let_def)
  have inv: "sched_inv s" using ok use0 s(2,3) by (auto simp: sched_inv_def)
  have "saved_frame (kmem (lib ?t)) (psp (procs ?t ! 1)) (start_regs (user_entry_pc s))"
    using fresh_saved_frame [OF fr] at p by simp
  note R = switch_restores [of 1 ?t 0, OF _ _ this] and W = switch_saves [of 0 ?t 1]
  have "pc (hart (switch_context 0 1 ?t)) = user_entry_pc s" "regs (hart (switch_context 0 1 ?t)) SP = stack_top s 1"
    using R(2,3) at p sp by (simp_all add: start_regs_def)
  moreover have "saved_frame (kmem (lib (switch_context 0 1 ?t))) (psp (procs (switch_context 0 1 ?t) ! 0)) (regs (hart s))"
    using W at by simp
  moreover have "page_table (procs (switch_context 0 1 ?t) ! 1) = page_table (procs s ! 1)"
    using switch_context_slot [of 0 ?t 1 1] at by simp
  moreover have "state (procs (switch_context 0 1 ?t) ! j) = (if j < 2 then PROC_RUNNABLE else PROC_UNUSED)" if "j < 8" for j
    using switch_context_slot [of 0 ?t 1 j] at p rest [OF that] by (cases "j = 0 \<or> j = 1") auto
  moreover have "stvec (hart (switch_context 0 1 ?t)) = stvec (hart s)"
    by (simp add: switch_context_def Let_def)
  moreover have "kmem (lib (switch_context 0 1 ?t)) z = kmem (lib s) z" if "z \<notin> span (regs (hart s) SP - 104) 104" for z
    using switch_context_other [of z ?t 0 1] that by simp
  ultimately show ?thesis using y yield_inv [OF inv y] at s(3) by auto
qed

text \<open>
  The state in which the boot code calls \<open>kmain\<close>: the static data is zero, the heap is a whole number
  of pages below four gigabytes of which \<open>F\<close> are the bytes, the boot stack is away from the process table and the heap, and there is
  memory for two address spaces and the three pages of the driver.
\<close>

definition boot_state :: "ksys \<Rightarrow> nat set \<Rightarrow> u64 \<Rightarrow> u64 \<Rightarrow> bool" where
  "boot_state s F shell shell_size \<longleftrightarrow>
     free_lists (lib s) = replicate 11 0 \<and> heap_start (lib s) \<noteq> 0 \<and> 4096 dvd unat (heap_start (lib s)) \<and>
     unat (heap_start (lib s)) \<le> unat (heap_end (lib s)) \<and> 4096 dvd unat (heap_end (lib s)) \<and>
     unat (heap_end (lib s)) < 2 ^ 32 \<and>
     F = {unat (heap_start (lib s)) ..< unat (heap_end (lib s))} \<and> layout_ok s F \<and>
     (\<forall>j < 8. state (procs s ! j) = PROC_UNUSED) \<and> 4096 dvd unat (kernel_base s) \<and> image_ok s F shell shell_size \<and>
     span (regs (hart s) SP - 104) 104 \<inter> span (stack_top s 1 - 104) 104 = {} \<and>
     (\<forall>z \<in> span (regs (hart s) SP - 104) 104. unat z \<notin> F) \<and>
     space_cost (kernel_base s) (heap_end (lib s)) 0 + 12288 +
       space_cost (kernel_base s) (heap_end (lib s)) (image_pages shell_size) \<le> card F"

lemma boot_memory:
  assumes "boot_state s F shell shell_size"
  obtains k where "init_memory ((lib s)\<lparr>console := con\<rparr>) = Inr k" "alloc_inv True k F" "heap_end k = heap_end (lib s)"
proof -
  let ?hs = "unat (heap_start (lib s))" and ?he = "unat (heap_end (lib s))"
  have B: "free_lists (lib s) = replicate 11 0" "heap_start (lib s) \<noteq> 0" "4096 dvd ?hs" "?hs \<le> ?he" "4096 dvd ?he"
    "?he < 2 ^ 32" "F = {?hs ..< ?he}" using assms by (simp_all add: boot_state_def)
  have "4096 dvd ?he - ?hs" using B(3,5) by (rule dvd_diff_nat [rotated])
  then have whole: "?hs + 4096 * ((?he - ?hs) div 4096) = ?he" using B(4) by simp
  have "(?he - ?hs) div 4096 < 2 ^ 31" using B(6) by (simp add: less_mult_imp_div_less)
  then obtain k where k: "init_memory ((lib s)\<lparr>console := con\<rparr>) = Inr k" "alloc_inv True k F" "heap_end k = heap_end (lib s)"
    using init_memory_ok [of "(lib s)\<lparr>console := con\<rparr>"] B whole by auto
  then show thesis by (rule that)
qed

lemma list_slots:
  assumes "length ps = 8" "\<And>j. j < 8 \<Longrightarrow> state (ps ! j) = PROC_UNUSED" "state p0 \<noteq> PROC_UNUSED"
  shows "find_unused 0 ps = Some 0" "find_unused 0 (ps[0 := p0]) = Some 1"
proof -
  obtain a b r where ps: "ps = a # b # r" using assms(1) by (auto simp: length_Suc_conv eval_nat_numeral)
  then have "state a = PROC_UNUSED" "state b = PROC_UNUSED" using assms(2) [of 0] assms(2) [of 1] by simp_all
  then show "find_unused 0 ps = Some 0" "find_unused 0 (ps[0 := p0]) = Some 1" using ps assms(3) by simp_all
qed

text \<open>
  \<open>kmain\<close> in stages. From the idle process on, only the memory and the process table change until \<open>yield\<close>:
  \<open>booting handler s k ps\<close> is the state with memory \<open>k\<close> and table \<open>ps\<close>.
\<close>

definition booting :: "u64 \<Rightarrow> ksys \<Rightarrow> kst \<Rightarrow> process list \<Rightarrow> ksys" where
  "booting handler s k ps =
     (init_trap_handler handler s)\<lparr>lib := k, procs := ps, current_proc := Some 0, idle_proc := Some 0\<rparr>"

definition boot_slot :: "ksys \<Rightarrow> nat \<Rightarrow> u32 \<Rightarrow> u64 \<Rightarrow> process" where
  "boot_slot s i p root = \<lparr>pid = p, state = PROC_RUNNABLE, psp = stack_top s i - 104, page_table = root\<rparr>"

lemma booting_sel [simp]:
  "lib (booting handler s k ps) = k" "procs (booting handler s k ps) = ps" "current_proc (booting handler s k ps) = Some 0"
  "idle_proc (booting handler s k ps) = Some 0" "kernel_base (booting handler s k ps) = kernel_base s"
  "procs_base (booting handler s k ps) = procs_base s" "user_entry_pc (booting handler s k ps) = user_entry_pc s"
  "stvec (hart (booting handler s k ps)) = handler" "regs (hart (booting handler s k ps)) = regs (hart s)"
  "stack_top (booting handler s k ps) i = stack_top s i" "stack_region (booting handler s k ps) i = stack_region s i"
  "(booting handler s k ps)\<lparr>lib := k'\<rparr> = booting handler s k' ps" "(booting handler s k ps)\<lparr>procs := ps'\<rparr> = booting handler s k ps'"
  by (simp_all add: booting_def init_trap_handler_def stack_top_def stack_region_def)

lemma boot_slot_sel [simp]:
  "pid (boot_slot s i p root) = p" "state (boot_slot s i p root) = PROC_RUNNABLE" "psp (boot_slot s i p root) = stack_top s i - 104"
  "page_table (boot_slot s i p root) = root" "(boot_slot s i p root)\<lparr>pid := q\<rparr> = boot_slot s i q root"
  by (simp_all add: boot_slot_def)

lemma booting_layout:
  assumes "layout_ok s F" "F' \<subseteq> F" "length ps = 8" "heap_end k = heap_end (lib s)"
  shows "layout_ok (booting handler s k ps) F'"
  using assms by (intro layout_ok_mono [OF assms(1,2)]) (simp_all add: layout_ok_def PROCS_MAX_def)

lemma boot_table:
  assumes "boot_state s F shell shell_size"
  shows "length (procs s) = 8" "\<And>j. j < 8 \<Longrightarrow> state (procs s ! j) = PROC_UNUSED" "find_unused 0 (procs s) = Some 0"
    "find_unused 0 ((procs s)[0 := boot_slot s 0 p root]) = Some 1"
proof -
  have "layout_ok s F" and unused: "\<And>j. j < 8 \<Longrightarrow> state (procs s ! j) = PROC_UNUSED" using assms unfolding boot_state_def by blast+
  then show len: "length (procs s) = 8" by (simp add: layout_ok_def PROCS_MAX_def)
  show "state (procs s ! j) = PROC_UNUSED" if "j < 8" for j by (rule unused [OF that])
  have "state (boot_slot s 0 p root) \<noteq> PROC_UNUSED" by (simp add: PROC_RUNNABLE_def PROC_UNUSED_def)
  then show "find_unused 0 (procs s) = Some 0" "find_unused 0 ((procs s)[0 := boot_slot s 0 p root]) = Some 1"
    using list_slots [OF len unused] by blast+
qed

text \<open>The memory is handed over and the idle process created.\<close>

lemma boot_idle:
  assumes boot: "boot_state s F shell shell_size" and k: "alloc_inv True k F" "heap_end k = heap_end (lib s)"
  obtains k1 root F1 where
    "create_process 0 0 (init_trap_handler handler (s\<lparr>lib := k\<rparr>)) =
      Inr (0, (init_trap_handler handler s)\<lparr>lib := k1, procs := (procs s)[0 := boot_slot s 0 1 root]\<rparr>)"
    "init_proc (init_trap_handler handler (s\<lparr>lib := k\<rparr>)) = Inr (booting handler s k1 ((procs s)[0 := boot_slot s 0 0 root]))"
    "F1 \<subseteq> F" "alloc_inv True k1 F1" "heap_end k1 = heap_end (lib s)" "card F = card F1 + space_cost (kernel_base s) (heap_end (lib s)) 0"
proof -
  let ?s0 = "init_trap_handler handler (s\<lparr>lib := k\<rparr>)"
  have B: "layout_ok s F" "4096 dvd unat (kernel_base s)"
    "space_cost (kernel_base s) (heap_end (lib s)) 0 + 12288 + space_cost (kernel_base s) (heap_end (lib s)) (image_pages shell_size) \<le> card F"
    using boot unfolding boot_state_def by blast+
  have s0: "procs ?s0 = procs s" "lib ?s0 = k" "kernel_base ?s0 = kernel_base s" "procs_base ?s0 = procs_base s" "stack_top ?s0 0 = stack_top s 0"
    by (simp_all add: init_trap_handler_def stack_top_def)
  have pages0: "image_pages 0 = 0" by (simp add: image_pages_def)
  have pre: "layout_ok ?s0 F" "alloc_inv True (lib ?s0) F" "image_ok ?s0 F 0 0" "4096 dvd unat (kernel_base ?s0)"
    "find_unused 0 (procs ?s0) = Some 0" "space_cost (kernel_base ?s0) (heap_end (lib ?s0)) (image_pages 0) \<le> card F"
    using layout_ok_mono [OF B(1) order_refl, of ?s0] s0 k B(2,3) boot_table(3) [OF boot] by (simp_all add: image_ok_def pages0)
  obtain s1 root F1 where c: "create_process 0 0 ?s0 = Inr (0, s1)" "F1 \<subseteq> F" "alloc_inv True (lib s1) F1"
    "card F = card F1 + space_cost (kernel_base ?s0) (heap_end (lib ?s0)) (image_pages 0)"
    "s1 = ?s0\<lparr>lib := lib s1, procs := (procs ?s0)[0 := \<lparr>pid = of_nat (0 + 1), state = PROC_RUNNABLE, psp = stack_top ?s0 0 - 104, page_table = root\<rparr>]\<rparr>"
    "heap_end (lib s1) = heap_end (lib ?s0)" by (rule create_process_boot [OF pre])
  have s1: "s1 = (init_trap_handler handler s)\<lparr>lib := lib s1, procs := (procs s)[0 := boot_slot s 0 1 root]\<rparr>"
    by (subst c(5)) (simp add: s0(1,5) boot_slot_def, simp add: init_trap_handler_def)
  then have "procs s1 = (procs s)[0 := boot_slot s 0 1 root]" by (metis ksys.select_convs(3) ksys.surjective ksys.update_convs(3))
  then have "s1\<lparr>idle_proc := Some 0, procs := (procs s1)[0 := (procs s1 ! 0)\<lparr>pid := 0\<rparr>], current_proc := Some 0\<rparr> =
      booting handler s (lib s1) ((procs s)[0 := boot_slot s 0 0 root])"
    using boot_table(1) [OF boot] by (subst (1) s1) (simp add: booting_def)
  then show thesis using that [of root "lib s1" F1] c s1 k(2) by (simp add: init_proc_def s0 pages0)
qed

text \<open>The shell's process is created.\<close>

lemma boot_shell:
  fixes root0 :: u64
  assumes boot: "boot_state s F shell shell_size" and k: "alloc_inv True k F3" "heap_end k = heap_end (lib s)"
    and F3: "F3 \<subseteq> F" "space_cost (kernel_base s) (heap_end (lib s)) (image_pages shell_size) \<le> card F3"
  defines "ps \<equiv> (procs s)[0 := boot_slot s 0 0 root0]"
  obtains k4 root F4 where
    "create_process shell shell_size (booting handler s k ps) = Inr (1, booting handler s k4 (ps[1 := boot_slot s 1 2 root]))"
    "F4 \<subseteq> F3" "alloc_inv True k4 F4" "heap_end k4 = heap_end (lib s)" "fresh_frame (kmem k4) (stack_top s 1 - 104) (user_entry_pc s)"
    "\<forall>a. unat a \<notin> F3 \<longrightarrow> unat a \<notin> stack_region s 1 \<longrightarrow> kmem k4 a = kmem k a"
proof -
  let ?s = "booting handler s k ps"
  have B: "layout_ok s F" "image_ok s F shell shell_size" "4096 dvd unat (kernel_base s)" using boot unfolding boot_state_def by blast+
  have pre: "layout_ok ?s F3" "alloc_inv True (lib ?s) F3" "image_ok ?s F3 shell shell_size" "4096 dvd unat (kernel_base ?s)"
    "find_unused 0 (procs ?s) = Some 1" "space_cost (kernel_base ?s) (heap_end (lib ?s)) (image_pages shell_size) \<le> card F3"
    using booting_layout [OF B(1) F3(1)] image_ok_mono [OF B(2) F3(1), of ?s] k F3(2) B(3) boot_table(1,4) [OF boot]
    by (simp_all add: ps_def)
  obtain s4 root F4 where c: "create_process shell shell_size ?s = Inr (1, s4)" "F4 \<subseteq> F3" "alloc_inv True (lib s4) F4"
    "s4 = ?s\<lparr>lib := lib s4, procs := (procs ?s)[1 := \<lparr>pid = of_nat (1 + 1), state = PROC_RUNNABLE, psp = stack_top ?s 1 - 104, page_table = root\<rparr>]\<rparr>"
    "heap_end (lib s4) = heap_end (lib ?s)" "fresh_frame (kmem (lib s4)) (stack_top ?s 1 - 104) (user_entry_pc ?s)"
    "\<forall>a. unat a \<notin> F3 \<longrightarrow> unat a \<notin> stack_region ?s 1 \<longrightarrow> kmem (lib s4) a = kmem (lib ?s) a"
    by (rule create_process_boot [OF pre])
  have "s4 = booting handler s (lib s4) (ps[1 := boot_slot s 1 2 root])" by (subst c(4)) (simp add: boot_slot_def)
  then show thesis using that [of "lib s4" root F4] c k(2) by simp
qed

text \<open>All of it up to the call of \<open>yield\<close>.\<close>

lemma kmain_stages:
  assumes boot: "boot_state s F shell shell_size" and dev: "blk_device bus I" "I d"
  obtains k k1 root0 F1 b k3 d3 F3 k4 root1 F4 where "alloc_inv True k F" "heap_end k = heap_end (lib s)"
    "create_process 0 0 (init_trap_handler handler (s\<lparr>lib := k\<rparr>)) =
      Inr (0, (init_trap_handler handler s)\<lparr>lib := k1, procs := (procs s)[0 := boot_slot s 0 1 root0]\<rparr>)"
    "F1 \<subseteq> F" "alloc_inv True k1 F1" "heap_end k1 = heap_end (lib s)"
    "I d3" "blk_ready b (kmem k3)" "blk_capacity b = bus_read64 bus (virtio_reg 0 VIRTR_CFG_O) d3 * 512"
    "F3 \<subseteq> F1" "alloc_inv True k3 F3" "heap_end k3 = heap_end (lib s)" "\<forall>a. unat a \<notin> F1 \<longrightarrow> kmem k3 a = kmem k1 a"
    "{unat (blk_request_vq b) ..< unat (blk_request_vq b) + 8192} \<subseteq> F1 - F3"
    "create_process shell shell_size (booting handler s k3 ((procs s)[0 := boot_slot s 0 0 root0])) =
      Inr (1, booting handler s k4 ((procs s)[0 := boot_slot s 0 0 root0, 1 := boot_slot s 1 2 root1]))"
    "F4 \<subseteq> F3" "alloc_inv True k4 F4" "heap_end k4 = heap_end (lib s)" "fresh_frame (kmem k4) (stack_top s 1 - 104) (user_entry_pc s)"
    "\<forall>a. unat a \<notin> F3 \<longrightarrow> unat a \<notin> stack_region s 1 \<longrightarrow> kmem k4 a = kmem k3 a"
    "kmain handler bus shell shell_size s d =
      bind_res (yield (booting handler s k4 ((procs s)[0 := boot_slot s 0 0 root0, 1 := boot_slot s 1 2 root1])))
        (\<lambda>y. case y of Back s \<Rightarrow> Inl (Panic ''Exited out of scheduler. Halting!'' []) | Away s \<Rightarrow> Inr (s, b, d3))"
proof -
  define con where "con = console (lib s) @ concat (replicate 15 [13, 10])"
  have pr: "printf (kmem (lib s)) (replicate 15 (CHR 0x0A)) [] (console (lib s)) = Inr con" by (simp add: newlines_printed con_def)
  have B: "F = {unat (heap_start (lib s)) ..< unat (heap_end (lib s))}" "unat (heap_end (lib s)) < 2 ^ 32"
    "space_cost (kernel_base s) (heap_end (lib s)) 0 + 12288 + space_cost (kernel_base s) (heap_end (lib s)) (image_pages shell_size) \<le> card F"
    using boot unfolding boot_state_def by blast+
  obtain k where k: "init_memory ((lib s)\<lparr>console := con\<rparr>) = Inr k" "alloc_inv True k F" "heap_end k = heap_end (lib s)"
    by (rule boot_memory [OF boot])
  obtain k1 root0 F1 where S1: "create_process 0 0 (init_trap_handler handler (s\<lparr>lib := k\<rparr>)) =
      Inr (0, (init_trap_handler handler s)\<lparr>lib := k1, procs := (procs s)[0 := boot_slot s 0 1 root0]\<rparr>)"
    "init_proc (init_trap_handler handler (s\<lparr>lib := k\<rparr>)) = Inr (booting handler s k1 ((procs s)[0 := boot_slot s 0 0 root0]))"
    "F1 \<subseteq> F" "alloc_inv True k1 F1" "heap_end k1 = heap_end (lib s)" "card F = card F1 + space_cost (kernel_base s) (heap_end (lib s)) 0"
    by (rule boot_idle [OF boot k(2,3)])
  let ?v = "\<lparr>vlib = k1, vdev = d\<rparr>"
  have drv: "I (vdev ?v)" "alloc_inv True (vlib ?v) F1" "F1 \<subseteq> {..< 2 ^ 32}" "12288 \<le> card F1" using dev(2) S1(3,4,6) B by auto
  obtain b k3 d3 F3 where D: "virtio_blk_init bus ?v = Inr (b, ?v\<lparr>vlib := k3, vdev := d3\<rparr>)" "I d3" "blk_ready b (kmem k3)"
    "blk_capacity b = bus_read64 bus (virtio_reg 0 VIRTR_CFG_O) d3 * 512" "F3 \<subseteq> F1" "card F1 = card F3 + 12288" "alloc_inv True k3 F3"
    "heap_end k3 = heap_end (vlib ?v)" "\<forall>a. unat a \<notin> F1 \<longrightarrow> kmem k3 a = kmem (vlib ?v) a"
    "{unat (blk_request_vq b) ..< unat (blk_request_vq b) + 8192} \<union> {unat (blk_req b) ..< unat (blk_req b) + 4096} \<subseteq> F1 - F3"
    by (rule virtio_blk_init_ok [OF dev(1) drv])
  have F3: "F3 \<subseteq> F" "space_cost (kernel_base s) (heap_end (lib s)) (image_pages shell_size) \<le> card F3" "heap_end k3 = heap_end (lib s)"
    using D(5,6,8) S1(3,5,6) B(3) by auto
  obtain k4 root1 F4 where S4: "create_process shell shell_size (booting handler s k3 ((procs s)[0 := boot_slot s 0 0 root0])) =
      Inr (1, booting handler s k4 ((procs s)[0 := boot_slot s 0 0 root0, 1 := boot_slot s 1 2 root1]))"
    "F4 \<subseteq> F3" "alloc_inv True k4 F4" "heap_end k4 = heap_end (lib s)" "fresh_frame (kmem k4) (stack_top s 1 - 104) (user_entry_pc s)"
    "\<forall>a. unat a \<notin> F3 \<longrightarrow> unat a \<notin> stack_region s 1 \<longrightarrow> kmem k4 a = kmem k3 a"
    by (rule boot_shell [OF boot D(7) F3(3,1,2)])
  have "kmain handler bus shell shell_size s d =
      bind_res (yield (booting handler s k4 ((procs s)[0 := boot_slot s 0 0 root0, 1 := boot_slot s 1 2 root1])))
        (\<lambda>y. case y of Back s \<Rightarrow> Inl (Panic ''Exited out of scheduler. Halting!'' []) | Away s \<Rightarrow> Inr (s, b, d3))"
    by (simp add: kmain_def pr k(1) S1(2) D(1) S4(1))
  then show thesis using that [OF k(2,3) S1(1,3,4,5) D(2-5,7) F3(3) _ _ S4] D(9,10) by simp
qed

lemma kmain_runs:
  assumes boot: "boot_state s F shell shell_size" and dev: "blk_device bus I" "I d"
  shows "\<exists>s' b d'. kmain handler bus shell shell_size s d = Inr (s', b, d') \<and> I d' \<and> blk_ready b (kmem (lib s')) \<and>
    blk_capacity b = bus_read64 bus (virtio_reg 0 VIRTR_CFG_O) d' * 512 \<and> current_proc s' = Some 1 \<and> idle_proc s' = Some 0 \<and> sched_inv s' \<and>
    pc (hart s') = user_entry_pc s \<and> regs (hart s') SP = stack_top s 1 \<and> sscratch (hart s') = stack_top s 1 \<and>
    satp (hart s') = new_satp (page_table (procs s' ! 1)) \<and> stvec (hart s') = handler \<and>
    (\<forall>j < 8. state (procs s' ! j) = (if j < 2 then PROC_RUNNABLE else PROC_UNUSED))"
proof -
  obtain k3 :: kst and F1 root0 b d3 F3 k4 root1 where S: "F1 \<subseteq> F" "I d3" "blk_ready b (kmem k3)"
    "blk_capacity b = bus_read64 bus (virtio_reg 0 VIRTR_CFG_O) d3 * 512" "{unat (blk_request_vq b) ..< unat (blk_request_vq b) + 8192} \<subseteq> F1 - F3"
    "fresh_frame (kmem k4) (stack_top s 1 - 104) (user_entry_pc s)"
    "\<forall>a. unat a \<notin> F3 \<longrightarrow> unat a \<notin> stack_region s 1 \<longrightarrow> kmem k4 a = kmem k3 a"
    "kmain handler bus shell shell_size s d =
      bind_res (yield (booting handler s k4 ((procs s)[0 := boot_slot s 0 0 root0, 1 := boot_slot s 1 2 root1])))
        (\<lambda>y. case y of Back s \<Rightarrow> Inl (Panic ''Exited out of scheduler. Halting!'' []) | Away s \<Rightarrow> Inr (s, b, d3))"
    by (rule kmain_stages [OF assms, where handler = handler]) (rule that; assumption)
  have B: "layout_ok s F" "span (regs (hart s) SP - 104) 104 \<inter> span (stack_top s 1 - 104) 104 = {}"
    "\<And>z. z \<in> span (regs (hart s) SP - 104) 104 \<Longrightarrow> unat z \<notin> F" using boot unfolding boot_state_def by blast+
  let ?s4 = "booting handler s k4 ((procs s)[0 := boot_slot s 0 0 root0, 1 := boot_slot s 1 2 root1])"
  obtain s' where y: "yield ?s4 = Inr (Away s')" "current_proc s' = Some 1" "idle_proc s' = Some 0"
    "pc (hart s') = user_entry_pc s" "regs (hart s') SP = stack_top s 1" "sscratch (hart s') = stack_top s 1"
    "satp (hart s') = new_satp (page_table (procs s' ! 1))" "stvec (hart s') = handler" "sched_inv s'"
    "\<forall>j < 8. state (procs s' ! j) = (if j < 2 then PROC_RUNNABLE else PROC_UNUSED)"
    "\<forall>z. z \<notin> span (regs (hart s) SP - 104) 104 \<longrightarrow> kmem (lib s') z = kmem k4 z"
    using boot_yield [OF boot_table(1,2) [OF boot], of ?s4 "boot_slot s 0 0 root0" "boot_slot s 1 2 root1"] S(6) B(2) by auto
  have "blk_ready b (kmem (lib s'))"
  proof (rule ready_cong [OF S(3)])
    fix z assume "z \<in> span (blk_request_vq b) 8192"
    then have z: "unat z \<in> F1 - F3" using S(5) blk_ready_span [OF S(3)] by blast
    have "stack_region s 1 \<inter> F = {}" using B(1) by (simp add: layout_ok_def)
    then have "kmem k4 z = kmem k3 z" using z S(1,7) by blast
    moreover have "z \<notin> span (regs (hart s) SP - 104) 104" using z B(3) S(1) by blast
    ultimately show "kmem (lib s') z = kmem k3 z" using y(11) by simp
  qed
  then show ?thesis using S(2,4,8) y by (intro exI [of _ s'] exI [of _ b] exI [of _ d3]) (simp add: y(1))
qed

end
