(* ===== verification/Example.thy ===== *)
theory Example
  imports Kernel
begin

text \<open>
  A concrete system: the layout of the linker script with a heap of sixty-four pages, an empty
  process table and a program image of 5000 bytes. The properties are instantiated on it.
\<close>

definition no_process :: process where
  "no_process = \<lparr>pid = 0, state = PROC_UNUSED, psp = 0, page_table = 0\<rparr>"

definition reset_hart :: cpu where
  "reset_hart = \<lparr>regs = (\<lambda>_. 0), pc = 0, sepc = 0, sstatus = 0, sscratch = 0, stvec = 0, satp = 0, scause = 0, stval = 0\<rparr>"

definition small_sys :: "kst \<Rightarrow> ksys" where
  "small_sys k = \<lparr>lib = k, hart = reset_hart, procs = replicate 8 no_process, current_proc = None, idle_proc = None,
     kernel_base = 0x80200000, procs_base = 0x80210000, user_entry_pc = 0x80200100\<rparr>"

lemma small_layout: "heap_end k = 0x80340000 \<Longrightarrow> layout_ok (small_sys k) small_free"
  by (auto simp: layout_ok_def small_sys_def small_free_def PROCS_MAX_def stack_region_def)

lemma small_image: "image_ok (small_sys k) small_free 0x80201000 5000"
  by (auto simp: image_ok_def image_apart_def small_sys_def small_free_def stack_region_def)

lemma small_ranges: "heap_end k = 0x80340000 \<Longrightarrow> ranges_ok (kernel_base (small_sys k)) (heap_end (lib (small_sys k))) (image_pages 5000)"
  by (simp add: ranges_ok_def small_sys_def kernel_pages_def image_pages_def)

lemma small_slot: "find_unused 0 (procs (small_sys k)) = Some 0"
  by (simp add: small_sys_def eval_nat_numeral no_process_def)

lemma small_cost: "heap_end k = 0x80340000 \<Longrightarrow>
    space_cost (kernel_base (small_sys k)) (heap_end (lib (small_sys k))) (image_pages 5000) \<le> card small_free"
  using space_cost_bound [OF small_ranges, of k]
  by (simp add: space_bound_def regions_def small_sys_def kernel_pages_def image_pages_def small_free_def VIRTIO_PADDR_def USER_BASE_def)

text \<open>The booted allocator and the first process.\<close>

lemma small_process:
  obtains k s' where "init_memory small_heap = Inr k" "buddy_inv k small_free" "heap_end k = 0x80340000"
    "create_process 0x80201000 5000 (small_sys k) = Inr (0, s')"
proof -
  obtain k where k: "init_memory small_heap = Inr k" "buddy_inv k small_free" "heap_end k = 0x80340000"
    using small_heap_init by metis
  have "buddy_inv (lib (small_sys k)) small_free" "4096 dvd unat (kernel_base (small_sys k))"
    using k(2) by (simp_all add: small_sys_def)
  then show thesis
    using create_process_plain_total [OF small_layout [OF k(3)] _ small_image _ small_slot small_cost [OF k(3)]] that k by metis
qed

text \<open>A table with the idle process and two others, for the concrete instances.\<close>

definition three_procs :: "process list" where
  "three_procs = [no_process\<lparr>state := PROC_RUNNABLE\<rparr>, no_process\<lparr>pid := 2, state := PROC_RUNNABLE, psp := 0x80216000\<rparr>,
     no_process\<lparr>pid := 3, state := PROC_RUNNABLE, psp := 0x80218000\<rparr>] @ replicate 5 no_process"

definition three_sys :: ksys where
  "three_sys = (small_sys small_heap)\<lparr>procs := three_procs, current_proc := Some 1, idle_proc := Some 0\<rparr>"

lemma less_8: "(j :: nat) < 8 \<longleftrightarrow> j = 0 \<or> j = 1 \<or> j = 2 \<or> j = 3 \<or> j = 4 \<or> j = 5 \<or> j = 6 \<or> j = 7"
  by auto

lemma three_table: "table_ok 0 three_procs" "in_use three_procs 1" "runnable three_procs 1" "runnable three_procs 2"
  by (auto simp: table_ok_def in_use_def runnable_def three_procs_def no_process_def PROCS_MAX_def PROC_RUNNABLE_def PROC_UNUSED_def less_8)

lemma three_inv: "sched_inv three_sys"
  using three_table by (auto simp: sched_inv_def three_sys_def)

lemma three_next: "next_slot three_procs 0 1 \<noteq> 1"
proof
  assume n: "next_slot three_procs 0 1 = 1"
  have "wait_rank 0 1 1 \<le> wait_rank 0 2 1" using next_slot_first [OF three_table(1,2)] three_table(3,4) unfolding n by simp
  then show False by (simp add: wait_rank_def first_slot_def)
qed

end
