(* ===== verification/Syscall_Props.thy ===== *)
theory Syscall_Props
  imports Example
begin

text \<open>
  Properties of the trap handler and the system calls, seen from the process that traps: what it
  finds in its registers when it goes on, and what becomes of it when it exits.
\<close>

text \<open>The caller in slot 1 of the example, about to make system call \<open>n\<close> with argument \<open>a\<close>.\<close>

definition calling :: "u64 \<Rightarrow> u64 \<Rightarrow> ksys" where
  "calling n a = three_sys\<lparr>hart := reset_hart\<lparr>regs := (\<lambda>_. 7)(A0 := a, A3 := n, SP := 0x1001f00),
     scause := 8, sepc := 0x1000040, sscratch := 0x80214030\<rparr>\<rparr>"

lemma calling_fields:
  "scause (hart (calling n a)) = SCAUSE_ECALL" "regs (hart (calling n a)) A3 = n" "regs (hart (calling n a)) A0 = a"
  "procs (calling n a) = three_procs" "current_proc (calling n a) = Some 1" "idle_proc (calling n a) = Some 0"
  "regs (hart (calling n a)) SP = 0x1001f00" "sepc (hart (calling n a)) = 0x1000040" "sscratch (hart (calling n a)) = 0x80214030"
  by (simp_all add: calling_def SCAUSE_ECALL_def three_sys_def reset_hart_def)

lemma calling_inv: "sched_inv (calling n a)"
  using three_inv by (simp add: sched_inv_def calling_def)

section \<open>Traps that return\<close>

text \<open>The trap of \<open>SYS_PUTC\<close> returns.\<close>

lemma putc_trap:
  assumes "scause (hart s) = SCAUSE_ECALL" "regs (hart s) A3 = SYS_PUTC"
  shows "\<exists>s'. kernel_trap polls s = Inr (Done polls s') \<and>
    returned s (regs (hart s)) (console (lib s) @ [ucast (regs (hart s) A0)]) s'"
proof -
  obtain f s1 where f: "trap_save s = (f, s1)" by (cases "trap_save s")
  note S = trap_save_frame [OF f]
  let ?con = "console (lib s) @ [ucast (regs (hart s) A0)]"
  have "console (lib s1) = console (lib s)" by (subst S(5)) simp
  then have "syscall_entry polls f s1 = Inr (Done polls (s1\<lparr>lib := (lib s1)\<lparr>console := ?con\<rparr>\<rparr>))"
    using assms(2) by (simp add: syscall_entry_def Let_def frame_get_frame [OF S(2)] putc_def)
  then show ?thesis by (rule kernel_trap_done [OF assms(1) f]) (use S(2) in simp_all)
qed

text \<open>
  The trap of \<open>SYS_GETC\<close> when the caller is the only runnable process: it returns with the first answer that is not negative, or still
  polls when there is none.
\<close>

lemma getc_trap_alone:
  assumes "scause (hart s) = SCAUSE_ECALL" "regs (hart s) A3 = SYS_GETC"
    and "table_ok idle (procs s)" "idle_proc s = Some idle" "current_proc s = Some cur" "in_use (procs s) cur"
    and "\<forall>j < 8. runnable (procs s) j \<longleftrightarrow> j = cur"
  shows "dropWhile (\<lambda>c. sint c < 0) polls = c # cs \<Longrightarrow>
      \<exists>s'. kernel_trap polls s = Inr (Done cs s') \<and> returned s ((regs (hart s))(A0 := c)) (console (lib s)) s'"
    and "dropWhile (\<lambda>c. sint c < 0) polls = [] \<Longrightarrow>
      \<exists>s'. kernel_trap polls s = Inr (Polling s') \<and> procs s' = procs s \<and> console (lib s') = console (lib s)"
proof -
  obtain f s1 where f: "trap_save s = (f, s1)" by (cases "trap_save s")
  note S = trap_save_frame [OF f]
  have s1: "procs s1 = procs s" "idle_proc s1 = Some idle" "current_proc s1 = Some cur" "console (lib s1) = console (lib s)"
    using assms(4,5) by (subst S(5), simp)+
  have "cur < 8" using assms(6) by (simp add: in_use_def PROCS_MAX_def)
  then have "next_slot (procs s) idle cur = cur"
    using assms(7) by (intro next_slot_only [OF assms(3,6)]) simp_all
  then have "yield s1 = Inr (Back s1)" using s1 by (simp add: yield_def Let_def)
  note loop = getc_loop_alone [OF this, of polls f]
  have call: "syscall_entry polls f s1 = getc_loop polls f s1"
    using assms(2) by (simp add: syscall_entry_def Let_def frame_get_frame [OF S(2)] SYS_GETC_def SYS_PUTC_def)
  {
    assume "dropWhile (\<lambda>c. sint c < 0) polls = c # cs"
    then have "syscall_entry polls f s1 = Inr (Done cs (frame_set f A0 c s1))" using call loop by simp
    then show "\<exists>s'. kernel_trap polls s = Inr (Done cs s') \<and> returned s ((regs (hart s))(A0 := c)) (console (lib s)) s'"
      by (rule kernel_trap_done [OF assms(1) f])
        (use frame_set_frame [OF S(2)] frame_set_other s1(4) in \<open>simp_all add: frame_set_def\<close>)
  next
    assume "dropWhile (\<lambda>c. sint c < 0) polls = []"
    then have "syscall_entry polls f s1 = Inr (Polling s1)" using call loop by (simp del: dropWhile_eq_Nil_conv)
    moreover have "scause (hart s1) = SCAUSE_ECALL" using assms(1) by (subst S(6)) simp
    ultimately show "\<exists>s'. kernel_trap polls s = Inr (Polling s') \<and> procs s' = procs s \<and> console (lib s') = console (lib s)"
      using f s1 by (simp add: kernel_trap_def handle_trap_def finish_trap_def trap_return_def Let_def)
  }
qed

lemma getc_trap:
  assumes "scause (hart s) = SCAUSE_ECALL" "regs (hart s) A3 = SYS_GETC"
    and "table_ok idle (procs s)" "idle_proc s = Some idle" "current_proc s = Some cur" "in_use (procs s) cur"
    and "\<forall>j < 8. runnable (procs s) j \<longleftrightarrow> j = cur"
    and "\<forall>p \<in> set waits. sint p < 0" "0 \<le> sint c"
  shows "\<exists>s'. kernel_trap (waits @ c # cs) s = Inr (Done cs s') \<and>
    returned s ((regs (hart s))(A0 := c)) (console (lib s)) s'"
  using assms(8,9) by (intro getc_trap_alone(1) [OF assms(1-7)]) (simp add: dropWhile_append3)

text \<open>The three calls on files translate a pointer, for which they read the current table, and do nothing.\<close>

lemma file_trap:
  assumes "scause (hart s) = SCAUSE_ECALL" "regs (hart s) A3 \<in> {SYS_OPEN, SYS_READ, SYS_CLOSE}" "current_proc s = Some cur"
  shows "\<exists>s'. kernel_trap polls s = Inr (Done polls s') \<and> returned s (regs (hart s)) (console (lib s)) s'"
proof -
  obtain f s1 where f: "trap_save s = (f, s1)" by (cases "trap_save s")
  note S = trap_save_frame [OF f]
  have s1: "current_proc s1 = Some cur" "console (lib s1) = console (lib s)" using assms(3) by (subst S(5), simp)+
  have "syscall_entry polls f s1 = Inr (Done polls s1)"
    using assms(2) s1(1)
    by (auto simp: syscall_entry_def Let_def frame_get_frame [OF S(2)] current_table_def SYS_OPEN_def SYS_READ_def SYS_CLOSE_def
        SYS_PUTC_def SYS_GETC_def SYS_EXIT_def)
  then show ?thesis
    by (rule kernel_trap_done [OF assms(1) f]) (use S(2) s1(2) in simp_all)
qed

section \<open>Calls that return\<close>

text \<open>
  \<open>SYS_PUTC\<close>. A trap with cause 8 and call number 10 appends the low byte of the argument to the
  console and returns: the caller goes on behind its \<open>ecall\<close> with all registers as they were, in the
  same address space, and memory is unchanged but for the trap frame below the top of its kernel stack.
\<close>

theorem putc_call_returns:
  assumes "scause (hart s) = SCAUSE_ECALL" "regs (hart s) A3 = SYS_PUTC"
  shows "\<exists>s'. kernel_trap polls s = Inr (Done polls s') \<and>
    returned s (regs (hart s)) (console (lib s) @ [ucast (regs (hart s) A0)]) s'"
  using assms by (rule putc_trap)

theorem putc_call_returns_witness:
  "\<exists>s'. kernel_trap [] (calling SYS_PUTC 0x141) = Inr (Done [] s') \<and> pc (hart s') = 0x1000044 \<and>
     console (lib s') = console (lib (calling SYS_PUTC 0x141)) @ [0x41]"
  using putc_call_returns [of "calling SYS_PUTC 0x141" "[]"] by (auto simp: calling_fields returned_def)

text \<open>
  \<open>SYS_GETC\<close> when nothing else can run. With the caller the only runnable process, the loop polls
  the console until the firmware's answer is not negative, and returns it: the caller goes on behind its \<open>ecall\<close>
  with that answer in \<open>a0\<close> and every other register as it was. The answers left over are those behind it.
\<close>

theorem getc_call_returns:
  assumes "scause (hart s) = SCAUSE_ECALL" "regs (hart s) A3 = SYS_GETC"
    and "table_ok idle (procs s)" "idle_proc s = Some idle" "current_proc s = Some cur" "in_use (procs s) cur"
    and "\<forall>j < 8. runnable (procs s) j \<longleftrightarrow> j = cur"
    and "\<forall>p \<in> set waits. sint p < 0" "0 \<le> sint c"
  shows "\<exists>s'. kernel_trap (waits @ c # cs) s = Inr (Done cs s') \<and>
    returned s ((regs (hart s))(A0 := c)) (console (lib s)) s'"
  using assms by (rule getc_trap)

text \<open>The example with the third process gone, so that the caller is alone.\<close>

theorem getc_call_returns_witness:
  "\<exists>s'. kernel_trap [- 1, - 1, 0x61, 0x62] ((calling SYS_GETC 0)\<lparr>procs := three_procs[2 := no_process]\<rparr>) = Inr (Done [0x62] s') \<and>
     regs (hart s') A0 = 0x61 \<and> regs (hart s') SP = 0x1001f00 \<and> pc (hart s') = 0x1000044"
proof -
  let ?ps = "three_procs[2 := no_process]" and ?s = "(calling SYS_GETC 0)\<lparr>procs := three_procs[2 := no_process]\<rparr>"
  have "table_ok 0 ?ps" "in_use ?ps 1" "\<forall>j < 8. runnable ?ps j \<longleftrightarrow> j = 1"
    by (auto simp: table_ok_def in_use_def runnable_def three_procs_def no_process_def PROCS_MAX_def PROC_RUNNABLE_def PROC_UNUSED_def less_8)
  then show ?thesis
    using getc_call_returns [of ?s 0 1 "[- 1, - 1]" "0x61" "[0x62]"]
    by (auto simp: calling_fields returned_def)
qed

section \<open>Calls that lose the hart\<close>

text \<open>
  \<open>SYS_GETC\<close> across a context switch. When the handler yields to another process inside its
  loop, the trap frame it leaves behind holds the caller's registers. If that frame is intact when the caller is scheduled again, whatever ran in
  between, the next answer that is not negative ends the call: the caller continues behind its own
  \<open>ecall\<close>, not behind the one the control register names by then, with the answer in \<open>a0\<close> and all
  its other registers.
\<close>

theorem getc_call_resumes:
  assumes "scause (hart s) = SCAUSE_ECALL" "regs (hart s) A3 = SYS_GETC"
    and "kernel_trap polls s = Inr (Suspended rest s1)"
    and "\<forall>z \<in> span (sscratch (hart s) - 248) 248. kmem (lib s2) z = kmem (lib s1) z"
    and "0 \<le> sint c"
  shows "\<exists>s'. resume_getc (sepc (hart s)) (c # cs) (sscratch (hart s) - 248) s2 = Inr (Done cs s') \<and>
    regs (hart s') = (regs (hart s))(A0 := c) \<and> pc (hart s') = sepc (hart s) + 4 \<and> procs s' = procs s2 \<and>
    (\<forall>z. z \<notin> span (sscratch (hart s) - 248) 248 \<longrightarrow> kmem (lib s') z = kmem (lib s2) z)"
proof -
  let ?f = "sscratch (hart s) - 248"
  obtain f s0 where f: "trap_save s = (f, s0)" by (cases "trap_save s")
  note S = trap_save_frame [OF f]
  have sp: "regs (hart s0) SP = ?f" using f by (auto simp: trap_save_def Let_def)
  have "scause (hart s0) = SCAUSE_ECALL" using assms(1) by (subst S(6)) simp
  then have run: "kernel_trap polls s =
      bind_res (getc_loop polls f s0) (\<lambda>r. Inr (trap_return f (finish_trap (sepc (hart s0) + 4) r)))"
    using assms(2) f by (cases "getc_loop polls f s0")
      (simp_all add: kernel_trap_def handle_trap_def syscall_entry_def Let_def frame_get_frame [OF S(2)] SYS_GETC_def SYS_PUTC_def)
  obtain r where r: "getc_loop polls f s0 = Inr r" using assms(3) run by (cases "getc_loop polls f s0") simp_all
  then have "r = Suspended rest s1"
    using assms(3) run by (cases r) (simp_all add: finish_trap_def trap_return_def)
  then have "yield s0 = Inr (Away s1)" using getc_loop_steps [OF r] by simp
  then have kept: "kmem (lib s1) z = kmem (lib s0) z" if "z \<in> span ?f 248" for z
    using that sp span_below [of z ?f] by (auto simp: switch_context_other elim!: yield_away)
  have fr: "trap_frame (kmem (lib s2)) ?f (regs (hart s))"
  proof (rule reg_frame_cong [of "kmem (lib s0)"])
    show "reg_frame (kmem (lib s0)) ?f (trap_regs @ [SP]) (regs (hart s))" using S(1,2) by simp
    show "kmem (lib s2) z = kmem (lib s0) z" if "z \<in> span ?f (8 * length (trap_regs @ [SP]))" for z
      using that kept [of z] assms(4) by (simp add: trap_regs_facts(2))
  qed (simp add: trap_regs_facts(2))
  let ?s3 = "frame_set ?f A0 c s2"
  let ?s4 = "?s3\<lparr>hart := (hart ?s3)\<lparr>sepc := sepc (hart s) + 4\<rparr>\<rparr>"
  have "trap_frame (kmem (lib ?s4)) ?f ((regs (hart s))(A0 := c))" using frame_set_frame [OF fr] by simp
  note R = trap_restore_frame [OF this]
  have "resume_getc (sepc (hart s)) (c # cs) ?f s2 = Inr (Done cs (trap_restore ?f ?s4))"
    using assms(5) by (simp add: resume_getc_def finish_trap_def trap_return_def)
  moreover have "procs ?s4 = procs s2" by (simp add: frame_set_def)
  ultimately show ?thesis using R frame_set_other [of _ ?f] by auto
qed


theorem getc_call_resumes_witness:
  "\<exists>s1 s'. kernel_trap [- 1] (calling SYS_GETC 0) = Inr (Suspended [] s1) \<and>
     resume_getc 0x1000040 [0x61] 0x80213f38 (s1\<lparr>hart := reset_hart\<lparr>sepc := 0x1000800\<rparr>\<rparr>) = Inr (Done [] s') \<and>
     regs (hart s') = (regs (hart (calling SYS_GETC 0)))(A0 := 0x61) \<and> pc (hart s') = 0x1000044"
proof -
  obtain f s0 where f: "trap_save (calling SYS_GETC 0) = (f, s0)" by (cases "trap_save (calling SYS_GETC 0)")
  note S = trap_save_frame [OF f]
  have "procs s0 = three_procs" "current_proc s0 = Some 1" "idle_proc s0 = Some 0" by (subst S(5), simp add: calling_fields)+
  then obtain s1 where y: "yield s0 = Inr (Away s1)" using three_next by (auto simp: yield_def Let_def)
  have "scause (hart s0) = SCAUSE_ECALL" by (subst S(6)) (simp add: calling_fields)
  then have "kernel_trap [- 1] (calling SYS_GETC 0) = Inr (Suspended [] s1)"
    using f y by (simp add: kernel_trap_def handle_trap_def syscall_entry_def Let_def frame_get_frame [OF S(2)] calling_fields
        SYS_GETC_def SYS_PUTC_def finish_trap_def trap_return_def)
  then show ?thesis
    using getc_call_resumes [of "calling SYS_GETC 0" "[- 1]" "[]" s1 "s1\<lparr>hart := reset_hart\<lparr>sepc := 0x1000800\<rparr>\<rparr>" "0x61" "[]"]
    by (auto simp: calling_fields)
qed

lemma exit_line:
  assumes "n < 8"
  shows "printf m (''Process %d exited'' @ [CHR 0x0A]) [ucast (of_nat (n + 1) :: u32)] con =
    Inr (con @ bytes_of ''Process '' @ int_numeral (sint (of_nat (n + 1) :: u32)) @ bytes_of '' exited'' @ [13, 10])"
proof -
  have pct: "byte_of CHR ''%'' \<notin> set (bytes_of ''Process '')" "byte_of CHR ''%'' \<notin> set (bytes_of '' exited'' @ [10])" by simp_all
  have u: "(ucast (ucast (of_nat (n + 1) :: u32) :: u64) :: u32) = of_nat (n + 1)" by (rule bit_eqI) (auto simp: bit_simps)
  have "sint (of_nat (n + 1) :: u32) = int (n + 1)" using assms by (intro sint_of_nat_32) simp
  then have d: "sint (ucast (ucast (of_nat (n + 1) :: u32) :: u64) :: u32) \<noteq> - (2 ^ 31)" unfolding u by simp
  have fmt: "bytes_of (''Process %d exited'' @ [CHR 0x0A]) =
      bytes_of ''Process '' @ byte_of CHR ''%'' # byte_of CHR ''d'' # (bytes_of '' exited'' @ [10]) @ []" by simp
  have "crlf (bytes_of ''Process '') = bytes_of ''Process ''" "crlf (bytes_of '' exited'' @ [10]) = bytes_of '' exited'' @ [13, 10]"
    by (simp_all add: crlf_def)
  then show ?thesis
    unfolding printf_def fmt vprintf_literal [OF pct(1)] vprintf_conv printf_d [OF d] u bind_res_simps
    by (simp only: prod.case vprintf_literal [OF pct(2)]) simp
qed

text \<open>A process that is marked as exited loses the hart at its next \<open>yield\<close>.\<close>

lemma exit_switches:
  assumes "sched_inv s" "current_proc s \<noteq> idle_proc s"
  obtains s' where "yield (mark_exited con s) = Inr (Away s')"
proof -
  note M = mark_exited_table [OF assms, of con]
  obtain idle cur where S: "idle_proc (mark_exited con s) = Some idle" "current_proc (mark_exited con s) = Some cur"
    "table_ok idle (procs (mark_exited con s))" "in_use (procs (mark_exited con s)) cur"
    using sched_inv_current [OF M(2)] by metis
  have "idle_proc s = Some idle" "current_proc s = Some cur" using S(1,2) by (simp_all add: mark_exited_def)
  then have "cur \<noteq> idle" "\<not> runnable (procs (mark_exited con s)) cur"
    using M(4) assms(2) by (auto simp: runnable_def PROC_RUNNABLE_def PROC_EXITED_def)
  then have "next_slot (procs (mark_exited con s)) idle cur \<noteq> cur"
    using next_slot_first [OF S(3,4)] by auto
  then show thesis using that S(1,2) by (auto simp: yield_def Let_def)
qed

text \<open>The trap of \<open>SYS_EXIT\<close>: its line, and a state in which the process is gone.\<close>

lemma exit_trap:
  assumes "sched_inv s" "scause (hart s) = SCAUSE_ECALL" "regs (hart s) A3 = SYS_EXIT"
    and "current_proc s = Some cur" "idle_proc s \<noteq> Some cur"
  obtains s' where "kernel_trap polls s = Inr (Suspended polls s')"
    "console (lib s') = console (lib s) @ bytes_of ''Process '' @ int_numeral (sint (pid (procs s ! cur))) @ bytes_of '' exited'' @ [13, 10]"
    "gone cur s'" "sched_inv s'"
proof -
  obtain f s0 where f: "trap_save s = (f, s0)" by (cases "trap_save s")
  note S = trap_save_frame [OF f]
  have same: "same_table s s0" by (subst S(5)) (rule same_tableI)
  have s0: "sched_inv s0" "current_proc s0 = Some cur" "idle_proc s0 = idle_proc s" "procs s0 = procs s" "console (lib s0) = console (lib s)"
    using same_table_inv(1) [OF same] same assms(1,4) by (simp_all add: same_table_def) (subst S(5), simp)
  have ne: "current_proc s0 \<noteq> idle_proc s0" using s0 assms(5) by metis
  let ?con = "console (lib s) @ bytes_of ''Process '' @ int_numeral (sint (pid (procs s ! cur))) @ bytes_of '' exited'' @ [13, 10]"
  have "pid (procs s ! cur) = of_nat (cur + 1)" "cur < 8"
    using assms(1,4,5) by (auto simp: sched_inv_def table_ok_def in_use_def PROCS_MAX_def)
  then have pr: "printf (kmem (lib s0)) (''Process %d exited'' @ [CHR 0x0A]) [ucast (pid (procs s0 ! cur))] (console (lib s0)) = Inr ?con"
    using s0 exit_line by simp
  obtain s' where y: "yield (mark_exited ?con s0) = Inr (Away s')"
    using exit_switches [OF s0(1) ne] by metis
  have "proc_exit s0 = Inr (Away s')"
    using y s0(2) pr by (simp add: proc_exit_def mark_exited_def)
  note E = exit_step [OF s0(1) ne this]
  have "scause (hart s0) = SCAUSE_ECALL" using assms(2) by (subst S(6)) simp
  then have "kernel_trap polls s = Inr (Suspended polls s')"
    using f assms(3) \<open>proc_exit s0 = Inr (Away s')\<close>
    by (simp add: kernel_trap_def handle_trap_def syscall_entry_def Let_def frame_get_frame [OF S(2)]
        SYS_EXIT_def SYS_GETC_def SYS_PUTC_def finish_trap_def trap_return_def)
  moreover have "console (lib s') = ?con" using y by (auto simp: mark_exited_def elim!: yield_away)
  moreover have "gone cur s'"
    using E s0 assms(5) \<open>cur < 8\<close> table_stepD(1) [OF E(1)] by (auto simp: gone_def)
  ultimately show thesis using that E(2) by simp
qed

text \<open>
  (C23) \<open>SYS_EXIT\<close> never returns. A process other than the idle one that makes the call is marked as exited,
  the line \<open>Process <pid> exited\<close> is printed and another process gets the hart; the panic behind
  \<open>proc_exit\<close> is not reached. In every state reachable from there the process is still marked as exited
  and is not the one that runs.
\<close>

theorem exit_call_is_final:
  assumes "sched_inv s" "scause (hart s) = SCAUSE_ECALL" "regs (hart s) A3 = SYS_EXIT"
    and "current_proc s = Some cur" "idle_proc s \<noteq> Some cur"
  shows "\<exists>s'. kernel_trap polls s = Inr (Suspended polls s') \<and>
    console (lib s') = console (lib s) @ bytes_of ''Process '' @ int_numeral (sint (pid (procs s ! cur))) @ bytes_of '' exited'' @ [13, 10] \<and>
    (\<forall>s''. reaches s' s'' \<longrightarrow> state (procs s'' ! cur) = PROC_EXITED \<and> current_proc s'' \<noteq> Some cur)"
proof -
  obtain s' where s': "kernel_trap polls s = Inr (Suspended polls s')"
    "console (lib s') = console (lib s) @ bytes_of ''Process '' @ int_numeral (sint (pid (procs s ! cur))) @ bytes_of '' exited'' @ [13, 10]"
    "gone cur s'" "sched_inv s'" by (rule exit_trap [OF assms])
  then show ?thesis using reaches_inv [OF _ s'(4), of _ cur] by (auto simp: gone_def)
qed

theorem exit_call_is_final_witness:
  "\<exists>s'. kernel_trap [] (calling SYS_EXIT 0) = Inr (Suspended [] s') \<and> state (procs s' ! 1) = PROC_EXITED \<and>
     (\<forall>s''. reaches s' s'' \<longrightarrow> current_proc s'' \<noteq> Some 1)"
  using exit_call_is_final [of "calling SYS_EXIT 0" 1 "[]", OF calling_inv] reaches.here
  by (simp add: calling_fields) metis

section \<open>Traps that do not return\<close>

lemma yield_runs: "sched_inv s \<Longrightarrow> \<exists>y. yield s = Inr y"
  by (auto simp: sched_inv_def yield_def Let_def)

lemma getc_loop_runs: "sched_inv s \<Longrightarrow> \<exists>r. getc_loop polls f s = Inr r"
proof (induction polls)
  case (Cons c polls)
  obtain y where y: "yield s = Inr y" using yield_runs [OF Cons.prems] by blast
  then show ?case using Cons yield_back [of s] by (cases y) auto
qed simp

lemma proc_exit_leaves:
  assumes "sched_inv s" "current_proc s \<noteq> idle_proc s"
  shows "\<exists>s'. proc_exit s = Inr (Away s')"
proof -
  obtain idle cur where S: "idle_proc s = Some idle" "current_proc s = Some cur" "table_ok idle (procs s)" "in_use (procs s) cur"
    using sched_inv_current [OF assms(1)] by metis
  then have "pid (procs s ! cur) = of_nat (cur + 1)" "cur < 8"
    using assms(2) by (auto simp: table_ok_def in_use_def PROCS_MAX_def)
  then obtain con where pr: "printf (kmem (lib s)) (''Process %d exited'' @ [CHR 0x0A]) [ucast (pid (procs s ! cur))] (console (lib s)) = Inr con"
    using exit_line by metis
  obtain s' where "yield (mark_exited con s) = Inr (Away s')" by (rule exit_switches [OF assms])
  then show ?thesis using pr S(2) by (simp add: proc_exit_def mark_exited_def)
qed

lemma syscall_errors:
  assumes "sched_inv s" "current_proc s \<noteq> idle_proc s"
  shows "syscall_entry polls f s = Inl e \<longleftrightarrow>
    frame_get s f A3 \<notin> {SYS_OPEN, SYS_CLOSE, SYS_READ, SYS_EXIT, SYS_PUTC, SYS_GETC} \<and>
      e = Panic (''Unexpected syscall: 0x%x'' @ [CHR 0x0A]) [frame_get s f A3]"
proof -
  obtain r where r: "getc_loop polls f s = Inr r" using getc_loop_runs [OF assms(1)] by blast
  obtain s' where e: "proc_exit s = Inr (Away s')" using proc_exit_leaves [OF assms] by blast
  obtain root where t: "current_table s = Inr root"
    using assms(1) by (auto simp: sched_inv_def current_table_def)
  show ?thesis by (auto simp: syscall_entry_def Let_def r e t)
qed

text \<open>
  (C24) The traps that panic, exactly. For a process other than the idle one, the handler fails if and only
  if the trap is not an \<open>ecall\<close> from user mode or the call number is none of the six the dispatcher
  knows; the message then is the one of that case, with the values of the control registers or the call number.
\<close>

theorem trap_panics_exactly:
  assumes "sched_inv s" "current_proc s \<noteq> idle_proc s"
  shows "kernel_trap polls s = Inl e \<longleftrightarrow>
    (if scause (hart s) \<noteq> SCAUSE_ECALL then
       e = Panic (''Unexpected trap: '' @ [CHR 0x0A, CHR 0x09] @ ''scause=0x%x'' @ [CHR 0x0A, CHR 0x09] @
         ''stval=0x%x'' @ [CHR 0x0A, CHR 0x09] @ ''sepc=0x%x'' @ [CHR 0x0A]) [scause (hart s), stval (hart s), sepc (hart s)]
     else regs (hart s) A3 \<notin> {SYS_OPEN, SYS_CLOSE, SYS_READ, SYS_EXIT, SYS_PUTC, SYS_GETC} \<and>
       e = Panic (''Unexpected syscall: 0x%x'' @ [CHR 0x0A]) [regs (hart s) A3])"
proof -
  obtain f s0 where f: "trap_save s = (f, s0)" by (cases "trap_save s")
  note S = trap_save_frame [OF f]
  have same: "same_table s s0" by (subst S(5)) (rule same_tableI)
  have inv: "sched_inv s0" "current_proc s0 \<noteq> idle_proc s0"
    using same_table_inv(1) [OF same] same assms by (simp_all add: same_table_def)
  have h: "scause (hart s0) = scause (hart s)" "stval (hart s0) = stval (hart s)" "sepc (hart s0) = sepc (hart s)"
    by (subst S(6), simp)+
  have run: "kernel_trap polls s = Inl e \<longleftrightarrow> handle_trap polls f s0 = Inl e"
    using f by (cases "handle_trap polls f s0") (simp_all add: kernel_trap_def)
  show ?thesis
  proof (cases "scause (hart s) = SCAUSE_ECALL")
    case True
    then have "handle_trap polls f s0 = Inl e \<longleftrightarrow> syscall_entry polls f s0 = Inl e"
      using h by (cases "syscall_entry polls f s0") (simp_all add: handle_trap_def Let_def)
    then show ?thesis using True run syscall_errors [OF inv] frame_get_frame [OF S(2)] by simp
  next
    case False
    then show ?thesis using run h by (auto simp: handle_trap_def Let_def)
  qed
qed

theorem trap_panics_exactly_witness:
  "kernel_trap [] (calling 3 0) = Inl (Panic (''Unexpected syscall: 0x%x'' @ [CHR 0x0A]) [3])"
proof -
  have "current_proc (calling 3 0) \<noteq> idle_proc (calling 3 0)" by (simp add: calling_fields)
  from trap_panics_exactly [OF calling_inv this] show ?thesis
    by (simp add: calling_fields SYS_OPEN_def SYS_CLOSE_def SYS_READ_def SYS_EXIT_def SYS_PUTC_def SYS_GETC_def)
qed

end
