(* ===== verification/User_Props.thy ===== *)
theory User_Props
  imports User Syscall_Props
begin

text \<open>Properties of user programs: the calls of the user library through the kernel, and the sessions of the shell.\<close>

section \<open>Calls of the user library\<close>

lemma ecall_fields:
  "scause (hart (ecall at n a b c s)) = SCAUSE_ECALL" "sepc (hart (ecall at n a b c s)) = at"
  "regs (hart (ecall at n a b c s)) = (regs (hart s))(A0 := scast a, A1 := scast b, A2 := scast c, A3 := scast n)"
  "lib (ecall at n a b c s) = lib s" "procs (ecall at n a b c s) = procs s" "current_proc (ecall at n a b c s) = current_proc s"
  "idle_proc (ecall at n a b c s) = idle_proc s" "sscratch (hart (ecall at n a b c s)) = sscratch (hart s)"
  by (simp_all add: ecall_def)

lemma call_numbers:
  "scast (ucast SYS_PUTC :: u32) = SYS_PUTC" "scast (ucast SYS_GETC :: u32) = SYS_GETC" "scast (ucast SYS_READ :: u32) = SYS_READ"
  "scast (ucast SYS_OPEN :: u32) = SYS_OPEN" "scast (ucast SYS_CLOSE :: u32) = SYS_CLOSE"
  by (simp_all add: SYS_PUTC_def SYS_GETC_def SYS_READ_def SYS_OPEN_def SYS_CLOSE_def)

lemma ucast_scast_32: "(ucast (scast (x :: u32) :: u64) :: u32) = x"
  by (rule bit_eqI) (auto simp: bit_simps)

lemma ucast_scast_byte: "(ucast (scast (ucast (c :: u8) :: u32) :: u64) :: u8) = c"
  by (rule bit_eqI) (auto simp: bit_simps)

text \<open>
  The user library's \<open>putc\<close>, down through the \<open>ecall\<close>, the kernel's handler and back: the byte, whichever it is, is
  the only thing added to the console, and the caller goes on behind its \<open>ecall\<close>; registers other than the four
  that the stub loads, the process table and memory outside the trap frame are as before.
\<close>

theorem user_putc_appends:
  shows "\<exists>s'. user_putc polls at c s = Inr (Done polls s') \<and> console (lib s') = console (lib s) @ [c] \<and>
    pc (hart s') = at + 4 \<and> procs s' = procs s \<and>
    (\<forall>r. r \<notin> {A0, A1, A2, A3} \<longrightarrow> regs (hart s') r = regs (hart s) r) \<and>
    (\<forall>z. z \<notin> span (sscratch (hart s) - 248) 248 \<longrightarrow> kmem (lib s') z = kmem (lib s) z)"
proof -
  let ?s = "ecall at (ucast SYS_PUTC) (ucast c) 0 0 s"
  have "\<exists>s'. kernel_trap polls ?s = Inr (Done polls s') \<and>
      returned ?s (regs (hart ?s)) (console (lib ?s) @ [ucast (scast (ucast c :: u32) :: u64)]) s'"
    using putc_trap [of ?s polls] by (simp add: ecall_fields call_numbers)
  then show ?thesis by (auto simp: user_putc_def syscall_def returned_def ecall_fields ucast_scast_byte)
qed

theorem user_putc_appends_witness:
  "\<exists>s'. user_putc [] 0x1000040 0x41 three_sys = Inr (Done [] s') \<and> console (lib s') = console (lib three_sys) @ [0x41] \<and>
     regs (hart s') SP = regs (hart three_sys) SP"
  using user_putc_appends [of "[]" "0x1000040" "0x41" three_sys] by auto

text \<open>
  The user library's \<open>getc\<close>. With the caller the only runnable process, it waits out the polls that find no key and returns
  the first answer that is not negative; assigned to a \<open>char\<close>, as the shell does, that is the key itself.
\<close>

theorem user_getc_returns_key:
  assumes "table_ok idle (procs s)" "idle_proc s = Some idle" "current_proc s = Some cur" "in_use (procs s) cur"
    and "\<forall>j < 8. runnable (procs s) j \<longleftrightarrow> j = cur" "\<forall>p \<in> set waits. sint p < 0"
  shows "\<exists>s'. user_getc (waits @ ucast (key :: u8) # keys) at s = Inr (Done keys s') \<and>
    (ucast (call_value s') :: u8) = key \<and> console (lib s') = console (lib s) \<and> pc (hart s') = at + 4"
proof -
  let ?s = "ecall at (ucast SYS_GETC) 0 0 0 s"
  have key: "0 \<le> sint (ucast key :: u64)"
    using bit_imp_le_length [of key 63] by (auto simp: sint_uint signed_take_bit_nonnegative_iff bit_simps)
  have "\<exists>s'. kernel_trap (waits @ ucast key # keys) ?s = Inr (Done keys s') \<and>
      returned ?s ((regs (hart ?s))(A0 := ucast key)) (console (lib ?s)) s'"
    using assms key by (intro getc_trap [where idle = idle and cur = cur]) (simp_all add: ecall_fields call_numbers)
  moreover have "(ucast (ucast (ucast key :: u64) :: u32) :: u8) = key" by (rule bit_eqI) (auto simp: bit_simps)
  ultimately show ?thesis by (auto simp: user_getc_def syscall_def returned_def ecall_fields call_value_def)
qed

theorem user_getc_returns_key_witness:
  "\<exists>s'. user_getc [- 1, 0x61, 0x62] 0x1000040 (three_sys\<lparr>procs := three_procs[2 := no_process]\<rparr>) = Inr (Done [0x62] s') \<and>
     (ucast (call_value s') :: u8) = 0x61"
proof -
  let ?ps = "three_procs[2 := no_process]" and ?s = "three_sys\<lparr>procs := three_procs[2 := no_process]\<rparr>"
  have "table_ok 0 ?ps" "in_use ?ps 1" "\<forall>j < 8. runnable ?ps j \<longleftrightarrow> j = 1"
    by (auto simp: table_ok_def in_use_def runnable_def three_procs_def no_process_def PROCS_MAX_def PROC_RUNNABLE_def PROC_UNUSED_def less_8)
  moreover have "idle_proc ?s = Some 0" "current_proc ?s = Some 1" by (simp_all add: three_sys_def)
  ultimately show ?thesis
    using user_getc_returns_key [of 0 ?s 1 "[- 1]" "0x61" "[0x62]" "0x1000040"] by auto
qed

text \<open>
  The file calls are not implemented behind their interface. When a process is current, \<open>open\<close> returns the low half of the
  address of its path as the descriptor, \<open>read\<close> returns its descriptor as the number of bytes and
  stores nothing, and \<open>close\<close> does nothing: registers are as the stub loaded them, the console is unchanged, and memory is
  unchanged but for the trap frame.
\<close>

theorem file_calls_return_arguments:
  assumes "current_proc s = Some cur"
  shows "\<exists>s1 s2 s3. user_open polls at path access s = Inr (Done polls s1) \<and> call_value s1 = ucast path \<and>
    user_read polls at fd buf sz s = Inr (Done polls s2) \<and> call_value s2 = fd \<and>
    user_close polls at fd s = Inr (Done polls s3) \<and>
    (\<forall>s' \<in> {s1, s2, s3}. console (lib s') = console (lib s) \<and> procs s' = procs s \<and> pc (hart s') = at + 4 \<and>
       (\<forall>z. z \<notin> span (sscratch (hart s) - 248) 248 \<longrightarrow> kmem (lib s') z = kmem (lib s) z))"
proof -
  have call: "\<exists>s'. syscall polls at n a b c s = Inr (Done polls s') \<and> call_value s' = a \<and> console (lib s') = console (lib s) \<and>
      procs s' = procs s \<and> pc (hart s') = at + 4 \<and> (\<forall>z. z \<notin> span (sscratch (hart s) - 248) 248 \<longrightarrow> kmem (lib s') z = kmem (lib s) z)"
    if "scast n \<in> {SYS_OPEN, SYS_READ, SYS_CLOSE}" for n a b c
    using file_trap [of "ecall at n a b c s" cur polls] assms that
    by (auto simp: ecall_fields syscall_def returned_def call_value_def ucast_scast_32)
  have n: "scast (ucast SYS_OPEN :: u32) \<in> {SYS_OPEN, SYS_READ, SYS_CLOSE}" "scast (ucast SYS_READ :: u32) \<in> {SYS_OPEN, SYS_READ, SYS_CLOSE}"
    "scast (ucast SYS_CLOSE :: u32) \<in> {SYS_OPEN, SYS_READ, SYS_CLOSE}" by (simp_all add: call_numbers)
  obtain s1 s2 s3 where
    "syscall polls at (ucast SYS_OPEN) (ucast path) access 0 s = Inr (Done polls s1) \<and> call_value s1 = ucast path \<and> console (lib s1) = console (lib s) \<and>
      procs s1 = procs s \<and> pc (hart s1) = at + 4 \<and> (\<forall>z. z \<notin> span (sscratch (hart s) - 248) 248 \<longrightarrow> kmem (lib s1) z = kmem (lib s) z)"
    "syscall polls at (ucast SYS_READ) fd (ucast buf) sz s = Inr (Done polls s2) \<and> call_value s2 = fd \<and> console (lib s2) = console (lib s) \<and>
      procs s2 = procs s \<and> pc (hart s2) = at + 4 \<and> (\<forall>z. z \<notin> span (sscratch (hart s) - 248) 248 \<longrightarrow> kmem (lib s2) z = kmem (lib s) z)"
    "syscall polls at (ucast SYS_CLOSE) fd 0 0 s = Inr (Done polls s3) \<and> call_value s3 = fd \<and> console (lib s3) = console (lib s) \<and>
      procs s3 = procs s \<and> pc (hart s3) = at + 4 \<and> (\<forall>z. z \<notin> span (sscratch (hart s) - 248) 248 \<longrightarrow> kmem (lib s3) z = kmem (lib s) z)"
    using call [OF n(1), of "ucast path" access 0] call [OF n(2), of fd "ucast buf" sz] call [OF n(3), of fd 0 0] by (elim exE) (rule that)
  then show ?thesis
    unfolding user_open_def user_read_def user_close_def by (intro exI [of _ s1] exI [of _ s2] exI [of _ s3]) simp
qed

theorem file_calls_return_arguments_witness:
  "\<exists>s1. user_open [] 0x1000040 0x1000ff0 1 three_sys = Inr (Done [] s1) \<and> call_value s1 = 0x1000ff0"
proof -
  have "current_proc three_sys = Some 1" by (simp add: three_sys_def)
  from file_calls_return_arguments [OF this, of "[]" "0x1000040" "0x1000ff0" 1 0 0 0] show ?thesis by auto
qed

section \<open>The shell\<close>

text \<open>
  (C28) A session with the shell. Keys that make up lines of at most 126 characters, each ended by a carriage return and
  none of them \<open>exit\<close>, are answered in their order, each with its prompt, its echo and its
  reply: the greeting for \<open>hello\<close>, and the name of the command for any other. Then the shell is at its
  prompt and waits for a key; when the next line is \<open>exit\<close> it calls \<open>exit\<close> instead, and the keys behind it are not read.
\<close>

theorem shell_answers_commands:
  assumes "literals_ok d m" "\<forall>w \<in> set ws. length w < 127 \<and> 13 \<notin> set w \<and> 0 \<notin> set w \<and> w \<noteq> bytes_of ''exit''"
    and "answer = (\<lambda>w. bytes_of ''> '' @ w @ [13, 13, 10] @
      (if w = bytes_of ''hello'' then bytes_of ''Hello world from shell!'' else bytes_of ''Unknown command: '' @ w) @ [13, 10])"
  shows "shell_main d (concat (map (\<lambda>w. w @ [13]) ws)) m con = Inr (Waits (con @ concat (map answer ws) @ bytes_of ''> '')) \<and>
    shell_main d (concat (map (\<lambda>w. w @ [13]) ws) @ bytes_of ''exit'' @ 13 # rest) m con =
      Inr (Exits rest (con @ concat (map answer ws) @ bytes_of ''> exit'' @ [13, 13, 10]))"
proof -
  have ok: "\<forall>w \<in> set ws. line_ok w \<and> w \<noteq> bytes_of ''exit''" using assms(2) by (simp add: line_ok_def)
  have "map transcript ws = map answer ws" using ok by (simp add: transcript_def reply_def assms(3))
  note session = shell_session [OF assms(1) ok, unfolded this]
  obtain m1 where m1: "shell_main d (concat (map (\<lambda>w. w @ [13]) ws)) m con = shell_main d [] m1 (con @ concat (map answer ws))"
    using session [of "[]"] by auto
  obtain m2 where m2: "literals_ok d m2"
    "shell_main d (concat (map (\<lambda>w. w @ [13]) ws) @ bytes_of ''exit'' @ 13 # rest) m con =
      shell_main d (bytes_of ''exit'' @ 13 # rest) m2 (con @ concat (map answer ws))"
    using session [of "bytes_of ''exit'' @ 13 # rest"] by blast
  have "line_ok (bytes_of ''exit'')" by (simp add: line_ok_def)
  then obtain m' where "shell_round d (bytes_of ''exit'' @ 13 # rest) m2 (con @ concat (map answer ws)) =
      Inr (if bytes_of ''exit'' = bytes_of ''exit'' then Exits rest ((con @ concat (map answer ws)) @ transcript (bytes_of ''exit''))
           else Prompts rest m' ((con @ concat (map answer ws)) @ transcript (bytes_of ''exit'')))"
    by (rule round_answers [OF m2(1)])
  then have e: "shell_main d (bytes_of ''exit'' @ 13 # rest) m2 (con @ concat (map answer ws)) =
      Inr (Exits rest (con @ concat (map answer ws) @ bytes_of ''> exit'' @ [13, 13, 10]))"
    by (subst shell_main.simps) (simp add: transcript_def reply_def)
  have "shell_main d [] m1 c = Inr (Waits (c @ bytes_of ''> ''))" for c
    by (subst shell_main.simps) (simp only: shell_round_def shell_texts(1) bind_res_simps read_line.simps line.case sum.case round.case)
  then show ?thesis using m1 m2(2) e by simp
qed

definition small_shell :: shell_data where
  "small_shell = \<lparr>cmdline_at = 0x1009f00, hello_at = 0x1001000, exit_at = 0x1001010\<rparr>"

definition shell_mem :: mem where
  "shell_mem = (\<lambda>_. 0)(0x1001000 := 104, 0x1001001 := 101, 0x1001002 := 108, 0x1001003 := 108, 0x1001004 := 111,
     0x1001010 := 101, 0x1001011 := 120, 0x1001012 := 105, 0x1001013 := 116)"

lemma small_literals: "literals_ok small_shell shell_mem"
proof -
  have "span 0x1009f00 128 \<inter> span 0x1001000 6 = {}" "span 0x1009f00 128 \<inter> span 0x1001010 5 = {}" by (rule span_disjoint; simp)+
  then show ?thesis by (simp add: literals_ok_def small_shell_def shell_mem_def)
qed

theorem shell_answers_commands_witness:
  "shell_main small_shell (bytes_of ''ls'' @ 13 # bytes_of ''exit'' @ [13, 120]) shell_mem [] =
     Inr (Exits [120] (bytes_of ''> ls'' @ [13, 13, 10] @ bytes_of ''Unknown command: ls'' @ [13, 10] @ bytes_of ''> exit'' @ [13, 13, 10]))"
  using shell_answers_commands [OF small_literals _ refl, of "[bytes_of ''ls'']" "[]" "[120]"] by simp

text \<open>
  (C29) A line that is too long is cut. When the first 127 keys hold no carriage return the 128th ends the line whatever it is, a
  carriage return included: the shell echoes all of them, prints its complaint, writes no byte outside its array, and
  takes the keys behind them as the next line.
\<close>

theorem shell_cuts_long_lines:
  assumes "length w = 127" "13 \<notin> set w"
  shows "\<exists>m'. shell_main d (w @ c # rest) m con =
      shell_main d rest m' (con @ bytes_of ''> '' @ w @ [c] @ bytes_of ''Command too long!'' @ [13, 10]) \<and>
    (\<forall>z. z \<notin> span (cmdline_at d) 128 \<longrightarrow> m' z = m z)"
proof -
  obtain m' where m': "read_line (cmdline_at d) 0 (w @ c # rest) m (con @ bytes_of ''> '') =
      Inr (Too_long rest m' ((con @ bytes_of ''> '') @ w @ [c] @ bytes_of ''Command too long!'' @ [13, 10]))"
    "\<forall>z. z \<notin> span (cmdline_at d) 128 \<longrightarrow> m' z = m z"
    using read_line_too_long [OF assms(2), of 0 "cmdline_at d" c rest m "con @ bytes_of ''> ''"] assms(1) by auto
  have "shell_round d (w @ c # rest) m con =
      Inr (Prompts rest m' (con @ bytes_of ''> '' @ w @ [c] @ bytes_of ''Command too long!'' @ [13, 10]))"
    unfolding shell_round_def shell_texts(1) bind_res_simps m'(1) by simp
  then show ?thesis using m'(2) by (intro exI [of _ m']) (subst shell_main.simps, simp)
qed

theorem shell_cuts_long_lines_witness:
  "shell_main small_shell (replicate 127 97 @ [13]) shell_mem [] =
     Inr (Waits (bytes_of ''> '' @ replicate 127 97 @ [13] @ bytes_of ''Command too long!'' @ [13, 10] @ bytes_of ''> ''))"
proof -
  obtain m' where m': "shell_main small_shell (replicate 127 97 @ [13]) shell_mem [] =
      shell_main small_shell [] m' ([] @ bytes_of ''> '' @ replicate 127 97 @ [13] @ bytes_of ''Command too long!'' @ [13, 10])"
    using shell_cuts_long_lines [of "replicate 127 97" small_shell 13 "[]" shell_mem "[]"] by auto
  have "shell_main small_shell [] m' c = Inr (Waits (c @ bytes_of ''> ''))" for c
    by (subst shell_main.simps) (simp only: shell_round_def shell_texts(1) bind_res_simps read_line.simps line.case sum.case round.case)
  then show ?thesis unfolding m' by simp
qed

end
