(* ===== verification/User_Stdio.thy ===== *)
theory User_Stdio
  imports User
begin

text \<open>
  Formatted output of user programs, \<open>user/libc/stdio.c\<close>. The text is that of \<open>klib/stdio.c\<close>, and this
  model of it is one level below the model made for that file: \<open>putc\<close> is an operation that may fail, on a state of its own, and the local
  arrays that \<open>utoa\<close> fills are memory at an address, from which \<open>puts\<close> and \<open>strlen\<close> read them back. In a user
  program \<open>putc\<close> is the system call, down through the kernel's trap handler and back.

  \<open>console_port\<close> is what these functions need of a \<open>putc\<close>; in it the formatted output is proved to be, byte for byte,
  that of the model of \<open>klib\<close>. The process sees its own memory through its page table; the handler writes to the kernel stack only, so
  that memory is an argument of its own here.
\<close>

section \<open>The functions\<close>

type_synonym 's sink = "u8 \<Rightarrow> 's \<Rightarrow> 's res"

partial_function (option) out_puts :: "'s sink \<Rightarrow> mem \<Rightarrow> u64 \<Rightarrow> 's \<Rightarrow> 's res option" where
  "out_puts send m str s =
     (if m str \<noteq> 0 then
        (case send (m str) s of
           Inl e \<Rightarrow> Some (Inl e)
         | Inr s \<Rightarrow> out_puts send m (str + 1) s)
      else Some (Inr s))"

text \<open>The second loop of \<open>utoa\<close>, with \<open>i\<close> characters of \<open>temp\<close> left, and the terminator.\<close>

fun copy_digits :: "u64 \<Rightarrow> u8 list \<Rightarrow> nat \<Rightarrow> nat \<Rightarrow> mem \<Rightarrow> mem" where
  "copy_digits buffer temp 0 j m = m(buffer + of_nat j := 0)"
| "copy_digits buffer temp (Suc i) j m = copy_digits buffer temp i (Suc j) (m(buffer + of_nat j := temp ! i))"

definition utoa_into :: "u64 \<Rightarrow> u64 \<Rightarrow> u32 \<Rightarrow> mem \<Rightarrow> mem res" where
  "utoa_into value buffer base m =
     (if value = 0 then Inr (m(buffer := byte_of CHR ''0'', buffer + 1 := 0))
      else bind_res (utoa_digits value (scast base) []) (\<lambda>temp. Inr (copy_digits buffer temp (length temp) 0 m)))"

text \<open>\<open>utoa(value, buffer, base); puts(buffer);\<close>\<close>

definition out_number :: "'s sink \<Rightarrow> u64 \<Rightarrow> u64 \<Rightarrow> u32 \<Rightarrow> mem \<times> 's \<Rightarrow> (mem \<times> 's) res" where
  "out_number send buffer value base st =
     (case st of (m, s) \<Rightarrow>
        bind_res (utoa_into value buffer base m) (\<lambda>m.
        bind_res (may_hang (out_puts send m buffer s)) (\<lambda>s. Inr (m, s))))"

text \<open>The \<open>switch\<close> of \<open>vprintf\<close>; \<open>buffer\<close> is the address of its local array.\<close>

definition out_conv :: "'s sink \<Rightarrow> u64 \<Rightarrow> u8 \<Rightarrow> u64 list \<Rightarrow> mem \<times> 's \<Rightarrow> ((mem \<times> 's) \<times> u64 list) res" where
  "out_conv send buffer f args st =
     (case st of (m, s) \<Rightarrow>
      if f = byte_of CHR ''d'' then
        bind_res (va_arg args) (\<lambda>(a, args).
          let value = (ucast a :: u32); neg = sint value < 0
          in bind_res (if neg then send (byte_of CHR ''-'') s else Inr s) (\<lambda>s.
               let value = (if neg then - value else value)
               in bind_res (out_number send buffer (scast value) 10 (m, s)) (\<lambda>st. Inr (st, args))))
      else if f = byte_of CHR ''x'' then
        bind_res (va_arg args) (\<lambda>(a, args).
          bind_res (out_number send buffer a 16 (m, s)) (\<lambda>st. Inr (st, args)))
      else if f = byte_of CHR ''u'' then
        bind_res (va_arg args) (\<lambda>(a, args).
          let value = (ucast a :: u32)
          in bind_res (out_number send buffer (scast value) 10 (m, s)) (\<lambda>st. Inr (st, args)))
      else if f = byte_of CHR ''s'' then
        bind_res (va_arg args) (\<lambda>(a, args).
          bind_res (may_hang (out_puts send m a s)) (\<lambda>s. Inr ((m, s), args)))
      else if f = byte_of CHR ''c'' then
        bind_res (va_arg args) (\<lambda>(a, args). bind_res (send (ucast a) s) (\<lambda>s. Inr ((m, s), args)))
      else
        bind_res (send (byte_of CHR ''%'') s) (\<lambda>s. bind_res (send f s) (\<lambda>s. Inr ((m, s), args))))"

fun out_vprintf :: "'s sink \<Rightarrow> u64 \<Rightarrow> u8 list \<Rightarrow> u64 list \<Rightarrow> mem \<times> 's \<Rightarrow> (mem \<times> 's) res" where
  "out_vprintf send buffer [] args st = Inr st"
| "out_vprintf send buffer (c # fmt) args st =
     (if c = byte_of CHR ''%'' then
        (case fmt of
           [] \<Rightarrow> Inl OutOfBounds
         | f # fmt' \<Rightarrow> bind_res (out_conv send buffer f args st) (\<lambda>(st, args). out_vprintf send buffer fmt' args st))
      else (case st of (m, s) \<Rightarrow>
        bind_res (if c = 10 then send 13 s else Inr s) (\<lambda>s.
        bind_res (send c s) (\<lambda>s. out_vprintf send buffer fmt args (m, s)))))"

definition out_printf :: "'s sink \<Rightarrow> u64 \<Rightarrow> string \<Rightarrow> u64 list \<Rightarrow> mem \<times> 's \<Rightarrow> (mem \<times> 's) res" where
  "out_printf send buffer format args st = out_vprintf send buffer (bytes_of format) args st"

section \<open>\<open>vsnprintf\<close>\<close>

text \<open>
  \<open>utoa(value, temp_buffer, base); buffer[bufferIdx] = *temp_buffer; bufferIdx += strlen(temp_buffer);\<close>. \<open>strlen\<close> of
  \<open>user/libc/string.c\<close> has the text of that of \<open>klib\<close>.
\<close>

definition snprintf_number :: "u64 \<Rightarrow> u64 \<Rightarrow> u64 \<Rightarrow> u32 \<Rightarrow> mem \<times> u32 \<times> 's \<Rightarrow> (mem \<times> u32 \<times> 's) res" where
  "snprintf_number temp buffer value base st =
     (case st of (m, idx, s) \<Rightarrow>
        bind_res (utoa_into value temp base m) (\<lambda>m.
          let m = buf_put buffer idx (m temp) m
          in bind_res (or_hang (strlen m temp)) (\<lambda>n. Inr (m, idx + n, s))))"

definition out_snprintf_conv ::
  "'s sink \<Rightarrow> u64 \<Rightarrow> u64 \<Rightarrow> u8 \<Rightarrow> u64 list \<Rightarrow> mem \<times> u32 \<times> 's \<Rightarrow> ((mem \<times> u32 \<times> 's) \<times> u64 list) res" where
  "out_snprintf_conv send temp buffer f args st =
     (case st of (m, idx, s) \<Rightarrow>
      if f = byte_of CHR ''d'' then
        bind_res (va_arg args) (\<lambda>(a, args).
          let value = (ucast a :: u32);
              neg = sint value < 0;
              m = (if neg then buf_put buffer idx (byte_of CHR ''-'') m else m);
              idx = (if neg then idx + 1 else idx);
              value = (if neg then - value else value)
          in bind_res (snprintf_number temp buffer (scast value) 10 (m, idx, s)) (\<lambda>st. Inr (st, args)))
      else if f = byte_of CHR ''u'' then
        bind_res (va_arg args) (\<lambda>(a, args).
          let value = (ucast a :: u32)
          in bind_res (snprintf_number temp buffer (scast value) 10 (m, idx, s)) (\<lambda>st. Inr (st, args)))
      else if f = byte_of CHR ''x'' then
        bind_res (va_arg args) (\<lambda>(a, args).
          let value = (ucast a :: u32)
          in bind_res (snprintf_number temp buffer (ucast value) 16 (m, idx, s)) (\<lambda>st. Inr (st, args)))
      else if f = byte_of CHR ''s'' then
        bind_res (va_arg args) (\<lambda>(a, args).
          let m = buf_put buffer idx (m a) m
          in bind_res (or_hang (strlen m a)) (\<lambda>len. Inr ((m, idx + len, s), args)))
      else if f = byte_of CHR ''c'' then
        bind_res (va_arg args) (\<lambda>(a, args). Inr ((buf_put buffer idx (ucast a) m, idx + 1, s), args))
      else
        bind_res (send (byte_of CHR ''%'') s) (\<lambda>s. bind_res (send f s) (\<lambda>s.
          Inr ((buf_put buffer (idx + 1) f (buf_put buffer idx (byte_of CHR ''%'') m), idx + 2, s), args))))"

fun out_vsnprintf_loop :: "'s sink \<Rightarrow> u64 \<Rightarrow> u64 \<Rightarrow> u8 list \<Rightarrow> u64 list \<Rightarrow> mem \<times> u32 \<times> 's \<Rightarrow> (mem \<times> u32 \<times> 's) res" where
  "out_vsnprintf_loop send temp buffer [] args st = Inr st"
| "out_vsnprintf_loop send temp buffer (c # fmt) args st =
     (if c = byte_of CHR ''%'' then
        (case fmt of
           [] \<Rightarrow> Inl OutOfBounds
         | f # fmt' \<Rightarrow> bind_res (out_snprintf_conv send temp buffer f args st) (\<lambda>(st, args). out_vsnprintf_loop send temp buffer fmt' args st))
      else (case st of (m, idx, s) \<Rightarrow> out_vsnprintf_loop send temp buffer fmt args (buf_put buffer idx c m, idx + 1, s)))"

definition out_vsnprintf :: "'s sink \<Rightarrow> u64 \<Rightarrow> u64 \<Rightarrow> u64 \<Rightarrow> u8 list \<Rightarrow> u64 list \<Rightarrow> mem \<times> 's \<Rightarrow> (mem \<times> 's) res" where
  "out_vsnprintf send temp buffer n format args st =
     (case st of (m, s) \<Rightarrow>
        bind_res (out_vsnprintf_loop send temp buffer format args (m, 0, s)) (\<lambda>(m, idx, s). Inr (m, s)))"

section \<open>In a user program\<close>

text \<open>\<open>putc\<close> as a sink: the call through the kernel's handler, which takes no answer of the console and does not suspend its caller.\<close>

definition trap_putc :: "u64 \<Rightarrow> ksys sink" where
  "trap_putc at c s =
     bind_res (user_putc [] at c s) (\<lambda>r. case r of Done polls s \<Rightarrow> Inr s | Suspended polls s \<Rightarrow> Inl Hang | Polling s \<Rightarrow> Inl Hang)"

definition user_puts :: "u64 \<Rightarrow> mem \<Rightarrow> u64 \<Rightarrow> ksys \<Rightarrow> ksys res" where
  "user_puts at m str s = may_hang (out_puts (trap_putc at) m str s)"

definition user_printf :: "u64 \<Rightarrow> u64 \<Rightarrow> string \<Rightarrow> u64 list \<Rightarrow> mem \<times> ksys \<Rightarrow> (mem \<times> ksys) res" where
  "user_printf at buffer format args st = out_printf (trap_putc at) buffer format args st"

definition user_snprintf :: "u64 \<Rightarrow> u64 \<Rightarrow> u64 \<Rightarrow> u64 \<Rightarrow> string \<Rightarrow> u64 list \<Rightarrow> mem \<times> ksys \<Rightarrow> (mem \<times> ksys) res" where
  "user_snprintf at temp buffer n format args st = out_vsnprintf (trap_putc at) temp buffer n (bytes_of format) args st"

section \<open>Numbers\<close>

lemma copy_digits_text: "i \<le> length temp \<Longrightarrow> copy_digits buffer temp i j m = store_text buffer j (rev (take i temp)) m"
  by (induction i arbitrary: j m) (simp_all add: take_Suc_conv_app_nth)

text \<open>The array-level \<open>utoa\<close> leaves in memory the text that the \<open>utoa\<close> of \<open>klib\<close>'s model returns.\<close>

lemma utoa_into_text: "utoa_into v buffer base m = bind_res (utoa v base) (\<lambda>w. Inr (store_text buffer 0 w m))"
  by (cases "utoa_digits v (scast base) []")
    (auto simp: utoa_into_def utoa_def copy_digits_text One_nat_def [symmetric] simp del: One_nat_def)

lemma numeral_text:
  assumes "5 \<le> unat base" "unat base \<le> 16"
  obtains w where "utoa v base = Inr w" "cstr (store_text b 0 w m) b w" "length w \<le> 31" "w \<noteq> []"
    "\<And>z. z \<notin> span b 32 \<Longrightarrow> store_text b 0 w m z = m z"
proof -
  let ?w = "numeral_of (unat base) (unat v)"
  have len: "length ?w \<le> 31" using numeral_of_length assms(1) by blast
  have "d < 16 \<Longrightarrow> digit_chars ! d \<noteq> 0" for d by (drule less_16_cases) (auto simp: digit_chars_def)
  then have "0 \<notin> set ?w" using assms(2) by (auto simp: numeral_of_def dest!: nat_digits_bound)
  then have "cstr (store_text b 0 ?w m) b ?w" using store_text_cstr [of ?w 0 b m] len by simp
  moreover have "store_text b 0 ?w m z = m z" if "z \<notin> span b 32" for z
    using that len by (intro store_text_other) (auto simp: span_def unat_of_nat_64)
  ultimately show thesis
    using that [OF utoa_numeral [OF assms]] len hd_numeral_of [of "unat base" "unat v"] assms(1) by simp
qed

section \<open>Arguments that are strings\<close>

text \<open>The pointers that a format takes with \<open>%s\<close>.\<close>

fun string_args :: "u8 list \<Rightarrow> u64 list \<Rightarrow> u64 list" where
  "string_args [] args = []"
| "string_args (c # fmt) args =
     (if c = byte_of CHR ''%'' then
        (case fmt of
           [] \<Rightarrow> []
         | f # fmt' \<Rightarrow>
             if f \<in> set (bytes_of ''dxusc'') then
               (case args of
                  [] \<Rightarrow> []
                | a # args \<Rightarrow> (if f = byte_of CHR ''s'' then [a] else []) @ string_args fmt' args)
             else string_args fmt' args)
      else string_args fmt args)"

text \<open>A string that the array at \<open>b\<close> does not overlap, and memories that differ at most in the array.\<close>

definition text_apart :: "mem \<Rightarrow> u64 \<Rightarrow> u64 \<Rightarrow> bool" where
  "text_apart m b a \<longleftrightarrow> (\<exists>w. cstr m a w \<and> span a (Suc (length w)) \<inter> span b 32 = {})"

definition same_outside :: "u64 \<Rightarrow> mem \<Rightarrow> mem \<Rightarrow> bool" where
  "same_outside b m m' \<longleftrightarrow> (\<forall>z. z \<notin> span b 32 \<longrightarrow> m' z = m z)"

lemma text_kept: "cstr m a w \<Longrightarrow> span a (Suc (length w)) \<inter> span b 32 = {} \<Longrightarrow> same_outside b m m' \<Longrightarrow> cstr m' a w"
proof -
  assume A: "cstr m a w" "span a (Suc (length w)) \<inter> span b 32 = {}" "same_outside b m m'"
  have "cstr m' a w = cstr m a w"
  proof (rule cstr_cong)
    fix z assume "z \<in> span a (Suc (length w))"
    with A(2) have "z \<notin> span b 32" by blast
    with A(3) show "m' z = m z" by (simp add: same_outside_def)
  qed
  with A(1) show ?thesis by simp
qed

lemma printf_conv_args:
  assumes "printf_conv m f args con = Inr (con', args')"
  shows "string_args (byte_of CHR ''%'' # f # fmt) args = (if f = byte_of CHR ''s'' then [hd args] else []) @ string_args fmt args'"
    and "f = byte_of CHR ''s'' \<Longrightarrow> args \<noteq> []"
proof -
  have "args' = (if f \<in> set (bytes_of ''dxusc'') then tl args else args) \<and> (f \<in> set (bytes_of ''dxusc'') \<longrightarrow> args \<noteq> [])"
    using assms by (cases args) (auto simp: printf_conv_def bind_res_Inr_iff Let_def split: if_splits)
  then show "string_args (byte_of CHR ''%'' # f # fmt) args = (if f = byte_of CHR ''s'' then [hd args] else []) @ string_args fmt args'"
    and "f = byte_of CHR ''s'' \<Longrightarrow> args \<noteq> []"
    by (cases args; auto)+
qed

section \<open>The interface of a console\<close>

text \<open>
  A \<open>putc\<close> that, in every state that is \<open>ready\<close>, sends its byte and leaves a state that is ready again. \<open>shown\<close> is what
  the console has received.
\<close>

locale console_port =
  fixes send :: "u8 \<Rightarrow> 's \<Rightarrow> 's res"
    and ready :: "'s \<Rightarrow> bool"
    and shown :: "'s \<Rightarrow> u8 list"
  assumes sends: "ready s \<Longrightarrow> \<exists>s'. send c s = Inr s' \<and> ready s' \<and> shown s' = shown s @ [c]"
begin

lemma puts_text: "cstr m p w \<Longrightarrow> ready s \<Longrightarrow> \<exists>s'. out_puts send m p s = Some (Inr s') \<and> ready s' \<and> shown s' = shown s @ w"
proof (induction w arbitrary: p s)
  case Nil
  then show ?case by (subst out_puts.simps) simp
next
  case (Cons c w)
  obtain s1 where s1: "send c s = Inr s1" "ready s1" "shown s1 = shown s @ [c]" using sends [OF Cons.prems(2)] by blast
  obtain s2 where "out_puts send m (p + 1) s1 = Some (Inr s2)" "ready s2" "shown s2 = shown s1 @ w"
    using Cons.IH [of "p + 1" s1] Cons.prems(1) s1(2) by auto
  with s1 Cons.prems(1) show ?case by (subst out_puts.simps) simp
qed

text \<open>A number, printed through the array at \<open>b\<close>.\<close>

lemma number_text:
  assumes "ready s" "5 \<le> unat base" "unat base \<le> 16"
  obtains w m' s' where "utoa v base = Inr w" "out_number send b v base (m, s) = Inr (m', s')" "ready s'" "shown s' = shown s @ w"
    "same_outside b m m'"
proof -
  obtain w where w: "utoa v base = Inr w" "cstr (store_text b 0 w m) b w" "\<And>z. z \<notin> span b 32 \<Longrightarrow> store_text b 0 w m z = m z"
    using numeral_text [OF assms(2,3), of v b m] by metis
  obtain s' where "out_puts send (store_text b 0 w m) b s = Some (Inr s')" "ready s'" "shown s' = shown s @ w"
    using puts_text [OF w(2) assms(1)] by blast
  then show thesis using that [of w "store_text b 0 w m" s'] w by (simp add: out_number_def utoa_into_text may_hang_def same_outside_def)
qed

text \<open>One conversion, and a whole format. \<open>prints b m r x\<close>: the outcome \<open>r\<close> on this port is the outcome \<open>x\<close> of \<open>klib\<close>'s function.\<close>

definition prints :: "u64 \<Rightarrow> mem \<Rightarrow> (mem \<times> 's) res \<Rightarrow> console res \<Rightarrow> bool" where
  "prints b m r x \<longleftrightarrow>
     (case x of Inl e \<Rightarrow> r = Inl e | Inr con \<Rightarrow> \<exists>m' s. r = Inr (m', s) \<and> ready s \<and> shown s = con \<and> same_outside b m m')"

text \<open>One conversion: the outcome \<open>r\<close> on this port for the outcome \<open>x\<close> of \<open>klib\<close>'s model.\<close>

definition converts :: "u64 \<Rightarrow> mem \<Rightarrow> ((mem \<times> 's) \<times> u64 list) res \<Rightarrow> (console \<times> u64 list) res \<Rightarrow> bool" where
  "converts b m r x \<longleftrightarrow>
     (case x of Inl e \<Rightarrow> r = Inl e | Inr (con, args) \<Rightarrow> \<exists>m' s. r = Inr ((m', s), args) \<and> ready s \<and> shown s = con \<and> same_outside b m m')"

lemma convertsI:
  "ready s' \<Longrightarrow> shown s' = con \<Longrightarrow> same_outside b m m' \<Longrightarrow> r = Inr ((m', s'), args) \<Longrightarrow> x = Inr (con, args) \<Longrightarrow> converts b m r x"
  by (auto simp: converts_def)

lemma conv_unknown:
  assumes "ready s" "f \<notin> set (bytes_of ''dxusc'')"
  shows "converts b m (out_conv send b f args (m, s)) (printf_conv m' f args (shown s))"
proof -
  obtain s1 where s1: "send (byte_of CHR ''%'') s = Inr s1" "ready s1" "shown s1 = shown s @ [byte_of CHR ''%'']"
    using sends [OF assms(1)] by blast
  obtain s2 where s2: "send f s1 = Inr s2" "ready s2" "shown s2 = shown s1 @ [f]" using sends [OF s1(2)] by blast
  from assms(2) have f: "f \<noteq> byte_of CHR ''d''" "f \<noteq> byte_of CHR ''x''" "f \<noteq> byte_of CHR ''u''" "f \<noteq> byte_of CHR ''s''" "f \<noteq> byte_of CHR ''c''"
    by auto
  show ?thesis
    by (rule convertsI [OF s2(2)]) (use s1 s2 f in \<open>auto simp: same_outside_def printf_conv_def out_conv_def putc_def simp del: of_char_Char\<close>)
qed

lemma conv_decimal:
  assumes "ready s"
  shows "converts b m (out_conv send b (byte_of CHR ''d'') (a # args) (m, s)) (printf_conv m' (byte_of CHR ''d'') (a # args) (shown s))"
proof -
  define v where "v = (ucast a :: u32)"
  define u where "u = (scast (if sint v < 0 then - v else v) :: u64)"
  obtain s1 where s1: "(if sint v < 0 then send (byte_of CHR ''-'') s else Inr s) = Inr s1" "ready s1"
    "shown s1 = (if sint v < 0 then putc (byte_of CHR ''-'') (shown s) else shown s)"
    using sends [OF assms, of "byte_of CHR ''-''"] assms by (cases "sint v < 0") (auto simp: putc_def)
  obtain w m1 s' where n: "utoa u 10 = Inr w" "out_number send b u 10 (m, s1) = Inr (m1, s')"
    "ready s'" "shown s' = shown s1 @ w" "same_outside b m m1"
    by (rule number_text [OF s1(2), of 10 u b m]) auto
  show ?thesis
    by (rule convertsI [OF n(3) n(4) n(5)])
      (simp_all only: printf_conv_def out_conv_def if_P [OF refl] va_arg.simps bind_res_simps prod.case Let_def v_def [symmetric] u_def [symmetric]
        s1(1,3) n(1,2) put_all_append)
qed

lemma conv_number:
  assumes "ready s" "f = byte_of CHR ''x'' \<or> f = byte_of CHR ''u''"
  shows "converts b m (out_conv send b f (a # args) (m, s)) (printf_conv m' f (a # args) (shown s))"
proof -
  define v where "v = (if f = byte_of CHR ''x'' then a else scast (ucast a :: u32))"
  define base where "base = (if f = byte_of CHR ''x'' then 16 else 10 :: u32)"
  obtain w m1 s' where n: "utoa v base = Inr w" "out_number send b v base (m, s) = Inr (m1, s')" "ready s'" "shown s' = shown s @ w" "same_outside b m m1"
    by (rule number_text [OF assms(1), of base v b m]) (auto simp: base_def)
  show ?thesis
    by (rule convertsI [OF n(3) n(4) n(5)]) (use assms(2) n(1,2) in \<open>auto simp: printf_conv_def out_conv_def v_def base_def\<close>)
qed

lemma conv_string:
  assumes "ready s" "same_outside b m0 m" "text_apart m0 b a"
  shows "converts b m (out_conv send b (byte_of CHR ''s'') (a # args) (m, s)) (printf_conv m0 (byte_of CHR ''s'') (a # args) (shown s))"
proof -
  obtain w where w: "cstr m0 a w" "span a (Suc (length w)) \<inter> span b 32 = {}" using assms(3) by (auto simp: text_apart_def)
  obtain s' where s': "out_puts send m a s = Some (Inr s')" "ready s'" "shown s' = shown s @ w"
    using puts_text [OF text_kept [OF w assms(2)] assms(1)] by blast
  show ?thesis
    by (rule convertsI [OF s'(2,3)]) (use s'(1) puts_cstr [OF w(1)] in \<open>simp_all add: same_outside_def printf_conv_def out_conv_def may_hang_def\<close>)
qed

lemma conv_char:
  assumes "ready s"
  shows "converts b m (out_conv send b (byte_of CHR ''c'') (a # args) (m, s)) (printf_conv m' (byte_of CHR ''c'') (a # args) (shown s))"
proof -
  obtain s' where s': "send (ucast a) s = Inr s'" "ready s'" "shown s' = shown s @ [ucast a]" using sends [OF assms] by blast
  show ?thesis
    by (rule convertsI [OF s'(2,3)]) (use s'(1) in \<open>simp_all add: same_outside_def printf_conv_def out_conv_def putc_def\<close>)
qed

lemma conv_text:
  assumes "ready s" "same_outside b m0 m" "f = byte_of CHR ''s'' \<Longrightarrow> args \<noteq> [] \<Longrightarrow> text_apart m0 b (hd args)"
  shows "converts b m (out_conv send b f args (m, s)) (printf_conv m0 f args (shown s))"
proof (cases "f \<in> set (bytes_of ''dxusc'')")
  case True
  show ?thesis
  proof (cases args)
    case Nil
    have "printf_conv m0 f [] c = Inl MissingArg" "out_conv send b f [] (m, s) = Inl MissingArg" for c
      using True by (auto simp: printf_conv_def out_conv_def)
    with Nil show ?thesis by (simp add: converts_def)
  next
    case (Cons a args)
    from True consider "f = byte_of CHR ''d''" | "f = byte_of CHR ''x'' \<or> f = byte_of CHR ''u''" | "f = byte_of CHR ''s''" | "f = byte_of CHR ''c''"
      by auto
    then show ?thesis
      unfolding Cons using conv_decimal conv_number conv_string conv_char assms Cons by cases (simp_all only: list.sel simp_thms list.distinct)
  qed
qed (rule conv_unknown [OF assms(1)])

text \<open>A whole format.\<close>

lemma plain_step:
  assumes "ready s" "c \<noteq> byte_of CHR ''%''"
  shows "\<exists>s'. ready s' \<and> shown s' = putc c (if c = 10 then putc 13 (shown s) else shown s) \<and>
    out_vprintf send b (c # fmt) args (m, s) = out_vprintf send b fmt args (m, s')"
proof -
  obtain s1 where s1: "(if c = 10 then send 13 s else Inr s) = Inr s1" "ready s1" "shown s1 = (if c = 10 then putc 13 (shown s) else shown s)"
    using sends [OF assms(1), of 13] assms(1) by (cases "c = 10") (auto simp: putc_def)
  obtain s2 where "send c s1 = Inr s2" "ready s2" "shown s2 = putc c (shown s1)" using sends [OF s1(2)] by (auto simp: putc_def)
  then show ?thesis using s1 assms(2) by (intro exI [of _ s2]) simp
qed

text \<open>A conversion and the rest of the format, which prints as the model of \<open>klib\<close> says from any state the conversion may leave.\<close>

lemma conv_step:
  assumes start: "ready s" "same_outside b m0 m" and args: "\<forall>a \<in> set (string_args (byte_of CHR ''%'' # f # fmt) args). text_apart m0 b a"
    and rest: "\<And>args' m' s'. ready s' \<Longrightarrow> same_outside b m0 m' \<Longrightarrow> \<forall>a \<in> set (string_args fmt args'). text_apart m0 b a \<Longrightarrow>
      prints b m0 (out_vprintf send b fmt args' (m', s')) (vprintf m0 fmt args' (shown s'))"
  shows "prints b m0 (out_vprintf send b (byte_of CHR ''%'' # f # fmt) args (m, s)) (vprintf m0 (byte_of CHR ''%'' # f # fmt) args (shown s))"
proof -
  have "text_apart m0 b (hd args)" if "f = byte_of CHR ''s''" "args \<noteq> []" using that args by (cases args) auto
  then have C: "converts b m (out_conv send b f args (m, s)) (printf_conv m0 f args (shown s))" using start by (intro conv_text) auto
  show ?thesis
  proof (cases "printf_conv m0 f args (shown s)")
    case (Inl e)
    then show ?thesis using C unfolding vprintf_conv by (simp add: converts_def prints_def)
  next
    case (Inr x)
    obtain con args' where x: "x = (con, args')" by (cases x)
    obtain m' s' where s': "out_conv send b f args (m, s) = Inr ((m', s'), args')" "ready s'" "shown s' = con" "same_outside b m m'"
      using C Inr x by (auto simp: converts_def)
    have "\<forall>a \<in> set (string_args fmt args'). text_apart m0 b a"
      using args printf_conv_args(1) [OF Inr [unfolded x], of fmt] by simp
    moreover have "same_outside b m0 m'" using s'(4) start(2) by (simp add: same_outside_def)
    ultimately show ?thesis using rest [OF s'(2)] s' Inr x unfolding vprintf_conv by simp
  qed
qed

lemma vprintf_text:
  "ready s \<Longrightarrow> same_outside b m0 m \<Longrightarrow> \<forall>a \<in> set (string_args fmt args). text_apart m0 b a \<Longrightarrow>
    prints b m0 (out_vprintf send b fmt args (m, s)) (vprintf m0 fmt args (shown s))"
proof (induction fmt arbitrary: args m s rule: length_induct)
  case (1 fmt)
  show ?case
  proof (cases fmt)
    case Nil
    then show ?thesis using "1.prems" by (simp add: prints_def)
  next
    case (Cons c fmt1)
    show ?thesis
    proof (cases "c = byte_of CHR ''%''")
      case False
      obtain s' where s': "ready s'" "shown s' = putc c (if c = 10 then putc 13 (shown s) else shown s)"
        "out_vprintf send b (c # fmt1) args (m, s) = out_vprintf send b fmt1 args (m, s')"
        using plain_step [OF "1.prems"(1) False] by blast
      have "\<forall>a \<in> set (string_args fmt1 args). text_apart m0 b a" using "1.prems"(3) Cons False by simp
      then have "prints b m0 (out_vprintf send b fmt1 args (m, s')) (vprintf m0 fmt1 args (shown s'))"
        using "1.IH" "1.prems"(2) s'(1) Cons by simp
      then show ?thesis using False s'(3) unfolding Cons by (simp add: s'(2) Let_def)
    next
      case pct: True
      show ?thesis
      proof (cases fmt1)
        case Nil
        then show ?thesis using pct Cons by (simp add: prints_def)
      next
        case (Cons f fmt2)
        have fmt: "fmt = byte_of CHR ''%'' # f # fmt2" using pct \<open>fmt = c # fmt1\<close> Cons by simp
        show ?thesis unfolding fmt
          by (rule conv_step [OF "1.prems"(1,2) "1.prems"(3) [unfolded fmt]]) (use "1.IH" fmt in simp)
      qed
    qed
  qed
qed

end

text \<open>\<open>putc\<close> of \<open>klib\<close>'s model is such a port.\<close>

interpretation klib_console: console_port "\<lambda>c con. Inr (putc c con)" "\<lambda>_. True" "\<lambda>con. con"
  by unfold_locales (simp add: putc_def)

end
