(* ===== verification/User_Stdio_Props.thy ===== *)
theory User_Stdio_Props
  imports User_Props User_Stdio
begin

text \<open>
  The formatted output of user programs, down to the console. \<open>putc\<close> of the user library is a console port, so \<open>printf\<close> of
  the user library sends what the model of \<open>klib\<close>'s \<open>printf\<close> says.
\<close>

text \<open>What a run of \<open>putc\<close> calls leaves of the state \<open>s0\<close> it started in.\<close>

definition kept_by_calls :: "ksys \<Rightarrow> ksys \<Rightarrow> bool" where
  "kept_by_calls s0 s \<longleftrightarrow> procs s = procs s0 \<and> current_proc s = current_proc s0 \<and> idle_proc s = idle_proc s0 \<and> sscratch (hart s) = sscratch (hart s0) \<and>
     satp (hart s) = satp (hart s0) \<and> (\<forall>r. r \<notin> {A0, A1, A2, A3} \<longrightarrow> regs (hart s) r = regs (hart s0) r) \<and>
     (\<forall>z. z \<notin> span (sscratch (hart s0) - 248) 248 \<longrightarrow> kmem (lib s) z = kmem (lib s0) z)"

lemma trap_putc_sends:
  assumes "kept_by_calls s0 s"
  shows "\<exists>s'. trap_putc at c s = Inr s' \<and> kept_by_calls s0 s' \<and> console (lib s') = console (lib s) @ [c]"
proof -
  let ?s = "ecall at (ucast SYS_PUTC) (ucast c) 0 0 s"
  have "\<exists>s'. kernel_trap [] ?s = Inr (Done [] s') \<and>
      returned ?s (regs (hart ?s)) (console (lib ?s) @ [ucast (scast (ucast c :: u32) :: u64)]) s'"
    using putc_trap [of ?s "[]"] by (simp add: ecall_fields call_numbers)
  moreover have "satp (hart ?s) = satp (hart s)" by (simp add: ecall_def)
  ultimately show ?thesis
    using assms by (auto simp: trap_putc_def user_putc_def syscall_def returned_def ecall_fields ucast_scast_byte kept_by_calls_def)
qed

interpretation user_console: console_port "trap_putc at" "kept_by_calls s0" "\<lambda>s. console (lib s)" for at s0
  by unfold_locales (rule trap_putc_sends)

text \<open>
  (C31) \<open>printf\<close> of the user library refines that of \<open>klib\<close>. Every byte goes through a system call, and numbers through an array in the
  memory of the process; when the strings that \<open>%s\<close> takes are terminated and outside that array, the call fails exactly when the model of
  \<open>klib\<close>'s \<open>printf\<close> does, with the same fault, and otherwise the console has received the same bytes in the same order. The process keeps its
  stack pointer and callee-saved registers, its address space and its memory outside the array; kernel memory changes in the trap frame only.
\<close>

theorem user_printf_prints:
  assumes "\<forall>a \<in> set (string_args (bytes_of format) args). \<exists>w. cstr m a w \<and> span a (Suc (length w)) \<inter> span buffer 32 = {}"
  shows "case printf m format args (console (lib s)) of
      Inl e \<Rightarrow> user_printf at buffer format args (m, s) = Inl e
    | Inr con \<Rightarrow> \<exists>m' s'. user_printf at buffer format args (m, s) = Inr (m', s') \<and> console (lib s') = con \<and>
        (\<forall>z. z \<notin> span buffer 32 \<longrightarrow> m' z = m z) \<and> procs s' = procs s \<and> satp (hart s') = satp (hart s) \<and>
        (\<forall>r. r \<notin> {A0, A1, A2, A3} \<longrightarrow> regs (hart s') r = regs (hart s) r) \<and>
        (\<forall>z. z \<notin> span (sscratch (hart s) - 248) 248 \<longrightarrow> kmem (lib s') z = kmem (lib s) z)"
proof -
  have "kept_by_calls s s" "same_outside buffer m m" by (simp_all add: kept_by_calls_def same_outside_def)
  moreover have "\<forall>a \<in> set (string_args (bytes_of format) args). text_apart m buffer a" using assms by (simp add: text_apart_def)
  ultimately have "user_console.prints s buffer m (out_vprintf (trap_putc at) buffer (bytes_of format) args (m, s))
      (vprintf m (bytes_of format) args (console (lib s)))"
    by (rule user_console.vprintf_text)
  then show ?thesis
    unfolding user_console.prints_def printf_def user_printf_def out_printf_def
    by (auto simp: kept_by_calls_def same_outside_def split: sum.splits)
qed

theorem user_printf_prints_witness:
  "\<exists>m' s'. user_printf 0x1000040 0x1009f00 (''%s is %d'' @ [CHR 0x0A]) [0x1001000, 0xFFFFFFD6] (shell_mem, three_sys) = Inr (m', s') \<and>
     console (lib s') = console (lib three_sys) @ bytes_of ''hello is -42'' @ [13, 10]"
proof -
  let ?f = "''%s is %d'' @ [CHR 0x0A]" and ?args = "[0x1001000, 0xFFFFFFD6] :: u64 list"
  have hello: "cstr shell_mem 0x1001000 (bytes_of ''hello'')" by (simp add: shell_mem_def)
  have apart: "span 0x1001000 (Suc (length (bytes_of ''hello''))) \<inter> span 0x1009f00 32 = {}" by (rule span_disjoint) simp_all
  have args: "string_args (bytes_of ?f) ?args = [0x1001000]" by simp
  have H: "\<forall>a \<in> set (string_args (bytes_of ?f) ?args). \<exists>w. cstr shell_mem a w \<and> span a (Suc (length w)) \<inter> span 0x1009f00 32 = {}"
    unfolding args using hello apart by (simp only: list.set ball_simps) blast
  have num: "numeral_of 10 42 = [52, 50]" by (simp add: numeral_of_def nat_digits.simps digit_chars_def)
  have v: "ucast (0xFFFFFFD6 :: u64) = (- 42 :: u32)" "sint (- 42 :: u32) = - 42" by simp_all
  have d: "printf_conv shell_mem (byte_of CHR ''d'') [0xFFFFFFD6] con = Inr (con @ [45, 52, 50], [])" for con
    using printf_d [of "0xFFFFFFD6" shell_mem "[]" con] by (simp add: v int_numeral_def num)
  have fmt: "bytes_of ?f = byte_of CHR ''%'' # byte_of CHR ''s'' # bytes_of '' is '' @ byte_of CHR ''%'' # byte_of CHR ''d'' # [10]" by simp
  have pct: "byte_of CHR ''%'' \<notin> set (bytes_of '' is '')" by simp
  have run: "printf shell_mem ?f ?args con = Inr (con @ bytes_of ''hello is -42'' @ [13, 10])" for con
    unfolding printf_def fmt vprintf_conv printf_s [OF hello] bind_res_simps prod.case vprintf_literal [OF pct] d
    by (simp add: putc_def crlf_def)
  from user_printf_prints [OF H, of "0x1000040" three_sys] show ?thesis unfolding run by auto
qed

end
