(* ===== verification/User_Snprintf.thy ===== *)
theory User_Snprintf
  imports User_Stdio_Props
begin

text \<open>
  \<open>snprintf\<close> of the user library against that of \<open>klib\<close>. The model of \<open>klib\<close>'s takes the text of a number as a list; this one
  writes it to the array \<open>temp_buffer\<close>, copies its first character and measures it there with \<open>strlen\<close>. The two leave the same buffer, as
  long as neither the array nor a string argument lies where the buffer may be written.
\<close>

section \<open>The area of the buffer\<close>

text \<open>The index is a 32-bit integer, so these are the bytes that \<open>buffer[bufferIdx]\<close> can be.\<close>

definition buffer_area :: "u64 \<Rightarrow> u64 set" where
  "buffer_area buffer = range (\<lambda>i :: u32. buffer + ucast i)"

definition same_beyond :: "u64 \<Rightarrow> mem \<Rightarrow> mem \<Rightarrow> bool" where
  "same_beyond buffer m m' \<longleftrightarrow> (\<forall>z. z \<notin> buffer_area buffer \<longrightarrow> m' z = m z)"

definition text_safe :: "mem \<Rightarrow> u64 \<Rightarrow> u64 \<Rightarrow> u64 \<Rightarrow> bool" where
  "text_safe m temp buffer a \<longleftrightarrow>
     (\<exists>w. cstr m a w \<and> span a (Suc (length w)) \<inter> span temp 32 = {} \<and> span a (Suc (length w)) \<inter> buffer_area buffer = {})"

lemma buf_put_same: "same_outside temp m m' \<Longrightarrow> same_outside temp (buf_put buffer idx c m) (buf_put buffer idx c m')"
  by (simp add: same_outside_def buf_put_def)

lemma buf_put_beyond: "same_beyond buffer m0 m \<Longrightarrow> same_beyond buffer m0 (buf_put buffer idx c m)"
  by (auto simp: same_beyond_def buf_put_def buffer_area_def)

lemmas buf_put_keeps = buf_put_same buf_put_beyond

lemma cstr_put:
  assumes "cstr m a w" "span a (Suc (length w)) \<inter> buffer_area buffer = {}"
  shows "cstr (buf_put buffer idx c m) a w"
proof -
  have "cstr (buf_put buffer idx c m) a w = cstr m a w"
    by (rule cstr_cong) (use assms(2) in \<open>auto simp: buf_put_def buffer_area_def\<close>)
  then show ?thesis using assms(1) by simp
qed

text \<open>A number: what \<open>utoa\<close>, the copied character and \<open>strlen\<close> do together.\<close>

lemma snprintf_number_stores:
  assumes apart: "span temp 32 \<inter> buffer_area buffer = {}" and base: "5 \<le> unat base" "unat base \<le> 16" and m: "same_outside temp m m'"
  obtains w m'' where "utoa v base = Inr w" "snprintf_number temp buffer v base (m', idx, s) = Inr (m'', idx + of_nat (length w), s)"
    "same_outside temp (buf_put buffer idx (hd w) m) m''"
proof -
  obtain w where w: "utoa v base = Inr w" "cstr (store_text temp 0 w m') temp w" "length w \<le> 31" "w \<noteq> []"
    "\<And>z. z \<notin> span temp 32 \<Longrightarrow> store_text temp 0 w m' z = m' z"
    using numeral_text [OF base, of v temp m'] by metis
  let ?m = "store_text temp 0 w m'"
  have hd: "?m temp = hd w" using w(2,4) by (cases w) auto
  have "span temp (Suc (length w)) \<inter> buffer_area buffer = {}"
    using apart span_mono [of "Suc (length w)" 32 temp] w(3) by auto
  then have "strlen (buf_put buffer idx (hd w) ?m) temp = Some (of_nat (length w))" by (intro strlen_cstr cstr_put [OF w(2)])
  then have "snprintf_number temp buffer v base (m', idx, s) = Inr (buf_put buffer idx (hd w) ?m, idx + of_nat (length w), s)"
    using w(1) hd by (simp add: snprintf_number_def utoa_into_text)
  moreover have "same_outside temp m ?m" using w(5) m by (simp add: same_outside_def)
  ultimately show thesis using that [OF w(1)] buf_put_same by blast
qed

lemma text_safe_len:
  assumes "text_safe m0 temp buffer a" "same_beyond buffer m0 m" "same_outside temp m m'"
  obtains n where "m' a = m a" "\<And>idx. strlen (buf_put buffer idx c m) a = Some n" "\<And>idx. strlen (buf_put buffer idx c m') a = Some n"
proof -
  obtain w where w: "cstr m0 a w" "span a (Suc (length w)) \<inter> span temp 32 = {}" "span a (Suc (length w)) \<inter> buffer_area buffer = {}"
    using assms(1) by (auto simp: text_safe_def)
  have "cstr m a w = cstr m0 a w" by (rule cstr_cong) (use w(3) assms(2) in \<open>auto simp: same_beyond_def\<close>)
  then have m: "cstr m a w" using w(1) by simp
  have m': "cstr m' a w" by (rule text_kept [OF m w(2) assms(3)])
  have "m' a = m a" using m m' by (cases w) auto
  then show thesis using that strlen_cstr [OF cstr_put [OF m w(3)]] strlen_cstr [OF cstr_put [OF m' w(3)]] by blast
qed

lemma snprintf_conv_args:
  assumes "snprintf_conv buffer f args st = Inr (st', args')"
  shows "string_args (byte_of CHR ''%'' # f # fmt) args = (if f = byte_of CHR ''s'' then [hd args] else []) @ string_args fmt args'"
proof -
  obtain m idx con where "st = (m, idx, con)" by (cases st)
  then have "args' = (if f \<in> set (bytes_of ''dxusc'') then tl args else args) \<and> (f \<in> set (bytes_of ''dxusc'') \<longrightarrow> args \<noteq> [])"
    using assms by (cases args) (auto simp: snprintf_conv_def bind_res_Inr_iff Let_def split: if_splits)
  then show ?thesis by (cases args) auto
qed

section \<open>The loop\<close>

context console_port
begin

text \<open>The outcome \<open>r\<close> on this port for the outcome \<open>x\<close> of \<open>klib\<close>'s model, started in memory \<open>m0\<close>.\<close>

definition stores :: "u64 \<Rightarrow> u64 \<Rightarrow> mem \<Rightarrow> ((mem \<times> u32 \<times> 's) \<times> u64 list) res \<Rightarrow> ((mem \<times> u32 \<times> console) \<times> u64 list) res \<Rightarrow> bool" where
  "stores temp buffer m0 r x \<longleftrightarrow> (case x of Inl e \<Rightarrow> r = Inl e
     | Inr ((m, idx, con), args) \<Rightarrow> \<exists>m' s. r = Inr ((m', idx, s), args) \<and> ready s \<and> shown s = con \<and> same_outside temp m m' \<and> same_beyond buffer m0 m)"

lemma storesI:
  "x = Inr ((m, idx, shown s), args) \<Longrightarrow> r = Inr ((m', idx, s), args) \<Longrightarrow> ready s \<Longrightarrow> same_outside temp m m' \<Longrightarrow> same_beyond buffer m0 m \<Longrightarrow>
    stores temp buffer m0 r x"
  by (auto simp: stores_def)

text \<open>The three number conversions: \<open>v\<close> printed in \<open>base\<close> from memory \<open>m\<close>, \<open>m'\<close> and index \<open>idx\<close>.\<close>

lemma number_stores:
  assumes apart: "span temp 32 \<inter> buffer_area buffer = {}" and rel: "ready s" "same_outside temp m m'" "same_beyond buffer m0 m"
    and base: "5 \<le> unat base" "unat base \<le> 16"
    and conv: "\<And>w. utoa v base = Inr w \<Longrightarrow> x = Inr ((buf_put buffer idx (hd w) m, idx + of_nat (length w), shown s), args)"
    and out: "\<And>m'' i. snprintf_number temp buffer v base (m', idx, s) = Inr (m'', i, s) \<Longrightarrow> r = Inr ((m'', i, s), args)"
  shows "stores temp buffer m0 r x"
proof -
  obtain w m'' where w: "utoa v base = Inr w" "snprintf_number temp buffer v base (m', idx, s) = Inr (m'', idx + of_nat (length w), s)"
    "same_outside temp (buf_put buffer idx (hd w) m) m''"
    by (rule snprintf_number_stores [OF apart base rel(2)])
  show ?thesis by (rule storesI [OF conv [OF w(1)] out [OF w(2)] rel(1) w(3) buf_put_beyond [OF rel(3)]])
qed

text \<open>A character that is no conversion goes to the console and to the buffer, with its \<open>%\<close>.\<close>

lemma unknown_stores:
  assumes rel: "ready s" "same_outside temp m m'" "same_beyond buffer m0 m" and unknown: "f \<notin> set (bytes_of ''dxusc'')"
  shows "stores temp buffer m0 (out_snprintf_conv send temp buffer f args (m', idx, s)) (snprintf_conv buffer f args (m, idx, shown s))"
proof -
  have f: "f \<noteq> byte_of CHR ''d''" "f \<noteq> byte_of CHR ''x''" "f \<noteq> byte_of CHR ''u''" "f \<noteq> byte_of CHR ''s''" "f \<noteq> byte_of CHR ''c''"
    using unknown by auto
  obtain s1 where s1: "send (byte_of CHR ''%'') s = Inr s1" "ready s1" "shown s1 = putc (byte_of CHR ''%'') (shown s)"
    using sends [OF rel(1)] by (auto simp: putc_def)
  obtain s2 where s2: "send f s1 = Inr s2" "ready s2" "shown s2 = putc f (shown s1)" using sends [OF s1(2)] by (auto simp: putc_def)
  show ?thesis
    by (rule storesI [OF _ _ s2(2) buf_put_same [OF buf_put_same [OF rel(2)]] buf_put_beyond [OF buf_put_beyond [OF rel(3)]]])
      (use f s1 s2 in \<open>simp_all add: snprintf_conv_def out_snprintf_conv_def del: of_char_Char\<close>)
qed

lemma snprintf_conv_stores:
  assumes apart: "span temp 32 \<inter> buffer_area buffer = {}" and rel: "ready s" "same_outside temp m m'" "same_beyond buffer m0 m"
    and arg: "f = byte_of CHR ''s'' \<Longrightarrow> args \<noteq> [] \<Longrightarrow> text_safe m0 temp buffer (hd args)"
  shows "stores temp buffer m0 (out_snprintf_conv send temp buffer f args (m', idx, s)) (snprintf_conv buffer f args (m, idx, shown s))"
proof -
  note num = number_stores [OF apart rel(1)]
  consider (unknown) "f \<notin> set (bytes_of ''dxusc'')" | (missing) "f \<in> set (bytes_of ''dxusc'')" "args = []"
    | (some) a rest where "f \<in> set (bytes_of ''dxusc'')" "args = a # rest" by (cases args) auto
  then show ?thesis
  proof cases
    case (some a rest)
    then consider (d) "f = byte_of CHR ''d''" | (x) "f = byte_of CHR ''x''" | (u) "f = byte_of CHR ''u''"
      | (s) "f = byte_of CHR ''s''" | (c) "f = byte_of CHR ''c''" by auto
    then show ?thesis
    proof cases
      case d
      define v where "v = (ucast a :: u32)"
      define p where "p = (\<lambda>m. if sint v < 0 then buf_put buffer idx (byte_of CHR ''-'') m else m)"
      have pe: "(if sint v < 0 then buf_put buffer idx (byte_of CHR ''-'') m else m) = p m" for m by (simp add: p_def)
      have pm: "same_outside temp (p m) (p m')" "same_beyond buffer m0 (p m)" using rel by (simp_all add: p_def buf_put_keeps)
      show ?thesis
        by (rule num [OF pm, of 10 "scast (if sint v < 0 then - v else v)" _ "if sint v < 0 then idx + 1 else idx"])
          (simp_all only: some(2) d snprintf_conv_def out_snprintf_conv_def if_P [OF refl] va_arg.simps bind_res_simps prod.case Let_def
            v_def [symmetric] pe, simp_all)
    next
      case x
      show ?thesis by (rule num [OF rel(2,3), of 16 "ucast (ucast a :: u32)" _ idx])
          (simp_all add: some(2) x snprintf_conv_def out_snprintf_conv_def)
    next
      case u
      show ?thesis by (rule num [OF rel(2,3), of 10 "scast (ucast a :: u32)" _ idx])
          (simp_all add: some(2) u snprintf_conv_def out_snprintf_conv_def)
    next
      case s
      have "text_safe m0 temp buffer a" using arg s some(2) by simp
      then obtain n where n: "m' a = m a" "\<And>idx. strlen (buf_put buffer idx (m a) m) a = Some n" "\<And>idx. strlen (buf_put buffer idx (m a) m') a = Some n"
        by (rule text_safe_len [OF _ rel(3,2)]) blast
      show ?thesis by (rule storesI [OF _ _ rel(1) buf_put_same [OF rel(2)] buf_put_beyond [OF rel(3)]])
          (use n in \<open>simp_all add: some(2) s snprintf_conv_def out_snprintf_conv_def\<close>)
    next
      case c
      show ?thesis by (rule storesI [OF _ _ rel(1) buf_put_same [OF rel(2)] buf_put_beyond [OF rel(3)]])
          (simp_all add: some(2) c snprintf_conv_def out_snprintf_conv_def)
    qed
  next
    case unknown
    then show ?thesis by (rule unknown_stores [OF rel])
  qed (auto simp: stores_def snprintf_conv_def out_snprintf_conv_def)
qed

text \<open>The same for a whole format.\<close>

definition fills :: "u64 \<Rightarrow> (mem \<times> u32 \<times> 's) res \<Rightarrow> (mem \<times> u32 \<times> console) res \<Rightarrow> bool" where
  "fills temp r x \<longleftrightarrow> (case x of Inl e \<Rightarrow> r = Inl e
     | Inr (m, idx, con) \<Rightarrow> \<exists>m' s. r = Inr (m', idx, s) \<and> ready s \<and> shown s = con \<and> same_outside temp m m')"

lemma snprintf_loop_fills:
  assumes apart: "span temp 32 \<inter> buffer_area buffer = {}"
  shows "ready s \<Longrightarrow> same_outside temp m m' \<Longrightarrow> same_beyond buffer m0 m \<Longrightarrow> \<forall>a \<in> set (string_args fmt args). text_safe m0 temp buffer a \<Longrightarrow>
    fills temp (out_vsnprintf_loop send temp buffer fmt args (m', idx, s)) (vsnprintf_loop buffer fmt args (m, idx, shown s))"
proof (induction fmt arbitrary: args m m' idx s rule: length_induct)
  case (1 fmt)
  consider (empty) "fmt = []" | (plain) c fmt1 where "fmt = c # fmt1" "c \<noteq> byte_of CHR ''%''" | (cut) "fmt = [byte_of CHR ''%'']"
    | (conv) f fmt2 where "fmt = byte_of CHR ''%'' # f # fmt2"
    by (cases fmt; cases "tl fmt"; cases "hd fmt = byte_of CHR ''%''") auto
  then show ?case
  proof cases
    case empty
    then show ?thesis using "1.prems" by (simp add: fills_def)
  next
    case plain
    have "fills temp (out_vsnprintf_loop send temp buffer fmt1 args (buf_put buffer idx c m', idx + 1, s))
        (vsnprintf_loop buffer fmt1 args (buf_put buffer idx c m, idx + 1, shown s))"
      using "1.IH" "1.prems" plain by (simp add: buf_put_keeps)
    then show ?thesis using plain by simp
  next
    case cut
    then show ?thesis by (simp add: fills_def)
  next
    case conv
    have "text_safe m0 temp buffer (hd args)" if "f = byte_of CHR ''s''" "args \<noteq> []"
      using that "1.prems"(4) unfolding conv by (cases args) auto
    then have C: "stores temp buffer m0 (out_snprintf_conv send temp buffer f args (m', idx, s)) (snprintf_conv buffer f args (m, idx, shown s))"
      using "1.prems" by (intro snprintf_conv_stores [OF apart]) auto
    show ?thesis
    proof (cases "snprintf_conv buffer f args (m, idx, shown s)")
      case (Inl e)
      then show ?thesis using C unfolding conv by (simp add: stores_def fills_def)
    next
      case (Inr x)
      obtain m1 idx1 con args' where x: "x = ((m1, idx1, con), args')" by (cases x) auto
      obtain m2 s' where s': "out_snprintf_conv send temp buffer f args (m', idx, s) = Inr ((m2, idx1, s'), args')" "ready s'" "shown s' = con"
        "same_outside temp m1 m2" "same_beyond buffer m0 m1"
        using C Inr x by (auto simp: stores_def)
      have "\<forall>a \<in> set (string_args fmt2 args'). text_safe m0 temp buffer a"
        using "1.prems"(4) snprintf_conv_args [OF Inr [unfolded x], of fmt2] unfolding conv by simp
      then have "fills temp (out_vsnprintf_loop send temp buffer fmt2 args' (m2, idx1, s')) (vsnprintf_loop buffer fmt2 args' (m1, idx1, shown s'))"
        using "1.IH" s'(2,4,5) conv by simp
      then show ?thesis using s' Inr x unfolding conv by simp
    qed
  qed
qed

end

section \<open>In a user program\<close>

text \<open>
  (C32) \<open>snprintf\<close> of the user library and that of \<open>klib\<close> are the same function. When the local array, the area that the buffer's 32-bit index reaches and the strings that
  \<open>%s\<close> takes are apart, the two stop with the same fault or leave the same bytes in the buffer and everywhere else outside the local array; what the
  unknown conversions send to the console is the same too. A user program keeps its registers and address space.
\<close>

theorem user_snprintf_equals_klib:
  assumes "span temp 32 \<inter> range (\<lambda>i :: u32. buffer + ucast i) = {}"
    and "\<forall>a \<in> set (string_args (bytes_of format) args). \<exists>w. cstr m a w \<and> span a (Suc (length w)) \<inter> span temp 32 = {} \<and>
      span a (Suc (length w)) \<inter> range (\<lambda>i :: u32. buffer + ucast i) = {}"
  shows "case snprintf buffer n format args m (console (lib s)) of
      Inl e \<Rightarrow> user_snprintf at temp buffer n format args (m, s) = Inl e
    | Inr (m1, con) \<Rightarrow> \<exists>m' s'. user_snprintf at temp buffer n format args (m, s) = Inr (m', s') \<and> console (lib s') = con \<and>
        (\<forall>z. z \<notin> span temp 32 \<longrightarrow> m' z = m1 z) \<and> procs s' = procs s \<and> satp (hart s') = satp (hart s) \<and>
        (\<forall>r. r \<notin> {A0, A1, A2, A3} \<longrightarrow> regs (hart s') r = regs (hart s) r)"
proof -
  have "span temp 32 \<inter> buffer_area buffer = {}" using assms(1) by (simp add: buffer_area_def)
  moreover have "kept_by_calls s s" "same_outside temp m m" "same_beyond buffer m m" by (simp_all add: kept_by_calls_def same_outside_def same_beyond_def)
  moreover have "\<forall>a \<in> set (string_args (bytes_of format) args). text_safe m temp buffer a" using assms(2) by (simp add: text_safe_def buffer_area_def)
  ultimately have "user_console.fills s temp (out_vsnprintf_loop (trap_putc at) temp buffer (bytes_of format) args (m, 0, s))
      (vsnprintf_loop buffer (bytes_of format) args (m, 0, console (lib s)))"
    by (rule user_console.snprintf_loop_fills)
  then show ?thesis
    unfolding user_console.fills_def snprintf_def vsnprintf_def user_snprintf_def out_vsnprintf_def
    by (auto simp: kept_by_calls_def same_outside_def split: sum.splits)
qed

text \<open>With the buffer above four gigabytes; of the number 42 only the first digit is stored.\<close>

lemma high_buffer_apart: "span 0x1009f00 32 \<inter> range (\<lambda>i :: u32. 0x100000000 + ucast i) = ({} :: u64 set)"
proof -
  have "unat (0x100000000 + ucast i :: u64) = 0x100000000 + unat i" for i :: u32
  proof -
    have i: "unat i < 2 ^ 32" using unsigned_less [where 'a = nat, of i] by simp
    have "unat (0x100000000 + of_nat (unat i) :: u64) = unat (0x100000000 :: u64) + unat i"
      by (rule unat_plus_of_nat) (use i in simp)
    then show ?thesis by simp
  qed
  moreover have "unat z < 0x100000000" if "z \<in> span 0x1009f00 32" for z using that by (subst (asm) in_span_iff) simp_all
  ultimately show ?thesis by (force simp: image_iff)
qed

theorem user_snprintf_equals_klib_witness:
  "\<exists>m' s'. user_snprintf 0x1000040 0x1009f00 0x100000000 8 ''n%d'' [42] (\<lambda>_. 7, three_sys) = Inr (m', s') \<and>
     m' 0x100000000 = 110 \<and> m' 0x100000001 = 52 \<and> m' 0x100000002 = 7 \<and> satp (hart s') = satp (hart three_sys)"
proof -
  have fmt: "bytes_of ''n%d'' = [110, byte_of CHR ''%'', byte_of CHR ''d'']" by simp
  have H: "\<forall>a \<in> set (string_args (bytes_of ''n%d'') [42]). \<exists>w. cstr (\<lambda>_. 7) a w \<and> span a (Suc (length w)) \<inter> span 0x1009f00 32 = {} \<and>
      span a (Suc (length w)) \<inter> range (\<lambda>i :: u32. 0x100000000 + ucast i) = {}" by simp
  have "utoa 42 10 = Inr [52, 50]" by (simp add: utoa_numeral numeral_of_def nat_digits.simps digit_chars_def)
  then have run: "snprintf 0x100000000 8 ''n%d'' [42] (\<lambda>_. 7) con = Inr ((\<lambda>_. 7)(0x100000000 := 110, 0x100000001 := 52), con)" for con
    unfolding snprintf_def vsnprintf_def fmt by (simp add: snprintf_conv_def buf_put_def)
  have out: "0x100000000 \<notin> span 0x1009f00 32" "0x100000001 \<notin> span 0x1009f00 32" "0x100000002 \<notin> span 0x1009f00 32"
    by (subst in_span_iff; simp)+
  from user_snprintf_equals_klib [OF high_buffer_apart H, where at = "0x1000040" and s = three_sys and n = 8] show ?thesis
    unfolding run using out by auto
qed

end
