(* ===== verification/User_Shell.thy ===== *)
theory User_Shell
  imports User_Stdio_Props
begin

text \<open>
  The shell on the kernel. \<open>User\<close> models \<open>user/shell/shell.c\<close> over a list of keys and a list of bytes; here every \<open>getc\<close>, \<open>putc\<close>, \<open>printf\<close>
  and \<open>exit\<close> of it is the call of the user library, through the \<open>ecall\<close>, the kernel's handler and back. The two are related: a shell
  that is the only process that can run does on the kernel exactly what the first model says.
\<close>

section \<open>The program\<close>

text \<open>
  The loops over the state of the machine and the answers that the firmware gives to polls. \<open>at\<close> is the address of the \<open>ecall\<close>, \<open>buffer\<close> that of the array
  in \<open>vprintf\<close>. A \<open>getc\<close> that still polls is \<open>Waiting\<close>, one that has lost the hart to another process \<open>Left\<close>.
\<close>

datatype sys_line = Line_waiting ksys | Line_left "u64 list" mem ksys | Line_too_long "u64 list" mem ksys | Line_entered "u64 list" mem ksys

partial_function (option) sys_read_line :: "u64 \<Rightarrow> u64 \<Rightarrow> u64 \<Rightarrow> nat \<Rightarrow> u64 list \<Rightarrow> mem \<Rightarrow> ksys \<Rightarrow> sys_line res option" where
  "sys_read_line at buffer cmdline i polls m s =
     (case user_getc polls at s of
        Inl e \<Rightarrow> Some (Inl e)
      | Inr (Polling s) \<Rightarrow> Some (Inr (Line_waiting s))
      | Inr (Suspended polls s) \<Rightarrow> Some (Inr (Line_left polls m s))
      | Inr (Done polls s) \<Rightarrow>
          let ch = ucast (call_value s) in
          (case trap_putc at ch s of
             Inl e \<Rightarrow> Some (Inl e)
           | Inr s \<Rightarrow>
               if i = 128 - 1 then
                 Some (bind_res (user_printf at buffer (''Command too long!'' @ [CHR 0x0A]) [] (m, s)) (\<lambda>(m, s). Inr (Line_too_long polls m s)))
               else if ch = 13 then
                 Some (bind_res (user_printf at buffer [CHR 0x0A] [] (m, s)) (\<lambda>(m, s). Inr (Line_entered polls (m(cmdline + of_nat i := 0)) s)))
               else sys_read_line at buffer cmdline (i + 1) polls (m(cmdline + of_nat i := ch)) s))"

datatype sys_round = Round_waits ksys | Round_left "u64 list" mem ksys | Round_prompts "u64 list" mem ksys | Round_exits "u64 list" ksys

text \<open>Behind \<open>syscall(SYS_EXIT, 0, 0, 0)\<close> stands an endless loop.\<close>

definition sys_run_command :: "u64 \<Rightarrow> u64 \<Rightarrow> shell_data \<Rightarrow> u64 list \<Rightarrow> mem \<Rightarrow> ksys \<Rightarrow> sys_round res" where
  "sys_run_command at buffer d polls m s =
     bind_res (or_hang (strcmp m (cmdline_at d) (hello_at d))) (\<lambda>r.
       if r = 0 then
         bind_res (user_printf at buffer (''Hello world from shell!'' @ [CHR 0x0A]) [] (m, s)) (\<lambda>(m, s). Inr (Round_prompts polls m s))
       else bind_res (or_hang (strcmp m (cmdline_at d) (exit_at d))) (\<lambda>r.
         if r = 0 then
           bind_res (user_exit polls at s) (\<lambda>r. case r of Suspended polls s \<Rightarrow> Inr (Round_exits polls s) | _ \<Rightarrow> Inl Hang)
         else
           bind_res (user_printf at buffer (''Unknown command: %s'' @ [CHR 0x0A]) [cmdline_at d] (m, s)) (\<lambda>(m, s). Inr (Round_prompts polls m s))))"

definition sys_shell_round :: "u64 \<Rightarrow> u64 \<Rightarrow> shell_data \<Rightarrow> u64 list \<Rightarrow> mem \<Rightarrow> ksys \<Rightarrow> sys_round res option" where
  "sys_shell_round at buffer d polls m s =
     (case user_printf at buffer ''> '' [] (m, s) of
        Inl e \<Rightarrow> Some (Inl e)
      | Inr (m, s) \<Rightarrow>
          (case sys_read_line at buffer (cmdline_at d) 0 polls m s of
             None \<Rightarrow> None
           | Some r \<Rightarrow> Some (bind_res r (\<lambda>l. case l of
                 Line_waiting s \<Rightarrow> Inr (Round_waits s)
               | Line_left polls m s \<Rightarrow> Inr (Round_left polls m s)
               | Line_too_long polls m s \<Rightarrow> Inr (Round_prompts polls m s)
               | Line_entered polls m s \<Rightarrow> sys_run_command at buffer d polls m s))))"

partial_function (option) sys_shell_main :: "u64 \<Rightarrow> u64 \<Rightarrow> shell_data \<Rightarrow> u64 list \<Rightarrow> mem \<Rightarrow> ksys \<Rightarrow> sys_round res option" where
  "sys_shell_main at buffer d polls m s =
     (case sys_shell_round at buffer d polls m s of
        None \<Rightarrow> None
      | Some (Inl e) \<Rightarrow> Some (Inl e)
      | Some (Inr r) \<Rightarrow>
          (case r of
             Round_prompts polls m s \<Rightarrow> sys_shell_main at buffer d polls m s
           | _ \<Rightarrow> Some (Inr r)))"

text \<open>\<open>start\<close>: the stack pointer, then \<open>main\<close>, which does not return, so that the call of \<open>exit\<close> behind it is not reached.\<close>

definition user_start :: "u64 \<Rightarrow> u64 \<Rightarrow> u64 \<Rightarrow> shell_data \<Rightarrow> u64 list \<Rightarrow> mem \<Rightarrow> ksys \<Rightarrow> sys_round res option" where
  "user_start user_stack_top at buffer d polls m s =
     sys_shell_main at buffer d polls m (s\<lparr>hart := (hart s)\<lparr>regs := (regs (hart s))(SP := user_stack_top)\<rparr>\<rparr>)"

section \<open>Calls of a process that is alone\<close>

definition alone :: "ksys \<Rightarrow> bool" where
  "alone s \<longleftrightarrow> (\<exists>idle cur. idle_proc s = Some idle \<and> current_proc s = Some cur \<and> cur \<noteq> idle \<and> table_ok idle (procs s) \<and> in_use (procs s) cur \<and>
     (\<forall>j < 8. runnable (procs s) j \<longleftrightarrow> j = cur))"

lemma alone_kept: "alone s0 \<Longrightarrow> kept_by_calls s0 s \<Longrightarrow> alone s"
  by (simp add: alone_def kept_by_calls_def)

text \<open>The keys among the answers.\<close>

definition keys_of :: "u64 list \<Rightarrow> u8 list" where
  "keys_of polls = map ucast (filter (\<lambda>p. 0 \<le> sint p) polls)"

lemma keys_of_Nil: "keys_of polls = [] \<longleftrightarrow> dropWhile (\<lambda>c. sint c < 0) polls = []"
  by (auto simp: keys_of_def filter_empty_conv not_le)

lemma keys_of_Cons:
  "keys_of polls = k # ks \<Longrightarrow> \<exists>c cs. dropWhile (\<lambda>c. sint c < 0) polls = c # cs \<and> ucast c = k \<and> keys_of cs = ks"
  by (induction polls) (auto simp: keys_of_def split: if_splits)

lemma ucast_key: "(ucast (ucast (c :: u64) :: u32) :: u8) = ucast c"
  by (rule bit_eqI) (auto simp: bit_simps)

lemma getc_key:
  assumes al: "alone s0" and kept: "kept_by_calls s0 s" and keys: "keys_of polls = k # ks"
  obtains polls' s' where "user_getc polls at s = Inr (Done polls' s')" "keys_of polls' = ks" "ucast (call_value s') = k" "kept_by_calls s0 s'"
    "console (lib s') = console (lib s)"
proof -
  obtain c cs where c: "dropWhile (\<lambda>c. sint c < 0) polls = c # cs" "ucast c = k" "keys_of cs = ks" using keys_of_Cons [OF keys] by blast
  obtain idle cur where A: "idle_proc s = Some idle" "current_proc s = Some cur" "table_ok idle (procs s)" "in_use (procs s) cur"
    "\<forall>j < 8. runnable (procs s) j \<longleftrightarrow> j = cur" using alone_kept [OF al kept] by (auto simp: alone_def)
  let ?s = "ecall at (ucast SYS_GETC) 0 0 0 s"
  obtain s' where s': "kernel_trap polls ?s = Inr (Done cs s')" "returned ?s ((regs (hart ?s))(A0 := c)) (console (lib ?s)) s'"
    using getc_trap_alone(1) [of ?s idle cur polls c cs] A c(1) by (auto simp: ecall_fields call_numbers)
  have "satp (hart ?s) = satp (hart s)" by (simp add: ecall_def)
  then have "kept_by_calls s0 s'" using s'(2) kept by (auto simp: returned_def kept_by_calls_def ecall_fields)
  moreover have "ucast (call_value s') = k" using s'(2) c(2) by (simp add: returned_def call_value_def ucast_key)
  ultimately show thesis using that [of cs s'] s' c(3) by (simp add: user_getc_def syscall_def returned_def ecall_fields)
qed

lemma getc_waits:
  assumes al: "alone s0" and kept: "kept_by_calls s0 s" and keys: "keys_of polls = []"
  obtains s' where "user_getc polls at s = Inr (Polling s')" "procs s' = procs s0" "console (lib s') = console (lib s)"
proof -
  obtain idle cur where A: "idle_proc s = Some idle" "current_proc s = Some cur" "table_ok idle (procs s)" "in_use (procs s) cur"
    "\<forall>j < 8. runnable (procs s) j \<longleftrightarrow> j = cur" using alone_kept [OF al kept] by (auto simp: alone_def)
  let ?s = "ecall at (ucast SYS_GETC) 0 0 0 s"
  have "procs s = procs s0" using kept by (simp add: kept_by_calls_def)
  then show thesis
    using that getc_trap_alone(2) [of ?s idle cur polls] A keys by (auto simp: ecall_fields call_numbers keys_of_Nil user_getc_def syscall_def)
qed

text \<open>\<open>printf\<close>, as the interface of the console port gives it.\<close>

lemma printf_call:
  assumes "kept_by_calls s0 s" "\<forall>a \<in> set (string_args (bytes_of format) args). text_apart m buffer a"
    and "printf m format args (console (lib s)) = Inr con"
  obtains m' s' where "user_printf at buffer format args (m, s) = Inr (m', s')" "kept_by_calls s0 s'" "console (lib s') = con" "same_outside buffer m m'"
proof -
  have "same_outside buffer m m" by (simp add: same_outside_def)
  then have "user_console.prints s0 buffer m (out_vprintf (trap_putc at) buffer (bytes_of format) args (m, s))
      (vprintf m (bytes_of format) args (console (lib s)))"
    by (rule user_console.vprintf_text [OF assms(1) _ assms(2)])
  then show thesis
    using that assms(3) unfolding user_console.prints_def printf_def user_printf_def out_printf_def by auto
qed

lemma no_string_args: "string_args fmt [] = []"
  by (induction fmt "[] :: u64 list" rule: string_args.induct) (auto split: list.splits)

lemmas print_literal = printf_call [where args = "[]", unfolded no_string_args, simplified]

section \<open>The loops refine the model of the shell\<close>

text \<open>The array of the command line and the literals are away from the array of \<open>vprintf\<close>.\<close>

definition arrays_apart :: "u64 \<Rightarrow> shell_data \<Rightarrow> bool" where
  "arrays_apart buffer d \<longleftrightarrow> span (cmdline_at d) 128 \<inter> span buffer 32 = {} \<and> span (hello_at d) 6 \<inter> span buffer 32 = {} \<and>
     span (exit_at d) 5 \<inter> span buffer 32 = {}"

text \<open>The memory \<open>m'\<close> of the process and the one of the model, \<open>m\<close>.\<close>

lemma same_outside_trans: "same_outside b m m1 \<Longrightarrow> same_outside b m1 m2 \<Longrightarrow> same_outside b m m2"
  by (simp add: same_outside_def)

lemma same_outside_store: "same_outside b m m' \<Longrightarrow> same_outside b (m(a := c)) (m'(a := c))"
  by (simp add: same_outside_def)

definition line_sim :: "u64 \<Rightarrow> ksys \<Rightarrow> sys_line res option \<Rightarrow> line res \<Rightarrow> bool" where
  "line_sim buffer s0 x y \<longleftrightarrow> (case y of
       Inl e \<Rightarrow> False
     | Inr (Waiting con) \<Rightarrow> \<exists>s. x = Some (Inr (Line_waiting s)) \<and> procs s = procs s0 \<and> console (lib s) = con
     | Inr (Too_long keys m con) \<Rightarrow> \<exists>polls m' s. x = Some (Inr (Line_too_long polls m' s)) \<and> keys_of polls = keys \<and> same_outside buffer m m' \<and>
         kept_by_calls s0 s \<and> console (lib s) = con
     | Inr (Entered keys m con) \<Rightarrow> \<exists>polls m' s. x = Some (Inr (Line_entered polls m' s)) \<and> keys_of polls = keys \<and> same_outside buffer m m' \<and>
         kept_by_calls s0 s \<and> console (lib s) = con)"

lemma read_line_sim:
  assumes al: "alone s0"
  shows "keys_of polls = keys \<Longrightarrow> kept_by_calls s0 s \<Longrightarrow> same_outside buffer m m' \<Longrightarrow> con = console (lib s) \<Longrightarrow>
    line_sim buffer s0 (sys_read_line at buffer cmdline i polls m' s) (read_line cmdline i keys m con)"
proof (induction cmdline i keys m con arbitrary: polls m' s rule: read_line.induct)
  case (1 cmdline i m con)
  obtain s' where "user_getc polls at s = Inr (Polling s')" "procs s' = procs s0" "console (lib s') = console (lib s)"
    by (rule getc_waits [OF al "1.prems"(2,1)])
  then show ?case using "1.prems"(4) by (subst sys_read_line.simps) (simp add: line_sim_def)
next
  case (2 cmdline i ch keys m con)
  obtain polls1 s1 where g: "user_getc polls at s = Inr (Done polls1 s1)" "keys_of polls1 = keys" "ucast (call_value s1) = ch" "kept_by_calls s0 s1"
    "console (lib s1) = console (lib s)" by (rule getc_key [OF al "2.prems"(2,1)])
  obtain s2 where p: "trap_putc at ch s1 = Inr s2" "kept_by_calls s0 s2" "console (lib s2) = putc ch con"
    using trap_putc_sends [OF g(4), of at ch] g(5) "2.prems"(4) by (auto simp: putc_def)
  have step: "sys_read_line at buffer cmdline i polls m' s =
      (if i = 128 - 1 then
         Some (bind_res (user_printf at buffer (''Command too long!'' @ [CHR 0x0A]) [] (m', s2)) (\<lambda>(m, s). Inr (Line_too_long polls1 m s)))
       else if ch = 13 then
         Some (bind_res (user_printf at buffer [CHR 0x0A] [] (m', s2)) (\<lambda>(m, s). Inr (Line_entered polls1 (m(cmdline + of_nat i := 0)) s)))
       else sys_read_line at buffer cmdline (i + 1) polls1 (m'(cmdline + of_nat i := ch)) s2)"
    by (subst sys_read_line.simps) (simp only: g(1,3) p(1) Let_def sum.case sysret.case)
  note out = "2.prems"(3)
  consider (long) "i = 128 - 1" | (enter) "i \<noteq> 128 - 1" "ch = 13" | (more) "i \<noteq> 128 - 1" "ch \<noteq> 13" by blast
  then show ?case
  proof cases
    case long
    obtain m1 s3 where w: "user_printf at buffer (''Command too long!'' @ [CHR 0x0A]) [] (m', s2) = Inr (m1, s3)" "kept_by_calls s0 s3"
      "console (lib s3) = putc ch con @ bytes_of ''Command too long!'' @ [13, 10]" "same_outside buffer m' m1"
      by (rule print_literal [OF p(2) shell_texts(4), unfolded p(3)])
    have "read_line cmdline i (ch # keys) m con = Inr (Too_long keys m (putc ch con @ bytes_of ''Command too long!'' @ [13, 10]))"
      unfolding read_line.simps Let_def if_P [OF long] shell_texts(4) bind_res_simps ..
    then show ?thesis
      unfolding step if_P [OF long] w(1) bind_res_simps using w g(2) same_outside_trans [OF out w(4)] by (simp add: line_sim_def)
  next
    case enter
    obtain m1 s3 where w: "user_printf at buffer [CHR 0x0A] [] (m', s2) = Inr (m1, s3)" "kept_by_calls s0 s3"
      "console (lib s3) = putc ch con @ [13, 10]" "same_outside buffer m' m1"
      by (rule print_literal [OF p(2) shell_texts(2), unfolded p(3)])
    have "read_line cmdline i (ch # keys) m con = Inr (Entered keys (m(cmdline + of_nat i := 0)) (putc ch con @ [13, 10]))"
      unfolding read_line.simps Let_def if_not_P [OF enter(1)] if_P [OF enter(2)] shell_texts(2) bind_res_simps ..
    then show ?thesis
      unfolding step if_not_P [OF enter(1)] if_P [OF enter(2)] w(1) bind_res_simps
      using w g(2) same_outside_store [OF same_outside_trans [OF out w(4)]] by (simp add: line_sim_def)
  next
    case more
    have R: "read_line cmdline i (ch # keys) m con = read_line cmdline (i + 1) keys (m(cmdline + of_nat i := ch)) (putc ch con)"
      unfolding read_line.simps Let_def if_not_P [OF more(1)] if_not_P [OF more(2)] ..
    show ?thesis
      unfolding step if_not_P [OF more(1)] if_not_P [OF more(2)] R
      by (rule "2.IH" [OF refl more g(2) p(2) same_outside_store [OF out] p(3) [symmetric]])
  qed
qed

section \<open>A round\<close>

text \<open>What stands in the array when a line has been entered ends within it.\<close>

lemma zero_cell: "m (a + of_nat i) = 0 \<Longrightarrow> \<exists>w. cstr m a w \<and> length w \<le> i"
proof (induction i arbitrary: a)
  case 0
  then show ?case by (intro exI [of _ "[]"]) simp
next
  case (Suc i)
  then obtain w where w: "cstr m (a + 1) w" "length w \<le> i" by (force simp: ac_simps)
  show ?case
  proof (cases "m a = 0")
    case True
    then show ?thesis by (intro exI [of _ "[]"]) simp
  next
    case False
    then show ?thesis using w by (intro exI [of _ "m a # w"]) simp
  qed
qed

definition line_stored :: "u64 \<Rightarrow> mem \<Rightarrow> line \<Rightarrow> bool" where
  "line_stored a m l \<longleftrightarrow> (case l of
       Waiting con \<Rightarrow> True
     | Too_long keys m' con \<Rightarrow> \<forall>z. z \<notin> span a 128 \<longrightarrow> m' z = m z
     | Entered keys m' con \<Rightarrow> (\<exists>w. cstr m' a w \<and> length w \<le> 126) \<and> (\<forall>z. z \<notin> span a 128 \<longrightarrow> m' z = m z))"

lemma line_stored_more: "z \<in> span a 128 \<Longrightarrow> line_stored a (m(z := c)) l \<Longrightarrow> line_stored a m l"
  by (cases l) (auto simp: line_stored_def)

lemma read_line_stored: "read_line a i keys m con = Inr l \<Longrightarrow> i \<le> 127 \<Longrightarrow> line_stored a m l"
proof (induction a i keys m con rule: read_line.induct)
  case (2 a i ch keys m con)
  have cell: "a + of_nat i \<in> span a 128" using "2.prems"(2) by (simp add: span_def unat_of_nat_64)
  consider (long) "i = 128 - 1" | (enter) "i \<noteq> 128 - 1" "ch = 13" | (more) "i \<noteq> 128 - 1" "ch \<noteq> 13" by blast
  then show ?case
  proof cases
    case long
    then have "l = Too_long keys m (putc ch con @ bytes_of ''Command too long!'' @ [13, 10])"
      using "2.prems"(1) unfolding read_line.simps Let_def if_P [OF long] shell_texts(4) bind_res_simps by simp
    then show ?thesis by (simp add: line_stored_def)
  next
    case enter
    have l: "l = Entered keys (m(a + of_nat i := 0)) (putc ch con @ [13, 10])"
      using "2.prems"(1) unfolding read_line.simps Let_def if_not_P [OF enter(1)] if_P [OF enter(2)] shell_texts(2) bind_res_simps by simp
    have "i \<le> 126" using "2.prems"(2) enter(1) by simp
    moreover obtain w where "cstr (m(a + of_nat i := 0)) a w" "length w \<le> i" using zero_cell [of "m(a + of_nat i := 0)" a i] by auto
    ultimately show ?thesis using cell by (auto simp: l line_stored_def)
  next
    case more
    have "read_line a (i + 1) keys (m(a + of_nat i := ch)) (putc ch con) = Inr l"
      using "2.prems"(1) unfolding read_line.simps Let_def if_not_P [OF more(1)] if_not_P [OF more(2)] .
    moreover have "i + 1 \<le> 127" using "2.prems"(2) more(1) by simp
    ultimately show ?thesis using "2.IH" [OF refl more] line_stored_more [OF cell] by blast
  qed
qed (auto simp: line_stored_def)

text \<open>The call of \<open>exit\<close>.\<close>

definition exited :: "ksys \<Rightarrow> console \<Rightarrow> ksys \<Rightarrow> bool" where
  "exited s0 con s \<longleftrightarrow> (\<exists>cur. current_proc s0 = Some cur \<and> gone cur s \<and> sched_inv s \<and>
     console (lib s) = con @ bytes_of ''Process '' @ int_numeral (sint (pid (procs s0 ! cur))) @ bytes_of '' exited'' @ [13, 10])"

lemma exit_call_exits:
  assumes "alone s0" "kept_by_calls s0 s"
  obtains s' where "user_exit polls at s = Inr (Suspended polls s')" "exited s0 (console (lib s)) s'"
proof -
  obtain idle cur where A: "idle_proc s = Some idle" "current_proc s = Some cur" "cur \<noteq> idle" "table_ok idle (procs s)" "in_use (procs s) cur"
    using alone_kept [OF assms] by (auto simp: alone_def)
  let ?s = "ecall at (ucast SYS_EXIT) 0 0 0 s"
  have e: "scast (ucast SYS_EXIT :: u32) = SYS_EXIT" by (simp add: SYS_EXIT_def)
  have pre: "sched_inv ?s" "scause (hart ?s) = SCAUSE_ECALL" "regs (hart ?s) A3 = SYS_EXIT" "current_proc ?s = Some cur" "idle_proc ?s \<noteq> Some cur"
    using A by (auto simp: sched_inv_def ecall_fields e)
  obtain s' where s': "kernel_trap polls ?s = Inr (Suspended polls s')"
    "console (lib s') = console (lib ?s) @ bytes_of ''Process '' @ int_numeral (sint (pid (procs ?s ! cur))) @ bytes_of '' exited'' @ [13, 10]"
    "gone cur s'" "sched_inv s'" by (rule exit_trap [OF pre])
  moreover have "procs s = procs s0" "current_proc s0 = Some cur" using assms(2) A(2) by (simp_all add: kept_by_calls_def)
  ultimately show thesis using that by (simp add: user_exit_def syscall_def exited_def ecall_fields)
qed

definition round_sim :: "u64 \<Rightarrow> ksys \<Rightarrow> sys_round res \<Rightarrow> round res \<Rightarrow> bool" where
  "round_sim buffer s0 x y \<longleftrightarrow> (case y of
       Inl e \<Rightarrow> False
     | Inr (Waits con) \<Rightarrow> \<exists>s. x = Inr (Round_waits s) \<and> procs s = procs s0 \<and> console (lib s) = con
     | Inr (Prompts keys m con) \<Rightarrow> \<exists>polls m' s. x = Inr (Round_prompts polls m' s) \<and> keys_of polls = keys \<and> same_outside buffer m m' \<and>
         kept_by_calls s0 s \<and> console (lib s) = con
     | Inr (Exits keys con) \<Rightarrow> \<exists>polls s. x = Inr (Round_exits polls s) \<and> keys_of polls = keys \<and> exited s0 con s)"

lemma run_command_sim:
  assumes al: "alone s0" and lit: "literals_ok d m" and arr: "arrays_apart buffer d" and w: "cstr m (cmdline_at d) w" "length w \<le> 126"
    and rel: "keys_of polls = keys" "kept_by_calls s0 s" "same_outside buffer m m'" "con = console (lib s)"
  shows "round_sim buffer s0 (sys_run_command at buffer d polls m' s) (run_command d keys m con)"
proof -
  have "span (cmdline_at d) (Suc (length w)) \<subseteq> span (cmdline_at d) 128" using w(2) by (intro span_mono) simp
  moreover have len6: "Suc (length (bytes_of ''hello'')) = 6" "Suc (length (bytes_of ''exit'')) = 5" by simp_all
  ultimately have ap: "span (cmdline_at d) (Suc (length w)) \<inter> span buffer 32 = {}"
    "span (hello_at d) (Suc (length (bytes_of ''hello''))) \<inter> span buffer 32 = {}" "span (exit_at d) (Suc (length (bytes_of ''exit''))) \<inter> span buffer 32 = {}"
    using arr unfolding arrays_apart_def len6 by blast+
  have l: "cstr m (hello_at d) (bytes_of ''hello'')" "cstr m (exit_at d) (bytes_of ''exit'')" using lit by (simp_all add: literals_ok_def)
  note c' = text_kept [OF w(1) ap(1) rel(3)] and h' = text_kept [OF l(1) ap(2) rel(3)] and e' = text_kept [OF l(2) ap(3) rel(3)]
  have len: "length w < 2 ^ 31" using w(2) by simp
  note cmp = strcmp_cstr [OF w(1) l(1) len] strcmp_cstr [OF w(1) l(2) len] strcmp_cstr [OF c' h' len] strcmp_cstr [OF c' e' len]
  let ?h = "str_diff w (bytes_of ''hello'')" and ?e = "str_diff w (bytes_of ''exit'')"
  consider (hello) "?h = 0" | (exit) "?h \<noteq> 0" "?e = 0" | (other) "?h \<noteq> 0" "?e \<noteq> 0" by blast
  then show ?thesis
  proof cases
    case hello
    obtain m1 s1 where p: "user_printf at buffer (''Hello world from shell!'' @ [CHR 0x0A]) [] (m', s) = Inr (m1, s1)" "kept_by_calls s0 s1"
      "console (lib s1) = con @ bytes_of ''Hello world from shell!'' @ [13, 10]" "same_outside buffer m' m1"
      by (rule print_literal [OF rel(2) shell_texts(3), folded rel(4)])
    show ?thesis
      unfolding run_command_def sys_run_command_def cmp or_hang_simps bind_res_simps if_P [OF hello] shell_texts(3) p(1)
      using p rel(1) same_outside_trans [OF rel(3) p(4)] by (simp add: round_sim_def)
  next
    case exit
    obtain s1 where x: "user_exit polls at s = Inr (Suspended polls s1)" "exited s0 con s1" using exit_call_exits [OF al rel(2)] rel(4) by metis
    show ?thesis
      unfolding run_command_def sys_run_command_def cmp or_hang_simps bind_res_simps if_not_P [OF exit(1)] if_P [OF exit(2)] x(1)
      using x(2) rel(1) by (simp add: round_sim_def)
  next
    case other
    have args: "\<forall>a \<in> set (string_args (bytes_of (''Unknown command: %s'' @ [CHR 0x0A])) [cmdline_at d]). text_apart m' buffer a"
      using c' ap(1) by (auto simp: text_apart_def)
    obtain m1 s1 where p: "user_printf at buffer (''Unknown command: %s'' @ [CHR 0x0A]) [cmdline_at d] (m', s) = Inr (m1, s1)" "kept_by_calls s0 s1"
      "console (lib s1) = con @ bytes_of ''Unknown command: '' @ w @ [13, 10]" "same_outside buffer m' m1"
      by (rule printf_call [OF rel(2) args unknown_text [OF c'], folded rel(4)])
    show ?thesis
      unfolding run_command_def sys_run_command_def cmp or_hang_simps bind_res_simps if_not_P [OF other(1)] if_not_P [OF other(2)] unknown_text [OF w(1)] p(1)
      using p rel(1) same_outside_trans [OF rel(3) p(4)] by (simp add: round_sim_def)
  qed
qed

lemma shell_round_sim:
  assumes al: "alone s0" and lit: "literals_ok d m" and arr: "arrays_apart buffer d"
    and rel: "keys_of polls = keys" "kept_by_calls s0 s" "same_outside buffer m m'" "con = console (lib s)"
  shows "\<exists>x. sys_shell_round at buffer d polls m' s = Some x \<and> round_sim buffer s0 x (shell_round d keys m con) \<and>
    (\<forall>keys' m1 con'. shell_round d keys m con = Inr (Prompts keys' m1 con') \<longrightarrow> literals_ok d m1)"
proof -
  obtain m1 s1 where p: "user_printf at buffer ''> '' [] (m', s) = Inr (m1, s1)" "kept_by_calls s0 s1"
    "console (lib s1) = con @ bytes_of ''> ''" "same_outside buffer m' m1"
    by (rule print_literal [OF rel(2) shell_texts(1), folded rel(4)])
  note out = same_outside_trans [OF rel(3) p(4)]
  let ?con = "con @ bytes_of ''> ''"
  note L = read_line_sim [OF al rel(1) p(2) out p(3) [symmetric], of at "cmdline_at d" 0]
  obtain l where l: "read_line (cmdline_at d) 0 keys m ?con = Inr l" using L by (cases "read_line (cmdline_at d) 0 keys m ?con") (simp_all add: line_sim_def)
  have spec: "shell_round d keys m con =
      (case l of Waiting con \<Rightarrow> Inr (Waits con) | Too_long keys m con \<Rightarrow> Inr (Prompts keys m con) | Entered keys m con \<Rightarrow> run_command d keys m con)"
    unfolding shell_round_def shell_texts(1) bind_res_simps l ..
  have impl: "sys_shell_round at buffer d polls m' s = (case sys_read_line at buffer (cmdline_at d) 0 polls m1 s1 of
      None \<Rightarrow> None
    | Some r \<Rightarrow> Some (bind_res r (\<lambda>l. case l of
          Line_waiting s \<Rightarrow> Inr (Round_waits s)
        | Line_left polls m s \<Rightarrow> Inr (Round_left polls m s)
        | Line_too_long polls m s \<Rightarrow> Inr (Round_prompts polls m s)
        | Line_entered polls m s \<Rightarrow> sys_run_command at buffer d polls m s)))"
    unfolding sys_shell_round_def p(1) by simp
  have st: "line_stored (cmdline_at d) m l" by (rule read_line_stored [OF l]) simp
  show ?thesis
  proof (cases l)
    case (Waiting c)
    then show ?thesis using L impl unfolding spec l by (auto simp: line_sim_def round_sim_def)
  next
    case (Too_long k m2 c)
    then have "literals_ok d m2" using st by (intro literals_cong [OF lit]) (simp add: line_stored_def)
    then show ?thesis using L impl unfolding spec l Too_long by (auto simp: line_sim_def round_sim_def)
  next
    case (Entered k m2 c)
    then have lit2: "literals_ok d m2" using st by (intro literals_cong [OF lit]) (simp add: line_stored_def)
    obtain w where w: "cstr m2 (cmdline_at d) w" "length w \<le> 126" using st by (auto simp: Entered line_stored_def)
    obtain polls2 m2' s2 where x: "sys_read_line at buffer (cmdline_at d) 0 polls m1 s1 = Some (Inr (Line_entered polls2 m2' s2))"
      "keys_of polls2 = k" "same_outside buffer m2 m2'" "kept_by_calls s0 s2" "console (lib s2) = c"
      using L unfolding l Entered by (auto simp: line_sim_def)
    have "round_sim buffer s0 (sys_run_command at buffer d polls2 m2' s2) (run_command d k m2 c)"
      by (rule run_command_sim [OF al lit2 arr w x(2,4,3) x(5) [symmetric]])
    moreover have "m1' = m2" if "run_command d k m2 c = Inr (Prompts keys' m1' con')" for keys' m1' con'
      using that by (auto simp: run_command_def bind_res_Inr split: if_splits)
    ultimately show ?thesis unfolding impl x(1) spec Entered using lit2 by (intro exI [of _ "sys_run_command at buffer d polls2 m2' s2"]) auto
  qed
qed

section \<open>The session\<close>

lemma sys_shell_sim:
  assumes al: "alone s" and arr: "arrays_apart buffer d"
  shows "literals_ok d m \<Longrightarrow> keys_of polls = keys \<Longrightarrow> kept_by_calls s s' \<Longrightarrow> same_outside buffer m m' \<Longrightarrow> con = console (lib s') \<Longrightarrow>
    case shell_main d keys m con of
      Inr (Waits c) \<Rightarrow> \<exists>t. sys_shell_main at buffer d polls m' s' = Some (Inr (Round_waits t)) \<and> procs t = procs s \<and> console (lib t) = c
    | Inr (Exits ks c) \<Rightarrow> \<exists>polls' t. sys_shell_main at buffer d polls m' s' = Some (Inr (Round_exits polls' t)) \<and> keys_of polls' = ks \<and> exited s c t
    | _ \<Rightarrow> False"
proof (induction "length keys" arbitrary: keys m con polls m' s' rule: less_induct)
  case less
  obtain x where x: "sys_shell_round at buffer d polls m' s' = Some x" "round_sim buffer s x (shell_round d keys m con)"
    "\<forall>keys' m1 con'. shell_round d keys m con = Inr (Prompts keys' m1 con') \<longrightarrow> literals_ok d m1"
    using shell_round_sim [OF al less.prems(1) arr less.prems(2-5), of at] by blast
  obtain r where r: "shell_round d keys m con = Inr r" using x(2) by (cases "shell_round d keys m con") (simp_all add: round_sim_def)
  show ?case
  proof (cases r)
    case (Prompts k m1 c)
    then obtain polls1 m1' s1 where y: "x = Inr (Round_prompts polls1 m1' s1)" "keys_of polls1 = k" "same_outside buffer m1 m1'" "kept_by_calls s s1"
      "console (lib s1) = c" using x(2) r by (auto simp: round_sim_def)
    have E: "shell_main d keys m con = shell_main d k m1 c" by (subst shell_main.simps) (simp add: r Prompts)
    have F: "sys_shell_main at buffer d polls m' s' = sys_shell_main at buffer d polls1 m1' s1"
      by (subst sys_shell_main.simps) (simp add: x(1) y(1))
    have "length k < length keys" "literals_ok d m1" using shell_round_takes x(3) r Prompts by blast+
    then show ?thesis unfolding E F using y(2-5) by (intro less.hyps) simp_all
  qed (use x r in \<open>subst shell_main.simps, subst sys_shell_main.simps, auto simp: round_sim_def\<close>)+
qed

lemma sys_shell_runs:
  assumes "alone s" "literals_ok d m" "arrays_apart buffer d"
  obtains (waits) c t where "shell_main d (keys_of polls) m (console (lib s)) = Inr (Waits c)"
      "sys_shell_main at buffer d polls m s = Some (Inr (Round_waits t))" "procs t = procs s" "console (lib t) = c"
    | (exits) ks c polls' t where "shell_main d (keys_of polls) m (console (lib s)) = Inr (Exits ks c)"
      "sys_shell_main at buffer d polls m s = Some (Inr (Round_exits polls' t))" "keys_of polls' = ks" "exited s c t"
proof -
  have "kept_by_calls s s" "same_outside buffer m m" by (simp_all add: kept_by_calls_def same_outside_def)
  note S = sys_shell_sim [OF assms(1,3,2) refl this refl, where polls = polls and at = at]
  obtain r where r: "shell_main d (keys_of polls) m (console (lib s)) = Inr r"
    using S by (cases "shell_main d (keys_of polls) m (console (lib s))") simp_all
  show thesis using S waits exits unfolding r by (cases r) auto
qed

text \<open>
  (C30) The shell on the kernel refines the model of the shell. In a kernel where no other process can run, whatever the firmware answers to the polls for keys, the
  shell's program, with every key, byte and exit a system call through the trap handler, does what the model of the shell does for the keys
  among the answers: when the model waits for a key behind some console text, the call of \<open>getc\<close> still polls and
  the console shows exactly that text; when the model exits with keys left, the process has exited, the console shows the text and the
  kernel's line, and the same keys have not been taken. No call panics or faults.
\<close>

theorem shell_runs_on_kernel:
  assumes "alone s" "literals_ok d m" "arrays_apart buffer d"
  shows "case shell_main d (map ucast (filter (\<lambda>p. 0 \<le> sint p) polls)) m (console (lib s)) of
      Inr (Waits con) \<Rightarrow> \<exists>s'. sys_shell_main at buffer d polls m s = Some (Inr (Round_waits s')) \<and> procs s' = procs s \<and> console (lib s') = con
    | Inr (Exits keys con) \<Rightarrow> \<exists>polls' s'. sys_shell_main at buffer d polls m s = Some (Inr (Round_exits polls' s')) \<and>
        map ucast (filter (\<lambda>p. 0 \<le> sint p) polls') = keys \<and> state (procs s' ! the (current_proc s)) = PROC_EXITED \<and> current_proc s' \<noteq> current_proc s \<and>
        console (lib s') = con @ bytes_of ''Process '' @ int_numeral (sint (pid (procs s ! the (current_proc s)))) @ bytes_of '' exited'' @ [13, 10]
    | _ \<Rightarrow> False"
  unfolding keys_of_def [symmetric]
  by (rule sys_shell_runs [OF assms, where polls = polls and at = at]) (auto simp: exited_def gone_def)

lemma shell_exits:
  assumes "literals_ok d m"
  shows "shell_main d (bytes_of ''exit'' @ [13]) m con = Inr (Exits [] (con @ bytes_of ''> exit'' @ [13, 13, 10]))"
proof -
  have "line_ok (bytes_of ''exit'')" by (simp add: line_ok_def)
  then obtain m' where "shell_round d (bytes_of ''exit'' @ 13 # []) m con =
      Inr (if bytes_of ''exit'' = bytes_of ''exit'' then Exits [] (con @ transcript (bytes_of ''exit'')) else Prompts [] m' (con @ transcript (bytes_of ''exit'')))"
    by (rule round_answers [OF assms])
  then show ?thesis by (subst shell_main.simps) (simp add: transcript_def reply_def)
qed

lemma small_arrays: "arrays_apart 0x1009e00 small_shell"
proof -
  have "span 0x1009f00 128 \<inter> span 0x1009e00 32 = {}" "span 0x1001000 6 \<inter> span 0x1009e00 32 = {}" "span 0x1001010 5 \<inter> span 0x1009e00 32 = {}"
    by (rule span_disjoint; simp)+
  then show ?thesis by (simp add: arrays_apart_def small_shell_def)
qed

theorem shell_runs_on_kernel_witness:
  "\<exists>polls' s'. sys_shell_main 0x1000040 0x1009e00 small_shell [- 1, 101, 120, - 1, 105, 116, 13] shell_mem (three_sys\<lparr>procs := three_procs[2 := no_process]\<rparr>) =
      Some (Inr (Round_exits polls' s')) \<and> state (procs s' ! 1) = PROC_EXITED \<and> current_proc s' \<noteq> Some 1"
proof -
  let ?ps = "three_procs[2 := no_process]" and ?s = "three_sys\<lparr>procs := three_procs[2 := no_process]\<rparr>"
  have "table_ok 0 ?ps" "in_use ?ps 1" "\<forall>j < 8. runnable ?ps j \<longleftrightarrow> j = 1"
    by (auto simp: table_ok_def in_use_def runnable_def three_procs_def no_process_def PROCS_MAX_def PROC_RUNNABLE_def PROC_UNUSED_def less_8)
  moreover have c: "idle_proc ?s = Some 0" "current_proc ?s = Some 1" by (simp_all add: three_sys_def)
  ultimately have "alone ?s" by (simp add: alone_def)
  note T = shell_runs_on_kernel [OF this small_literals small_arrays, where polls = "[- 1, 101, 120, - 1, 105, 116, 13]" and at = "0x1000040"]
  have k: "map ucast (filter (\<lambda>p. 0 \<le> sint p) [- 1 :: u64, 101, 120, - 1, 105, 116, 13]) = bytes_of ''exit'' @ [13]" by simp
  show ?thesis using T unfolding k shell_exits [OF small_literals] by (auto simp: c)
qed

end
