(* ===== verification/Gpu.thy ===== *)
theory Gpu
  imports Virtqueue
begin

text \<open>
  The GPU driver, \<open>drivers/virtio/virtio_gpu.c\<close>: drawing into the framebuffer, the commands it
  sends to the device, and the bouncing square. The global \<open>framebuffer\<close> is the argument \<open>gfb\<close> of the
  drawing routines; their argument \<open>fb\<close> is passed on and never used, as in the code. The commands
  are local variables of the C functions; their addresses are a value of type \<open>gpu_locals\<close>,
  a choice of the compiler.
\<close>

section \<open>Pixels\<close>

definition GPU_DEFAULT_WIDTH :: u32 where "GPU_DEFAULT_WIDTH = 640"
definition GPU_DEFAULT_HEIGHT :: u32 where "GPU_DEFAULT_HEIGHT = 480"

record pixel =
  px_r :: u8
  px_g :: u8
  px_b :: u8
  px_a :: u8

definition load_pixel :: "mem \<Rightarrow> u64 \<Rightarrow> pixel" where
  "load_pixel m a = \<lparr>px_r = m a, px_g = m (a + 1), px_b = m (a + 2), px_a = m (a + 3)\<rparr>"

definition store_pixel :: "mem \<Rightarrow> u64 \<Rightarrow> pixel \<Rightarrow> mem" where
  "store_pixel m a c = m(a := px_r c, a + 1 := px_g c, a + 2 := px_b c, a + 3 := px_a c)"

definition hex_to_rgba :: "u64 \<Rightarrow> pixel" where
  "hex_to_rgba color = \<lparr>px_r = ucast color, px_g = ucast (drop_bit 8 color), px_b = ucast (drop_bit 16 color), px_a = ucast (drop_bit 24 color)\<rparr>"

definition white :: pixel where "white = \<lparr>px_r = 255, px_g = 255, px_b = 255, px_a = 255\<rparr>"
definition black :: pixel where "black = \<lparr>px_r = 0, px_g = 0, px_b = 0, px_a = 255\<rparr>"

text \<open>\<open>framebuffer[y * GPU_DEFAULT_WIDTH + x]\<close>, the index computed in 32 bits.\<close>

definition set_pixel :: "u64 \<Rightarrow> u64 \<Rightarrow> u32 \<Rightarrow> u32 \<Rightarrow> pixel \<Rightarrow> mem \<Rightarrow> mem" where
  "set_pixel gfb fb x y color m =
     (if x < GPU_DEFAULT_WIDTH \<and> y < GPU_DEFAULT_HEIGHT
      then store_pixel m (gfb + 4 * ucast (y * GPU_DEFAULT_WIDTH + x)) color else m)"

lemma unat_Suc_32: "(a :: u32) < b \<Longrightarrow> unat (a + 1) = Suc (unat a)"
  using unat_bound(3) [of b] by (simp add: word_less_nat_alt unat_word_ariths)

text \<open>The two loops of \<open>fill_rect\<close>; \<open>lim\<close> is \<open>x + w\<close> or \<open>y + h\<close>, which may have wrapped around.\<close>

function fill_row :: "u64 \<Rightarrow> u64 \<Rightarrow> u32 \<Rightarrow> u32 \<Rightarrow> u32 \<Rightarrow> pixel \<Rightarrow> mem \<Rightarrow> mem" where
  "fill_row gfb fb row col lim color m =
     (if col < lim then fill_row gfb fb row (col + 1) lim color (set_pixel gfb fb col row color m) else m)"
  by pat_completeness auto
termination
  by (relation "measure (\<lambda>(gfb, fb, row, col, lim, color, m). unat lim - unat col)") (simp_all add: unat_Suc_32 word_less_nat_alt diff_less_mono2)

function fill_rows :: "u64 \<Rightarrow> u64 \<Rightarrow> u32 \<Rightarrow> u32 \<Rightarrow> u32 \<Rightarrow> u32 \<Rightarrow> pixel \<Rightarrow> mem \<Rightarrow> mem" where
  "fill_rows gfb fb x xlim row lim color m =
     (if row < lim then fill_rows gfb fb x xlim (row + 1) lim color (fill_row gfb fb row x xlim color m) else m)"
  by pat_completeness auto
termination
  by (relation "measure (\<lambda>(gfb, fb, x, xlim, row, lim, color, m). unat lim - unat row)") (simp_all add: unat_Suc_32 word_less_nat_alt diff_less_mono2)

declare fill_row.simps [simp del] fill_rows.simps [simp del]

definition fill_rect :: "u64 \<Rightarrow> u64 \<Rightarrow> u32 \<Rightarrow> u32 \<Rightarrow> u32 \<Rightarrow> u32 \<Rightarrow> pixel \<Rightarrow> mem \<Rightarrow> mem" where
  "fill_rect gfb fb x y w h color m = fill_rows gfb fb x (x + w) y (y + h) color m"

definition stroke_rect :: "u64 \<Rightarrow> u64 \<Rightarrow> u32 \<Rightarrow> u32 \<Rightarrow> u32 \<Rightarrow> u32 \<Rightarrow> pixel \<Rightarrow> u32 \<Rightarrow> mem \<Rightarrow> mem" where
  "stroke_rect gfb fb x y w h color sz m =
     (let m = fill_rect gfb fb x y w sz color m;
          m = fill_rect gfb fb x (y + h) w sz color m;
          m = fill_rect gfb fb x y sz h color m
      in fill_rect gfb fb (x + w) y sz (h + sz) color m)"

definition draw_rect :: "u64 \<Rightarrow> u64 \<Rightarrow> u32 \<Rightarrow> u32 \<Rightarrow> u32 \<Rightarrow> u32 \<Rightarrow> u32 \<Rightarrow> pixel \<Rightarrow> mem \<Rightarrow> mem" where
  "draw_rect gfb fb x y w h sz color m =
     (if sz = 0 then fill_rect gfb fb x y w h color m else stroke_rect gfb fb x y w h color sz m)"

definition clear_screen :: "u64 \<Rightarrow> mem \<Rightarrow> mem" where
  "clear_screen gfb m = fold (\<lambda>i m. store_pixel m (gfb + 4 * of_nat i) white) [0..<480 * 640] m"

section \<open>Commands\<close>

definition VIRTIO_DEVICE_GPU :: u32 where "VIRTIO_DEVICE_GPU = 16"
definition VIRTIO_GPU_CMD_RESOURCE_CREATE_2D :: u32 where "VIRTIO_GPU_CMD_RESOURCE_CREATE_2D = 0x101"
definition VIRTIO_GPU_CMD_SET_SCANOUT :: u32 where "VIRTIO_GPU_CMD_SET_SCANOUT = 0x103"
definition VIRTIO_GPU_CMD_RESOURCE_FLUSH :: u32 where "VIRTIO_GPU_CMD_RESOURCE_FLUSH = 0x104"
definition VIRTIO_GPU_CMD_TRANSFER_TO_HOST_2D :: u32 where "VIRTIO_GPU_CMD_TRANSFER_TO_HOST_2D = 0x105"
definition VIRTIO_GPU_CMD_RESOURCE_ATTACH_BACKING :: u32 where "VIRTIO_GPU_CMD_RESOURCE_ATTACH_BACKING = 0x106"
definition VIRTIO_GPU_RESP_OK_NODATA :: u64 where "VIRTIO_GPU_RESP_OK_NODATA = 0x1100"
definition VIRTIO_GPU_FORMAT_R8G8B8A8_UNORM :: u32 where "VIRTIO_GPU_FORMAT_R8G8B8A8_UNORM = 67"

definition GPU_HDR_SIZE :: u64 where "GPU_HDR_SIZE = 24"
definition CREATE_2D_SIZE :: u32 where "CREATE_2D_SIZE = 40"
definition ATTACH_BACKING_SIZE :: u32 where "ATTACH_BACKING_SIZE = 32"
definition MEM_ENTRY_SIZE :: u32 where "MEM_ENTRY_SIZE = 16"
definition SET_SCANOUT_SIZE :: u32 where "SET_SCANOUT_SIZE = 48"
definition TRANSFER_SIZE :: u32 where "TRANSFER_SIZE = 56"
definition FLUSH_SIZE :: u32 where "FLUSH_SIZE = 48"

text \<open>The globals of the driver, and the addresses of the local variables.\<close>

record gpu =
  gpu_request_vq :: u64
  gpu_req :: u64
  gpu_req_paddr :: u32
  framebuffer :: u64

record gpu_locals =
  create2d_at :: u64
  attach_at :: u64
  mem_entry_at :: u64
  scanout_at :: u64
  transfer_at :: u64
  flush_at :: u64

text \<open>\<open>struct virtio_gpu_ctrl_hdr\<close> and \<open>struct virtio_gpu_rect\<close>; the word at 20 is \<open>ring_idx\<close> and its padding.\<close>

definition put_hdr :: "u64 \<Rightarrow> u32 \<Rightarrow> mem \<Rightarrow> mem" where
  "put_hdr a ty m =
     (let m = store32 m a ty; m = store32 m (a + 4) 0; m = store64 m (a + 8) 0; m = store32 m (a + 16) 0
      in store32 m (a + 20) 0)"

definition put_rect :: "u64 \<Rightarrow> mem \<Rightarrow> mem" where
  "put_rect a m =
     (let m = store32 m a 0; m = store32 m (a + 4) 0; m = store32 m (a + 8) GPU_DEFAULT_WIDTH
      in store32 m (a + 12) GPU_DEFAULT_HEIGHT)"

definition put_create2d :: "u64 \<Rightarrow> mem \<Rightarrow> mem" where
  "put_create2d a m =
     (let m = put_hdr a VIRTIO_GPU_CMD_RESOURCE_CREATE_2D m; m = store32 m (a + 24) 1;
          m = store32 m (a + 28) VIRTIO_GPU_FORMAT_R8G8B8A8_UNORM; m = store32 m (a + 32) GPU_DEFAULT_WIDTH
      in store32 m (a + 36) GPU_DEFAULT_HEIGHT)"

definition put_attach :: "u64 \<Rightarrow> mem \<Rightarrow> mem" where
  "put_attach a m =
     (let m = put_hdr a VIRTIO_GPU_CMD_RESOURCE_ATTACH_BACKING m; m = store32 m (a + 24) 1 in store32 m (a + 28) 1)"

definition put_mem_entry :: "u64 \<Rightarrow> u64 \<Rightarrow> mem \<Rightarrow> mem" where
  "put_mem_entry a fb m =
     (let m = store64 m a fb; m = store32 m (a + 8) (GPU_DEFAULT_HEIGHT * GPU_DEFAULT_WIDTH * 4) in store32 m (a + 12) 0)"

definition put_scanout :: "u64 \<Rightarrow> mem \<Rightarrow> mem" where
  "put_scanout a m =
     (let m = put_hdr a VIRTIO_GPU_CMD_SET_SCANOUT m; m = put_rect (a + 24) m; m = store32 m (a + 40) 0 in store32 m (a + 44) 1)"

definition put_transfer :: "u64 \<Rightarrow> mem \<Rightarrow> mem" where
  "put_transfer a m =
     (let m = put_hdr a VIRTIO_GPU_CMD_TRANSFER_TO_HOST_2D m; m = put_rect (a + 24) m; m = store64 m (a + 40) 0;
          m = store32 m (a + 48) 1
      in store32 m (a + 52) 0)"

definition put_flush :: "u64 \<Rightarrow> mem \<Rightarrow> mem" where
  "put_flush a m =
     (let m = put_hdr a VIRTIO_GPU_CMD_RESOURCE_FLUSH m; m = put_rect (a + 24) m; m = store32 m (a + 40) 1 in store32 m (a + 44) 0)"

text \<open>
  Where the code expects the response: \<open>sizeof\<close> many words of eight bytes behind the command, since
  the pointer is cast to \<open>uint64_t *\<close> before \<open>sizeof\<close> is added.
\<close>

definition resp_after :: "u64 \<Rightarrow> u32 \<Rightarrow> u64" where
  "resp_after cmd n = cmd + 8 * ucast n"

text \<open>The chains of two and of three descriptors; the last one is for the device's answer of eight bytes.\<close>

definition chain_two :: "u64 \<Rightarrow> u64 \<Rightarrow> u32 \<Rightarrow> u64 \<Rightarrow> mem \<Rightarrow> mem" where
  "chain_two vq cmd len resp m =
     (let m = set_desc_next vq 0 1 (set_desc vq 0 cmd len VIRTQ_DESC_F_NEXT m)
      in set_desc vq 1 resp 8 VIRTQ_DESC_F_WRITE m)"

definition chain_three :: "u64 \<Rightarrow> u64 \<Rightarrow> u32 \<Rightarrow> u64 \<Rightarrow> u32 \<Rightarrow> u64 \<Rightarrow> mem \<Rightarrow> mem" where
  "chain_three vq cmd len cmd2 len2 resp m =
     (let m = set_desc_next vq 0 1 (set_desc vq 0 cmd len VIRTQ_DESC_F_NEXT m);
          m = set_desc_next vq 1 2 (set_desc vq 1 cmd2 len2 VIRTQ_DESC_F_NEXT m)
      in set_desc vq 2 resp 8 VIRTQ_DESC_F_WRITE m)"

text \<open>\<open>virtq_kick\<close>, the wait and the check of the answer, which prints a warning and goes on.\<close>

definition gpu_submit :: "'d bus \<Rightarrow> u64 \<Rightarrow> u64 \<Rightarrow> string \<Rightarrow> mem \<Rightarrow> 'd vst \<Rightarrow> 'd vst res" where
  "gpu_submit bus vq resp warning m v =
     bind_res (or_hang (wait_idle bus vq (virtq_kick bus 1 vq 0 (v\<lparr>vlib := (vlib v)\<lparr>kmem := m\<rparr>\<rparr>)))) (\<lambda>v.
       let answer = load64 (kmem (vlib v)) resp
       in if answer \<noteq> VIRTIO_GPU_RESP_OK_NODATA
          then bind_res (printf (kmem (vlib v)) warning [answer] (console (vlib v)))
                 (\<lambda>con. Inr (v\<lparr>vlib := (vlib v)\<lparr>console := con\<rparr>\<rparr>))
          else Inr v)"

definition gpu_create_resource :: "'d bus \<Rightarrow> gpu_locals \<Rightarrow> u64 \<Rightarrow> 'd vst \<Rightarrow> 'd vst res" where
  "gpu_create_resource bus lo vq v =
     (let a = create2d_at lo; resp = resp_after a CREATE_2D_SIZE
      in gpu_submit bus vq resp (''virtio_gpu: warn: invalid resource: 0x%x'' @ [CHR 0x0A])
           (chain_two vq a CREATE_2D_SIZE resp (put_create2d a (kmem (vlib v)))) v)"

definition gpu_attach_backing :: "'d bus \<Rightarrow> gpu_locals \<Rightarrow> u64 \<Rightarrow> u64 \<Rightarrow> 'd vst \<Rightarrow> 'd vst res" where
  "gpu_attach_backing bus lo vq fb v =
     (let a = attach_at lo; e = mem_entry_at lo; resp = resp_after a ATTACH_BACKING_SIZE
      in gpu_submit bus vq resp (''virtio_gpu: warn: invalid backing: 0x%x'' @ [CHR 0x0A])
           (chain_three vq a ATTACH_BACKING_SIZE e MEM_ENTRY_SIZE resp (put_mem_entry e fb (put_attach a (kmem (vlib v))))) v)"

definition gpu_set_scanout :: "'d bus \<Rightarrow> gpu_locals \<Rightarrow> u64 \<Rightarrow> 'd vst \<Rightarrow> 'd vst res" where
  "gpu_set_scanout bus lo vq v =
     (let a = scanout_at lo; resp = resp_after a SET_SCANOUT_SIZE
      in gpu_submit bus vq resp (''virtio_gpu: warn: invalid scan out: 0x%x'' @ [CHR 0x0A])
           (chain_two vq a SET_SCANOUT_SIZE resp (put_scanout a (kmem (vlib v)))) v)"

text \<open>\<open>virtio_gpu_init\<close> up to its call of \<open>bounce\<close>, which does not return.\<close>

definition virtio_gpu_init :: "'d bus \<Rightarrow> gpu_locals \<Rightarrow> 'd vst \<Rightarrow> (gpu \<times> 'd vst) res" where
  "virtio_gpu_init bus lo v =
     (if virtio_reg_read32 bus 1 VIRTR_MAGIC_O v \<noteq> VIRTIO_MAGIC_NUMBER then Inl (Panic ''virtio: invalid magic value!'' [])
      else if virtio_reg_read32 bus 1 VIRTR_VERSION_O v \<noteq> 1 then Inl (Panic ''virtio: invalid version'' [])
      else if virtio_reg_read32 bus 1 VIRTR_DEV_ID_O v \<noteq> VIRTIO_DEVICE_GPU then Inl (Panic ''virtio: invalid device id'' [])
      else
        let v = virtio_reg_write32 bus 1 VIRTR_DEV_STATUS_O 0 v;
            v = virtio_reg_fetch_and_or32 bus 1 VIRTR_DEV_STATUS_O VIRTIO_STATUS_ACKNOWLEDGE v;
            v = virtio_reg_fetch_and_or32 bus 1 VIRTR_DEV_STATUS_O VIRTIO_STATUS_DRIVER v;
            v = virtio_reg_fetch_and_or32 bus 1 VIRTR_DEV_STATUS_O VIRTIO_STATUS_FEATURES_OK v
        in bind_res (virtq_init bus 1 0 v) (\<lambda>(vq, v).
          let v = virtio_reg_write32 bus 1 VIRTR_DEV_STATUS_O VIRTIO_STATUS_DRIVER_OK v
          in bind_res (kalloc (align_up GPU_HDR_SIZE PAGE_SIZE div PAGE_SIZE) (vlib v)) (\<lambda>(page, k).
            let paddr = (ucast page :: u32)
            in if paddr = 0 then Inl (Panic ''virtio-gpu: out of memory'' [])
               else
                 bind_res (gpu_create_resource bus lo vq (v\<lparr>vlib := k\<rparr>)) (\<lambda>v.
                 bind_res (kalloc (align_up (4 * ucast GPU_DEFAULT_HEIGHT * ucast GPU_DEFAULT_WIDTH) PAGE_SIZE div PAGE_SIZE) (vlib v)) (\<lambda>(fb, k).
                 bind_res (gpu_attach_backing bus lo vq fb (v\<lparr>vlib := k\<rparr>)) (\<lambda>v.
                 bind_res (gpu_set_scanout bus lo vq v) (\<lambda>v.
                 bind_res (printf (kmem (vlib v)) (''virtio_gpu: initialized.'' @ [CHR 0x0A]) [] (console (vlib v))) (\<lambda>con.
                   Inr (\<lparr>gpu_request_vq = vq, gpu_req = ucast paddr, gpu_req_paddr = paddr, framebuffer = fb\<rparr>,
                        v\<lparr>vlib := (vlib v)\<lparr>console := con\<rparr>\<rparr>)))))))))"

text \<open>
  \<open>flush\<close>: its first answer is expected in the command itself, and the second descriptor has the size of
  the pointer \<open>framebuffer\<close> as its length.
\<close>

definition gpu_transfer :: "'d bus \<Rightarrow> gpu_locals \<Rightarrow> gpu \<Rightarrow> 'd vst \<Rightarrow> 'd vst res" where
  "gpu_transfer bus lo g v =
     (let a = transfer_at lo; vq = gpu_request_vq g
      in gpu_submit bus vq a (''virtio_gpu: warn: invalid response: 0x%x'' @ [CHR 0x0A])
           (chain_three vq a TRANSFER_SIZE (framebuffer g) 8 a (put_transfer a (kmem (vlib v)))) v)"

definition flush :: "'d bus \<Rightarrow> gpu_locals \<Rightarrow> gpu \<Rightarrow> 'd vst \<Rightarrow> 'd vst res" where
  "flush bus lo g v =
     bind_res (gpu_transfer bus lo g v) (\<lambda>v.
       let a = flush_at lo; vq = gpu_request_vq g; resp = resp_after a FLUSH_SIZE
       in gpu_submit bus vq resp (''virtio_gpu: warn: invalid response: 0x%x'' @ [CHR 0x0A])
            (chain_two vq a FLUSH_SIZE resp (put_flush a (kmem (vlib v)))) v)"

section \<open>The bouncing square\<close>

text \<open>The variables of \<open>bounce\<close>; \<open>x\<close> and \<open>y\<close> are \<open>int\<close>, in two's complement. One iteration, and \<open>n\<close> of them.\<close>

record ball =
  ball_x :: u32
  ball_y :: u32
  is_left :: bool
  is_down :: bool

definition bounce_start :: ball where
  "bounce_start = \<lparr>ball_x = 0, ball_y = 0, is_left = False, is_down = True\<rparr>"

definition bounce_move :: "ball \<Rightarrow> ball" where
  "bounce_move b =
     (let x = (if is_left b then ball_x b - 1 else ball_x b + 1);
          y = (if is_down b then ball_y b + 1 else ball_y b - 1)
      in \<lparr>ball_x = x, ball_y = y,
          is_left = (if x = 0 \<or> x = 640 - 64 then \<not> is_left b else is_left b),
          is_down = (if y = 0 \<or> y = 480 - 64 then \<not> is_down b else is_down b)\<rparr>)"

definition bounce_iteration :: "'d bus \<Rightarrow> gpu_locals \<Rightarrow> gpu \<Rightarrow> ball \<times> 'd vst \<Rightarrow> (ball \<times> 'd vst) res" where
  "bounce_iteration bus lo g s =
     (case s of (b, v) \<Rightarrow>
        let fb = framebuffer g; m = clear_screen fb (kmem (vlib v)); b = bounce_move b;
            m = draw_rect fb fb (ball_x b) (ball_y b) 64 64 0 black m
        in bind_res (flush bus lo g (v\<lparr>vlib := (vlib v)\<lparr>kmem := m\<rparr>\<rparr>)) (\<lambda>v. Inr (b, v)))"

primrec bounce :: "'d bus \<Rightarrow> gpu_locals \<Rightarrow> gpu \<Rightarrow> nat \<Rightarrow> 'd vst \<Rightarrow> (ball \<times> 'd vst) res" where
  "bounce bus lo g 0 v = Inr (bounce_start, v)"
| "bounce bus lo g (Suc n) v = bind_res (bounce bus lo g n v) (bounce_iteration bus lo g)"

end
