(* ===== verification/Gpu_Screen.thy ===== *)
theory Gpu_Screen
  imports Gpu
begin

text \<open>
  The picture that the framebuffer holds and what the drawing routines do to it, and the path of the
  bouncing square.
\<close>

section \<open>The screen\<close>

text \<open>The picture that memory holds, column \<open>x\<close> and row \<open>y\<close>.\<close>

definition screen :: "mem \<Rightarrow> u64 \<Rightarrow> nat \<Rightarrow> nat \<Rightarrow> pixel" where
  "screen m fb x y = load_pixel m (fb + 4 * of_nat (640 * y + x))"

lemma pixel_span: "z \<notin> span a 4 \<Longrightarrow> store_pixel m a c z = m z"
  by (auto simp: store_pixel_def span_def)

lemma load_store_pixel: "load_pixel (store_pixel m a c) a = c"
  by (simp add: load_pixel_def store_pixel_def)

lemma load_pixel_cong: "(\<And>z. z \<in> span a 4 \<Longrightarrow> m' z = m z) \<Longrightarrow> load_pixel m' a = load_pixel m a"
  by (simp add: load_pixel_def span_def)

lemma unat_4_of_nat: "i < 307200 \<Longrightarrow> unat (4 * of_nat i :: u64) = 4 * i"
  using unat_of_nat_64 [of "4 * i"] by simp

lemma load_other_pixel:
  assumes "i < 307200" "j < 307200" "i \<noteq> j"
  shows "load_pixel (store_pixel m (fb + 4 * of_nat i) c) (fb + 4 * of_nat j) = load_pixel m (fb + 4 * of_nat j)"
proof -
  have "span (fb + 4 * of_nat i) 4 \<inter> span (fb + 4 * of_nat j) 4 = {}"
  proof (cases "i < j")
    case True
    then show ?thesis using assms by (intro fields_apart) (simp_all add: unat_4_of_nat)
  next
    case False
    then show ?thesis using assms by (intro fields_apart_sym) (simp_all add: unat_4_of_nat)
  qed
  then show ?thesis by (intro load_pixel_cong pixel_span) blast
qed

lemma index_inj: "x < 640 \<Longrightarrow> x' < 640 \<Longrightarrow> 640 * y + x = 640 * y' + x' \<longleftrightarrow> x = x' \<and> y = (y' :: nat)"
proof
  assume "x < 640" "x' < 640" "640 * y + x = 640 * y' + x'"
  then have "(640 * y + x) div 640 = (640 * y' + x') div 640" "(640 * y + x) mod 640 = (640 * y' + x') mod 640" by simp_all
  then show "x = x' \<and> y = y'" using \<open>x < 640\<close> \<open>x' < 640\<close> by simp
qed simp

lemma index_less: "x < 640 \<Longrightarrow> y < 480 \<Longrightarrow> 640 * y + x < (307200 :: nat)"
  by linarith

lemma set_pixel_addr:
  assumes "unat x < 640" "unat y < 480"
  shows "(4 * ucast (y * GPU_DEFAULT_WIDTH + x :: u32) :: u64) = 4 * of_nat (640 * unat y + unat x)"
proof -
  have less: "640 * unat y + unat x < 2 ^ 32" using index_less [OF assms] by simp
  have "unat (y * GPU_DEFAULT_WIDTH + x) = 640 * unat y + unat x"
    using less by (simp add: GPU_DEFAULT_WIDTH_def unat_word_ariths mult.commute)
  then have "unat (ucast (y * GPU_DEFAULT_WIDTH + x) :: u64) = unat (of_nat (640 * unat y + unat x) :: u64)"
    using less by (simp only: unat_ucast_32_64) (simp add: unat_of_nat_64 del: of_nat_add of_nat_mult)
  then have "(ucast (y * GPU_DEFAULT_WIDTH + x) :: u64) = of_nat (640 * unat y + unat x)" by (simp only: word_unat_eq_iff)
  then show ?thesis by simp
qed

lemma set_pixel_screen:
  assumes "px < 640" "py < 480"
  shows "screen (set_pixel gfb fb x y c m) gfb px py = (if unat x = px \<and> unat y = py then c else screen m gfb px py)"
proof (cases "unat x < 640 \<and> unat y < 480")
  case True
  then have i: "640 * unat y + unat x < 307200" "640 * py + px < 307200" using assms index_less by simp_all
  have s: "set_pixel gfb fb x y c m = store_pixel m (gfb + 4 * of_nat (640 * unat y + unat x)) c"
    using True set_pixel_addr [of x y] by (simp add: set_pixel_def GPU_DEFAULT_WIDTH_def GPU_DEFAULT_HEIGHT_def word_less_nat_alt)
  show ?thesis
    using load_other_pixel [OF i] load_store_pixel index_inj [of "unat x" px "unat y" py] True assms unfolding screen_def s by auto
next
  case False
  then show ?thesis using assms by (auto simp: set_pixel_def GPU_DEFAULT_WIDTH_def GPU_DEFAULT_HEIGHT_def word_less_nat_alt)
qed

lemma pixel_in_buffer: "z \<notin> span fb 1228800 \<Longrightarrow> i < 307200 \<Longrightarrow> z \<notin> span (fb + 4 * of_nat i) 4"
  by (erule not_in_field) (simp_all add: unat_4_of_nat)

lemma set_pixel_other: "z \<notin> span gfb 1228800 \<Longrightarrow> set_pixel gfb fb x y c m z = m z"
  using set_pixel_addr [of x y] index_less [of "unat x" "unat y"] pixel_in_buffer [of z gfb "640 * unat y + unat x"]
  by (simp add: set_pixel_def GPU_DEFAULT_WIDTH_def GPU_DEFAULT_HEIGHT_def word_less_nat_alt pixel_span)

lemma fill_row_screen:
  assumes "px < 640" "py < 480"
  shows "screen (fill_row gfb fb row col lim c m) gfb px py =
    (if py = unat row \<and> unat col \<le> px \<and> px < unat lim then c else screen m gfb px py)"
proof (induction gfb fb row col lim c m rule: fill_row.induct)
  case (1 gfb fb row col lim c m)
  show ?case
  proof (cases "col < lim")
    case True
    then have "fill_row gfb fb row col lim c m = fill_row gfb fb row (col + 1) lim c (set_pixel gfb fb col row c m)"
      by (subst fill_row.simps) simp
    then show ?thesis
      using "1.IH" [OF True] True unat_Suc_32 [OF True] assms by (auto simp: set_pixel_screen word_less_nat_alt)
  next
    case False
    then show ?thesis by (subst fill_row.simps) (auto simp: word_less_nat_alt)
  qed
qed

lemma fill_rows_screen:
  assumes "px < 640" "py < 480"
  shows "screen (fill_rows gfb fb x xlim row lim c m) gfb px py =
    (if unat row \<le> py \<and> py < unat lim \<and> unat x \<le> px \<and> px < unat xlim then c else screen m gfb px py)"
proof (induction gfb fb x xlim row lim c m rule: fill_rows.induct)
  case (1 gfb fb x xlim row lim c m)
  show ?case
  proof (cases "row < lim")
    case True
    then have "fill_rows gfb fb x xlim row lim c m = fill_rows gfb fb x xlim (row + 1) lim c (fill_row gfb fb row x xlim c m)"
      by (subst fill_rows.simps) simp
    then show ?thesis
      using "1.IH" [OF True] True unat_Suc_32 [OF True] assms by (auto simp: fill_row_screen word_less_nat_alt)
  next
    case False
    then show ?thesis by (subst fill_rows.simps) (auto simp: word_less_nat_alt)
  qed
qed

lemma fill_row_other: "z \<notin> span gfb 1228800 \<Longrightarrow> fill_row gfb fb row col lim c m z = m z"
proof (induction gfb fb row col lim c m rule: fill_row.induct)
  case (1 gfb fb row col lim c m)
  then show ?case by (subst fill_row.simps) (simp add: set_pixel_other)
qed

lemma fill_rows_other: "z \<notin> span gfb 1228800 \<Longrightarrow> fill_rows gfb fb x xlim row lim c m z = m z"
proof (induction gfb fb x xlim row lim c m rule: fill_rows.induct)
  case (1 gfb fb x xlim row lim c m)
  then show ?case by (subst fill_rows.simps) (simp add: fill_row_other)
qed

text \<open>A rectangle of pixels, whose limits are computed in 32 bits.\<close>

definition in_rect :: "u32 \<Rightarrow> u32 \<Rightarrow> u32 \<Rightarrow> u32 \<Rightarrow> nat \<Rightarrow> nat \<Rightarrow> bool" where
  "in_rect x y w h px py \<longleftrightarrow> unat x \<le> px \<and> px < unat (x + w) \<and> unat y \<le> py \<and> py < unat (y + h)"

lemma fill_rect_screen:
  "px < 640 \<Longrightarrow> py < 480 \<Longrightarrow> screen (fill_rect gfb fb x y w h c m) gfb px py = (if in_rect x y w h px py then c else screen m gfb px py)"
  by (auto simp: fill_rect_def fill_rows_screen in_rect_def)

lemma fill_rect_other: "z \<notin> span gfb 1228800 \<Longrightarrow> fill_rect gfb fb x y w h c m z = m z"
  by (simp add: fill_rect_def fill_rows_other)

lemma clear_loop:
  "n \<le> 307200 \<Longrightarrow> i < 307200 \<Longrightarrow>
    load_pixel (fold (\<lambda>i m. store_pixel m (fb + 4 * of_nat i) white) [0..<n] m) (fb + 4 * of_nat i) =
    (if i < n then white else load_pixel m (fb + 4 * of_nat i))"
proof (induction n)
  case (Suc n)
  show ?case
  proof (cases "i = n")
    case False
    then show ?thesis using Suc by (simp add: load_other_pixel less_Suc_eq)
  qed (simp add: load_store_pixel)
qed simp

lemma clear_screen_white: "px < 640 \<Longrightarrow> py < 480 \<Longrightarrow> screen (clear_screen fb m) fb px py = white"
  using index_less [of px py] clear_loop [of "480 * 640" "640 * py + px" fb m] by (simp add: screen_def clear_screen_def)


lemma clear_screen_other: "z \<notin> span fb 1228800 \<Longrightarrow> clear_screen fb m z = m z"
proof -
  assume z: "z \<notin> span fb 1228800"
  have "n \<le> 307200 \<Longrightarrow> fold (\<lambda>i m. store_pixel m (fb + 4 * of_nat i) white) [0..<n] m z = m z" for n
    using z by (induction n) (simp_all add: pixel_span pixel_in_buffer)
  then show ?thesis by (simp add: clear_screen_def)
qed

lemma draw_rect_other: "z \<notin> span gfb 1228800 \<Longrightarrow> draw_rect gfb fb x y w h sz c m z = m z"
  by (simp add: draw_rect_def stroke_rect_def Let_def fill_rect_other)

section \<open>The path of the square\<close>

text \<open>A coordinate that runs to and fro between \<open>0\<close> and \<open>M\<close>, after \<open>n\<close> steps.\<close>

definition to_and_fro :: "nat \<Rightarrow> nat \<Rightarrow> nat" where
  "to_and_fro M n = (let k = n mod (2 * M) in if k \<le> M then k else 2 * M - k)"

lemma of_nat_eq_32: "a < 2 ^ 32 \<Longrightarrow> b < 2 ^ 32 \<Longrightarrow> (of_nat a :: u32) = of_nat b \<longleftrightarrow> a = b"
  by (auto simp: word_unat_eq_iff unat_of_nat)

lemma to_and_fro_le: "0 < M \<Longrightarrow> to_and_fro M n \<le> M"
  by (auto simp: to_and_fro_def Let_def)

lemma to_and_fro_Suc:
  assumes "0 < M" "M < 2 ^ 31"
  shows "(if M \<le> n mod (2 * M) then of_nat (to_and_fro M n) - 1 else of_nat (to_and_fro M n) + 1 :: u32) = of_nat (to_and_fro M (Suc n))"
    "(of_nat (to_and_fro M (Suc n)) :: u32) = 0 \<or> (of_nat (to_and_fro M (Suc n)) :: u32) = of_nat M \<longleftrightarrow>
       (M \<le> Suc n mod (2 * M)) \<noteq> (M \<le> n mod (2 * M))"
proof -
  have k: "n mod (2 * M) < 2 * M" using assms(1) by simp
  have S: "Suc n mod (2 * M) = (if Suc (n mod (2 * M)) = 2 * M then 0 else Suc (n mod (2 * M)))" by (rule mod_Suc)
  have t: "to_and_fro M (Suc n) \<le> M" using to_and_fro_le [OF assms(1)] .
  show "(if M \<le> n mod (2 * M) then of_nat (to_and_fro M n) - 1 else of_nat (to_and_fro M n) + 1 :: u32) = of_nat (to_and_fro M (Suc n))"
  proof (cases "M \<le> n mod (2 * M)")
    case True
    then have "to_and_fro M n = Suc (to_and_fro M (Suc n))" using k S by (auto simp: to_and_fro_def Let_def)
    then show ?thesis using True by simp
  next
    case False
    then have "to_and_fro M (Suc n) = Suc (to_and_fro M n)" using k S by (auto simp: to_and_fro_def Let_def)
    then show ?thesis using False by (simp add: add.commute)
  qed
  have "(of_nat (to_and_fro M (Suc n)) :: u32) = 0 \<longleftrightarrow> to_and_fro M (Suc n) = 0"
    "(of_nat (to_and_fro M (Suc n)) :: u32) = of_nat M \<longleftrightarrow> to_and_fro M (Suc n) = M"
    using of_nat_eq_32 [of "to_and_fro M (Suc n)" 0] of_nat_eq_32 [of "to_and_fro M (Suc n)" M] t assms(2) by simp_all
  then show "(of_nat (to_and_fro M (Suc n)) :: u32) = 0 \<or> (of_nat (to_and_fro M (Suc n)) :: u32) = of_nat M \<longleftrightarrow>
       (M \<le> Suc n mod (2 * M)) \<noteq> (M \<le> n mod (2 * M))"
    using k S assms(1) mod_less_divisor [of "2 * M" "Suc n"] by (auto simp: to_and_fro_def Let_def split: if_splits)
qed

definition ball_at :: "nat \<Rightarrow> ball" where
  "ball_at n = \<lparr>ball_x = of_nat (to_and_fro 576 n), ball_y = of_nat (to_and_fro 416 n),
     is_left = (576 \<le> n mod 1152), is_down = (\<not> 416 \<le> n mod 832)\<rparr>"

lemma bounce_move_at: "bounce_move (ball_at n) = ball_at (Suc n)"
proof -
  have x: "(if 576 \<le> n mod 1152 then of_nat (to_and_fro 576 n) - 1 else of_nat (to_and_fro 576 n) + 1 :: u32) = of_nat (to_and_fro 576 (Suc n))"
    "(of_nat (to_and_fro 576 (Suc n)) :: u32) = 0 \<or> (of_nat (to_and_fro 576 (Suc n)) :: u32) = 576 \<longleftrightarrow> (576 \<le> Suc n mod 1152) \<noteq> (576 \<le> n mod 1152)"
    using to_and_fro_Suc [of 576 n] by simp_all
  have y: "(if \<not> 416 \<le> n mod 832 then of_nat (to_and_fro 416 n) + 1 else of_nat (to_and_fro 416 n) - 1 :: u32) = of_nat (to_and_fro 416 (Suc n))"
    "(of_nat (to_and_fro 416 (Suc n)) :: u32) = 0 \<or> (of_nat (to_and_fro 416 (Suc n)) :: u32) = 416 \<longleftrightarrow> (416 \<le> Suc n mod 832) \<noteq> (416 \<le> n mod 832)"
    using to_and_fro_Suc [of 416 n] by (simp_all split: if_splits)
  have c: "(640 - 64 :: u32) = 576" "(480 - 64 :: u32) = 416" by simp_all
  have e: "ball_x (ball_at n) = of_nat (to_and_fro 576 n)" "ball_y (ball_at n) = of_nat (to_and_fro 416 n)"
    "is_left (ball_at n) = (576 \<le> n mod 1152)" "is_down (ball_at n) = (\<not> 416 \<le> n mod 832)" by (simp_all add: ball_at_def)
  show ?thesis
    unfolding bounce_move_def Let_def e x(1) y(1) c unfolding x(2) y(2) by (simp add: ball_at_def)
qed

lemma ball_at_0: "ball_at 0 = bounce_start"
  by (simp add: ball_at_def bounce_start_def to_and_fro_def)

end
