(* ===== verification/Gpu_Device.thy ===== *)
theory Gpu_Device
  imports Gpu_Screen
begin

text \<open>
  The GPU driver against a device that behaves as the virtio specification says: the two commands of
  \<open>flush\<close> as the device finds them in memory, one frame, and the sequence of frames.
\<close>

section \<open>Commands and chains in memory\<close>

definition two_chain :: "mem \<Rightarrow> u64 \<Rightarrow> u64 \<Rightarrow> u32 \<Rightarrow> u64 \<Rightarrow> bool" where
  "two_chain m vq cmd len resp \<longleftrightarrow>
     load64 m vq = cmd \<and> load32 m (vq + 8) = len \<and> load16 m (vq + 12) = 1 \<and> load16 m (vq + 14) = 1 \<and>
     load64 m (vq + 16) = resp \<and> load32 m (vq + 24) = 8 \<and> load16 m (vq + 28) = 2"

definition three_chain :: "mem \<Rightarrow> u64 \<Rightarrow> u64 \<Rightarrow> u32 \<Rightarrow> u64 \<Rightarrow> u32 \<Rightarrow> u64 \<Rightarrow> bool" where
  "three_chain m vq cmd len cmd2 len2 resp \<longleftrightarrow>
     load64 m vq = cmd \<and> load32 m (vq + 8) = len \<and> load16 m (vq + 12) = 1 \<and> load16 m (vq + 14) = 1 \<and>
     load64 m (vq + 16) = cmd2 \<and> load32 m (vq + 24) = len2 \<and> load16 m (vq + 28) = 1 \<and> load16 m (vq + 30) = 2 \<and>
     load64 m (vq + 32) = resp \<and> load32 m (vq + 40) = 8 \<and> load16 m (vq + 44) = 2"

lemma chain_two_chain: "two_chain (chain_two vq cmd len resp m) vq cmd len resp"
  unfolding two_chain_def
  by (intro conjI)
    (simp_all add: chain_two_def set_desc_def set_desc_next_def Let_def add.assoc mem_simps apart VIRTQ_DESC_F_NEXT_def VIRTQ_DESC_F_WRITE_def)

lemma chain_three_chain: "three_chain (chain_three vq cmd len cmd2 len2 resp m) vq cmd len cmd2 len2 resp"
  unfolding three_chain_def
  by (intro conjI)
    (simp_all add: chain_three_def set_desc_def set_desc_next_def Let_def add.assoc mem_simps apart VIRTQ_DESC_F_NEXT_def VIRTQ_DESC_F_WRITE_def)

lemma chain_other:
  assumes "z \<notin> span vq 48"
  shows "chain_two vq cmd len resp m z = m z" "chain_three vq cmd len cmd2 len2 resp m z = m z"
  by (simp_all add: chain_two_def chain_three_def set_desc_def set_desc_next_def Let_def add.assoc not_in_field [OF assms] not_in_head [OF assms] store_other)

lemma chains_cong:
  assumes "\<And>z. z \<in> span vq 48 \<Longrightarrow> m' z = m z"
  shows "two_chain m' vq cmd len resp = two_chain m vq cmd len resp"
    "three_chain m' vq cmd len cmd2 len2 resp = three_chain m vq cmd len cmd2 len2 resp"
  using field_cong [of vq 48 m' m, OF assms] head_cong [of vq 48 m' m, OF assms] by (simp_all add: two_chain_def three_chain_def)

text \<open>A command of type \<open>ty\<close> that names the whole picture, and the words behind the rectangle.\<close>

definition whole_command :: "mem \<Rightarrow> u64 \<Rightarrow> u32 \<Rightarrow> bool" where
  "whole_command m a ty \<longleftrightarrow>
     load32 m a = ty \<and> load32 m (a + 4) = 0 \<and> load64 m (a + 8) = 0 \<and> load32 m (a + 16) = 0 \<and> load32 m (a + 20) = 0 \<and>
     load32 m (a + 24) = 0 \<and> load32 m (a + 28) = 0 \<and> load32 m (a + 32) = 640 \<and> load32 m (a + 36) = 480"

lemma put_transfer_command:
  "whole_command (put_transfer a m) a 0x105" "load64 (put_transfer a m) (a + 40) = 0" "load32 (put_transfer a m) (a + 48) = 1"
  unfolding whole_command_def
  by (intro conjI)?
    (simp_all add: put_transfer_def put_hdr_def put_rect_def Let_def add.assoc mem_simps apart GPU_DEFAULT_WIDTH_def GPU_DEFAULT_HEIGHT_def
      VIRTIO_GPU_CMD_TRANSFER_TO_HOST_2D_def)

lemma put_flush_command:
  "whole_command (put_flush a m) a 0x104" "load32 (put_flush a m) (a + 40) = 1"
  unfolding whole_command_def
  by (intro conjI)?
    (simp_all add: put_flush_def put_hdr_def put_rect_def Let_def add.assoc mem_simps apart GPU_DEFAULT_WIDTH_def GPU_DEFAULT_HEIGHT_def
      VIRTIO_GPU_CMD_RESOURCE_FLUSH_def)

lemma put_other:
  "z \<notin> span a 56 \<Longrightarrow> put_transfer a m z = m z"
  "z \<notin> span a 48 \<Longrightarrow> put_flush a m z = m z"
proof -
  assume z: "z \<notin> span a 56"
  show "put_transfer a m z = m z"
    by (simp add: put_transfer_def put_hdr_def put_rect_def Let_def add.assoc store_other not_in_field [OF z] not_in_head [OF z])
next
  assume z: "z \<notin> span a 48"
  show "put_flush a m z = m z"
    by (simp add: put_flush_def put_hdr_def put_rect_def Let_def add.assoc store_other not_in_field [OF z] not_in_head [OF z])
qed

lemma whole_command_cong:
  assumes "\<And>z. z \<in> span a 40 \<Longrightarrow> m' z = m z"
  shows "whole_command m' a ty = whole_command m a ty"
  using field_cong [of a 40 m' m, OF assms] head_cong [of a 40 m' m, OF assms] by (simp add: whole_command_def)

section \<open>The device\<close>

text \<open>
  What the virtio specification says of a GPU, for the two commands of \<open>flush\<close>. The device has resource 1,
  backed by the memory at \<open>fb\<close> and shown on the display; \<open>host\<close> is the resource and \<open>shown\<close> the display. A transfer
  copies the picture from memory to the resource, a flush brings the resource to the display; the device
  answers each with \<open>OK_NODATA\<close> and writes nothing else but the used ring.
\<close>

definition answers :: "('d \<Rightarrow> bool) \<Rightarrow> u64 \<Rightarrow> u64 \<Rightarrow> mem \<Rightarrow> ('d \<Rightarrow> bool) \<Rightarrow> mem \<Rightarrow> 'd \<Rightarrow> bool" where
  "answers I vq resp m res m' d' \<longleftrightarrow> load64 m' resp = 0x1100 \<and> I d' \<and> res d' \<and>
     (\<forall>z. z \<notin> span vq 8192 \<longrightarrow> z \<notin> span resp 8 \<longrightarrow> m' z = m z)"

definition same_picture :: "(nat \<Rightarrow> nat \<Rightarrow> pixel) \<Rightarrow> (nat \<Rightarrow> nat \<Rightarrow> pixel) \<Rightarrow> bool" where
  "same_picture p q \<longleftrightarrow> (\<forall>x < 640. \<forall>y < 480. p x y = q x y)"

definition gpu_serves :: "'d bus \<Rightarrow> ('d \<Rightarrow> bool) \<Rightarrow> u64 \<Rightarrow> u64 \<Rightarrow> ('d \<Rightarrow> nat \<Rightarrow> nat \<Rightarrow> pixel) \<Rightarrow> ('d \<Rightarrow> nat \<Rightarrow> nat \<Rightarrow> pixel) \<Rightarrow> bool" where
  "gpu_serves bus I vq fb host shown \<longleftrightarrow> (\<forall>m d cmd resp.
     I d \<longrightarrow> load16 m (avail_ring_at vq (load16 m (avail_idx_at vq) - 1)) = 0 \<longrightarrow> span vq 8192 \<inter> span resp 8 = {} \<longrightarrow>
     (\<forall>x n. three_chain m vq cmd 56 x n resp \<longrightarrow> whole_command m cmd 0x105 \<longrightarrow> load64 m (cmd + 40) = 0 \<longrightarrow> load32 m (cmd + 48) = 1 \<longrightarrow>
        completes bus 1 vq m d (answers I vq resp m (\<lambda>d'. same_picture (host d') (screen m fb)))) \<and>
     (two_chain m vq cmd 48 resp \<longrightarrow> whole_command m cmd 0x104 \<longrightarrow> load32 m (cmd + 40) = 1 \<longrightarrow>
        completes bus 1 vq m d (answers I vq resp m (\<lambda>d'. host d' = host d \<and> same_picture (shown d') (host d)))))"

text \<open>The driver between two commands: the queue idle, and queue, framebuffer and the two commands in memory of their own.\<close>

definition gpu_areas :: "gpu \<Rightarrow> gpu_locals \<Rightarrow> bool" where
  "gpu_areas g lo \<longleftrightarrow> (let vq = gpu_request_vq g; fb = framebuffer g; t = transfer_at lo; f = flush_at lo in
     span vq 8192 \<inter> span fb 1228800 = {} \<and> span vq 8192 \<inter> span t 56 = {} \<and> span vq 8192 \<inter> span f 48 = {} \<and>
     span vq 8192 \<inter> span (f + 384) 8 = {} \<and> span fb 1228800 \<inter> span t 56 = {} \<and> span fb 1228800 \<inter> span f 48 = {} \<and>
     span fb 1228800 \<inter> span (f + 384) 8 = {})"

lemma gpu_submit_ok:
  assumes "vq_idle vq m" "completes bus 1 vq (kicked vq m) (vdev v) (answers I vq resp (kicked vq m) res)"
  obtains m' d' where "gpu_submit bus vq resp warning m v = Inr (v\<lparr>vlib := (vlib v)\<lparr>kmem := m'\<rparr>, vdev := d'\<rparr>)"
    "vq_idle vq m'" "I d'" "res d'" "\<forall>z. z \<notin> span vq 8192 \<longrightarrow> z \<notin> span resp 8 \<longrightarrow> m' z = m z"
proof -
  obtain m' d' where W: "wait_idle bus vq (virtq_kick bus 1 vq 0 (v\<lparr>vlib := (vlib v)\<lparr>kmem := m\<rparr>\<rparr>)) =
      Some (v\<lparr>vlib := (vlib v)\<lparr>kmem := m'\<rparr>, vdev := d'\<rparr>)" "vq_idle vq m'" "answers I vq resp (kicked vq m) res m' d'"
    using assms by (rule kick_wait)
  have "kicked vq m z = m z" if "z \<notin> span vq 8192" for z using not_in_field [OF that, of 258 34] by (simp add: kicked_other)
  then show thesis
    using that [of d' m'] W(1,2) W(3) [unfolded answers_def] by (simp add: gpu_submit_def Let_def VIRTIO_GPU_RESP_OK_NODATA_def)
qed

text \<open>
  One command, for all five of the driver. \<open>p\<close> is the memory with the command written at \<open>a\<close>, and \<open>c\<close> is \<open>p\<close> with the
  chain of descriptors in the queue. The device, when it is notified, finds the chain of \<open>c\<close> in the queue and the
  memory \<open>p\<close> everywhere else.
\<close>

lemma submit_chain:
  assumes idle: "vq_idle vq m" and c: "\<And>z. z \<notin> span vq 48 \<Longrightarrow> c z = p z"
    and p: "\<And>z. z \<notin> A \<Longrightarrow> p z = m z" "span vq 8192 \<inter> A = {}"
    and dev: "\<And>k. (\<And>z. z \<in> span vq 48 \<Longrightarrow> k z = c z) \<Longrightarrow> (\<And>z. z \<notin> span vq 8192 \<Longrightarrow> k z = p z) \<Longrightarrow>
      load16 k (avail_ring_at vq (load16 k (avail_idx_at vq) - 1)) = 0 \<Longrightarrow> completes bus 1 vq k (vdev v) (answers J vq resp k res)"
  obtains m' d' where "gpu_submit bus vq resp warning c v = Inr (v\<lparr>vlib := (vlib v)\<lparr>kmem := m'\<rparr>, vdev := d'\<rparr>)"
    "vq_idle vq m'" "J d'" "res d'" "\<forall>z. z \<notin> span vq 8192 \<longrightarrow> z \<notin> span resp 8 \<longrightarrow> m' z = p z"
proof -
  have sub: "span (vq + 258) 34 \<subseteq> span vq 8192" "span (vq + 4096) 4096 \<subseteq> span vq 8192" by (rule span_field; simp)+
  have sub48: "span vq 48 \<subseteq> span vq 8192" by (rule span_mono) simp
  have dis: "span vq 48 \<inter> span (vq + 4096) 4096 = {}" "span vq 48 \<inter> span (vq + 258) 34 = {}" by (simp_all add: apart)
  have "c z = m z" if "z \<in> span (vq + 4096) 4096" for z
  proof -
    have "z \<notin> span vq 48" "z \<notin> A" using that dis(1) sub(2) p(2) by blast+
    then show ?thesis using c p(1) by simp
  qed
  then have cidle: "vq_idle vq c" by (intro vq_idle_cong [OF idle]) blast
  have kc: "kicked vq c z = c z" if "z \<in> span vq 48 \<or> z \<notin> span vq 8192" for z
    using that sub(1) dis(2) by (intro kicked_other) blast
  moreover have "c z = p z" if "z \<notin> span vq 8192" for z using that sub48 c by blast
  ultimately have "completes bus 1 vq (kicked vq c) (vdev v) (answers J vq resp (kicked vq c) res)"
    by (intro dev kicked_ring(1)) simp_all
  from gpu_submit_ok [OF cidle this] obtain m' d' where "gpu_submit bus vq resp warning c v = Inr (v\<lparr>vlib := (vlib v)\<lparr>kmem := m'\<rparr>, vdev := d'\<rparr>)"
    "vq_idle vq m'" "J d'" "res d'" "\<forall>z. z \<notin> span vq 8192 \<longrightarrow> z \<notin> span resp 8 \<longrightarrow> m' z = c z" by metis
  then show thesis using that [of d' m'] \<open>\<And>z. z \<notin> span vq 8192 \<Longrightarrow> c z = p z\<close> by simp
qed

section \<open>A frame\<close>

lemma screen_cong:
  assumes "\<And>z. z \<in> span fb 1228800 \<Longrightarrow> m' z = m z"
  shows "same_picture (screen m' fb) (screen m fb)"
  unfolding same_picture_def screen_def
proof (intro allI impI load_pixel_cong)
  fix x y z :: nat and w :: u64
  assume "x < 640" "y < 480" "w \<in> span (fb + 4 * of_nat (640 * y + x)) 4"
  then show "m' w = m w" using assms pixel_in_buffer [of w fb "640 * y + x"] index_less by blast
qed

lemma same_picture_trans: "same_picture p q \<Longrightarrow> same_picture q r \<Longrightarrow> same_picture p r"
  by (simp add: same_picture_def)

lemma same_picture_screen:
  assumes "\<And>z. z \<in> span fb 1228800 \<Longrightarrow> m' z = m z"
  shows "same_picture q (screen m' fb) = same_picture q (screen m fb)"
  using screen_cong [of fb m' m, OF assms] by (simp add: same_picture_def)

lemma gpu_transfer_ok:
  assumes dev: "gpu_serves bus I (gpu_request_vq g) (framebuffer g) host shown" "I (vdev v)"
    and idle: "vq_idle (gpu_request_vq g) (kmem (vlib v))" and areas: "gpu_areas g lo"
  obtains m' d' where "gpu_transfer bus lo g v = Inr (v\<lparr>vlib := (vlib v)\<lparr>kmem := m'\<rparr>, vdev := d'\<rparr>)"
    "vq_idle (gpu_request_vq g) m'" "I d'" "same_picture (host d') (screen (kmem (vlib v)) (framebuffer g))"
    "\<forall>z. z \<notin> span (gpu_request_vq g) 8192 \<longrightarrow> z \<notin> span (transfer_at lo) 56 \<longrightarrow> m' z = kmem (vlib v) z"
proof -
  let ?vq = "gpu_request_vq g" and ?fb = "framebuffer g" and ?t = "transfer_at lo" and ?m = "kmem (vlib v)"
  let ?p = "put_transfer ?t ?m"
  have A: "span ?vq 8192 \<inter> span ?fb 1228800 = {}" "span ?vq 8192 \<inter> span ?t 56 = {}" "span ?fb 1228800 \<inter> span ?t 56 = {}"
    using areas by (simp_all add: gpu_areas_def Let_def)
  have sub: "span ?t 8 \<subseteq> span ?t 56" "span ?t 40 \<subseteq> span ?t 56" by (rule span_mono, simp)+
  have served: "completes bus 1 ?vq k (vdev v) (answers I ?vq ?t k (\<lambda>d'. same_picture (host d') (screen ?m ?fb)))"
    if k: "\<And>z. z \<in> span ?vq 48 \<Longrightarrow> k z = chain_three ?vq ?t 56 ?fb 8 ?t ?p z" "\<And>z. z \<notin> span ?vq 8192 \<Longrightarrow> k z = ?p z"
      "load16 k (avail_ring_at ?vq (load16 k (avail_idx_at ?vq) - 1)) = 0" for k
  proof -
    have kt: "k z = ?p z" if "z \<in> span ?t 56" for z using k(2) that A(2) by blast
    have "k z = ?m z" if "z \<in> span ?fb 1228800" for z
    proof -
      have "z \<notin> span ?vq 8192" "z \<notin> span ?t 56" using that A(1,3) by blast+
      then show ?thesis using k(2) put_other(1) by simp
    qed
    note pic = same_picture_screen [of ?fb k ?m, OF this]
    have req: "three_chain k ?vq ?t 56 ?fb 8 ?t" "whole_command k ?t 0x105" "load64 k (?t + 40) = 0" "load32 k (?t + 48) = 1"
      using chains_cong(2) [OF k(1)] chain_three_chain whole_command_cong [of ?t k ?p, OF kt [OF subsetD [OF sub(2)]]]
        field_cong [of ?t 56 k ?p, OF kt] put_transfer_command by auto
    have "span ?vq 8192 \<inter> span ?t 8 = {}" using A(2) sub(1) by blast
    then have "completes bus 1 ?vq k (vdev v) (answers I ?vq ?t k (\<lambda>d'. same_picture (host d') (screen k ?fb)))"
      using dev(1) [unfolded gpu_serves_def, rule_format, OF dev(2) k(3), THEN conjunct1, rule_format, OF _ req] by simp
    then show ?thesis by (simp only: pic)
  qed
  obtain m' d'
    where S: "gpu_submit bus ?vq ?t (''virtio_gpu: warn: invalid response: 0x%x'' @ [CHR 0x0A]) (chain_three ?vq ?t 56 ?fb 8 ?t ?p) v =
        Inr (v\<lparr>vlib := (vlib v)\<lparr>kmem := m'\<rparr>, vdev := d'\<rparr>)"
      "vq_idle ?vq m'" "I d'" "same_picture (host d') (screen ?m ?fb)" "\<forall>z. z \<notin> span ?vq 8192 \<longrightarrow> z \<notin> span ?t 8 \<longrightarrow> m' z = ?p z"
    by (rule submit_chain [where c = "chain_three ?vq ?t 56 ?fb 8 ?t ?p" and p = ?p and A = "span ?t 56" and J = I and res = "\<lambda>d'. same_picture (host d') (screen ?m ?fb)", OF idle chain_other(2) put_other(1) A(2) served])
  have "m' z = ?m z" if "z \<notin> span ?vq 8192" "z \<notin> span ?t 56" for z
    using S(5) not_in_head [OF that(2), of 8] put_other(1) [of z ?t] that by simp
  then show thesis using that [OF _ S(2-4)] S(1) by (simp add: gpu_transfer_def Let_def TRANSFER_SIZE_def)
qed

lemma flush_ok:
  assumes dev: "gpu_serves bus I (gpu_request_vq g) (framebuffer g) host shown" "I (vdev v)"
    and idle: "vq_idle (gpu_request_vq g) (kmem (vlib v))" and areas: "gpu_areas g lo"
  obtains m' d' where "flush bus lo g v = Inr (v\<lparr>vlib := (vlib v)\<lparr>kmem := m'\<rparr>, vdev := d'\<rparr>)"
    "vq_idle (gpu_request_vq g) m'" "I d'" "same_picture (shown d') (screen (kmem (vlib v)) (framebuffer g))"
    "\<forall>z. z \<notin> span (gpu_request_vq g) 8192 \<longrightarrow> z \<notin> span (transfer_at lo) 56 \<longrightarrow> z \<notin> span (flush_at lo) 48 \<longrightarrow>
       z \<notin> span (flush_at lo + 384) 8 \<longrightarrow> m' z = kmem (vlib v) z"
proof -
  let ?vq = "gpu_request_vq g" and ?fb = "framebuffer g" and ?f = "flush_at lo" and ?r = "flush_at lo + 384"
  obtain m d where T: "gpu_transfer bus lo g v = Inr (v\<lparr>vlib := (vlib v)\<lparr>kmem := m\<rparr>, vdev := d\<rparr>)" "vq_idle ?vq m" "I d"
    "same_picture (host d) (screen (kmem (vlib v)) ?fb)"
    "\<forall>z. z \<notin> span ?vq 8192 \<longrightarrow> z \<notin> span (transfer_at lo) 56 \<longrightarrow> m z = kmem (vlib v) z"
    by (rule gpu_transfer_ok [OF assms])
  let ?v = "v\<lparr>vlib := (vlib v)\<lparr>kmem := m\<rparr>, vdev := d\<rparr>" and ?p = "put_flush ?f m"
  have A: "span ?vq 8192 \<inter> span ?f 48 = {}" "span ?vq 8192 \<inter> span ?r 8 = {}" using areas by (simp_all add: gpu_areas_def Let_def)
  have sub: "span ?f 40 \<subseteq> span ?f 48" by (rule span_mono) simp
  have served: "completes bus 1 ?vq k (vdev ?v) (answers I ?vq ?r k (\<lambda>d'. host d' = host d \<and> same_picture (shown d') (host d)))"
    if k: "\<And>z. z \<in> span ?vq 48 \<Longrightarrow> k z = chain_two ?vq ?f 48 ?r ?p z" "\<And>z. z \<notin> span ?vq 8192 \<Longrightarrow> k z = ?p z"
      "load16 k (avail_ring_at ?vq (load16 k (avail_idx_at ?vq) - 1)) = 0" for k
  proof -
    have kt: "k z = ?p z" if "z \<in> span ?f 48" for z using k(2) that A(1) by blast
    have req: "two_chain k ?vq ?f 48 ?r" "whole_command k ?f 0x104" "load32 k (?f + 40) = 1"
      using chains_cong(1) [OF k(1)] chain_two_chain whole_command_cong [of ?f k ?p, OF kt [OF subsetD [OF sub]]]
        field_cong [of ?f 48 k ?p, OF kt] put_flush_command by auto
    show ?thesis using dev(1) [unfolded gpu_serves_def, rule_format, OF T(3) k(3) A(2), THEN conjunct2, rule_format, OF req] by simp
  qed
  have idle': "vq_idle ?vq m" by (rule T(2))
  obtain m' d'
    where S: "gpu_submit bus ?vq ?r (''virtio_gpu: warn: invalid response: 0x%x'' @ [CHR 0x0A]) (chain_two ?vq ?f 48 ?r ?p) ?v =
        Inr (?v\<lparr>vlib := (vlib ?v)\<lparr>kmem := m'\<rparr>, vdev := d'\<rparr>)"
      "vq_idle ?vq m'" "I d'" "host d' = host d \<and> same_picture (shown d') (host d)" "\<forall>z. z \<notin> span ?vq 8192 \<longrightarrow> z \<notin> span ?r 8 \<longrightarrow> m' z = ?p z"
    by (rule submit_chain [where c = "chain_two ?vq ?f 48 ?r ?p" and p = ?p and A = "span ?f 48" and v = ?v and J = I and res = "\<lambda>d'. host d' = host d \<and> same_picture (shown d') (host d)",
          OF idle' chain_other(1) put_other(2) A(1) served])
  have upd: "?v\<lparr>vlib := (vlib ?v)\<lparr>kmem := m'\<rparr>, vdev := d'\<rparr> = v\<lparr>vlib := (vlib v)\<lparr>kmem := m'\<rparr>, vdev := d'\<rparr>" by (cases v) simp
  have run: "flush bus lo g v = Inr (v\<lparr>vlib := (vlib v)\<lparr>kmem := m'\<rparr>, vdev := d'\<rparr>)"
    using T(1) S(1) [unfolded upd] by (simp add: flush_def Let_def FLUSH_SIZE_def resp_after_def)
  have pic: "same_picture (shown d') (screen (kmem (vlib v)) ?fb)" using S(4) T(4) same_picture_trans by blast
  have "m' z = kmem (vlib v) z" if "z \<notin> span ?vq 8192" "z \<notin> span (transfer_at lo) 56" "z \<notin> span ?f 48" "z \<notin> span ?r 8" for z
    using S(5) T(5) that put_other(2) [of z ?f] by simp
  then show thesis using that [OF run S(2,3) pic] by blast
qed

section \<open>The frames of the bouncing square\<close>

definition ball_picture :: "ball \<Rightarrow> nat \<Rightarrow> nat \<Rightarrow> pixel" where
  "ball_picture b x y =
     (if unat (ball_x b) \<le> x \<and> x < unat (ball_x b) + 64 \<and> unat (ball_y b) \<le> y \<and> y < unat (ball_y b) + 64 then black else white)"

lemma ball_at_bounds: "unat (ball_x (ball_at n)) = to_and_fro 576 n" "unat (ball_y (ball_at n)) = to_and_fro 416 n"
  "to_and_fro 576 n \<le> 576" "to_and_fro 416 n \<le> 416"
proof -
  show b: "to_and_fro 576 n \<le> 576" "to_and_fro 416 n \<le> 416" by (rule to_and_fro_le, simp)+
  show "unat (ball_x (ball_at n)) = to_and_fro 576 n" "unat (ball_y (ball_at n)) = to_and_fro 416 n"
    using b by (simp_all add: ball_at_def unat_of_nat)
qed

lemma ball_drawn:
  assumes "b = ball_at n"
  shows "same_picture (screen (draw_rect fb fb (ball_x b) (ball_y b) 64 64 0 black (clear_screen fb m)) fb) (ball_picture b)"
proof -
  have "unat (ball_x b + 64) = unat (ball_x b) + 64" "unat (ball_y b + 64) = unat (ball_y b) + 64"
    using ball_at_bounds [of n] assms by (simp_all add: unat_word_ariths)
  then show ?thesis
    by (auto simp: same_picture_def draw_rect_def fill_rect_screen in_rect_def clear_screen_white ball_picture_def)
qed

lemma frame_ok:
  assumes dev: "gpu_serves bus I (gpu_request_vq g) (framebuffer g) host shown" "I (vdev v)"
    and idle: "vq_idle (gpu_request_vq g) (kmem (vlib v))" and areas: "gpu_areas g lo"
  obtains v' where "bounce_iteration bus lo g (ball_at n, v) = Inr (ball_at (Suc n), v')" "I (vdev v')"
    "vq_idle (gpu_request_vq g) (kmem (vlib v'))" "same_picture (shown (vdev v')) (ball_picture (ball_at (Suc n)))"
proof -
  let ?fb = "framebuffer g" and ?vq = "gpu_request_vq g" and ?b = "ball_at (Suc n)"
  let ?m = "draw_rect ?fb ?fb (ball_x ?b) (ball_y ?b) 64 64 0 black (clear_screen ?fb (kmem (vlib v)))"
  let ?v = "v\<lparr>vlib := (vlib v)\<lparr>kmem := ?m\<rparr>\<rparr>"
  have sub: "span (?vq + 4096) 4096 \<subseteq> span ?vq 8192" by (rule span_field) simp_all
  have "span ?vq 8192 \<inter> span ?fb 1228800 = {}" using areas by (simp add: gpu_areas_def Let_def)
  have keep: "?m z = kmem (vlib v) z" if "z \<in> span (?vq + 4096) 4096" for z
  proof -
    have "z \<notin> span ?fb 1228800" using that sub \<open>span ?vq 8192 \<inter> span ?fb 1228800 = {}\<close> by blast
    then show ?thesis by (simp add: draw_rect_other clear_screen_other)
  qed
  have i: "vq_idle ?vq (kmem (vlib ?v))" and d: "I (vdev ?v)" using vq_idle_cong [OF idle, of ?m] keep dev(2) by simp_all
  obtain m' d' where F: "flush bus lo g ?v = Inr (?v\<lparr>vlib := (vlib ?v)\<lparr>kmem := m'\<rparr>, vdev := d'\<rparr>)"
    "vq_idle ?vq m'" "I d'" "same_picture (shown d') (screen (kmem (vlib ?v)) ?fb)"
    by (rule flush_ok [OF dev(1) d i areas]) 
  have pic: "same_picture (shown d') (ball_picture ?b)"
    using same_picture_trans [OF F(4)] ball_drawn [OF refl, of ?fb "Suc n" "kmem (vlib v)"] by simp
  show thesis
    by (rule that [of "?v\<lparr>vlib := (vlib ?v)\<lparr>kmem := m'\<rparr>, vdev := d'\<rparr>"])
      (use F pic in \<open>simp_all add: bounce_iteration_def Let_def bounce_move_at\<close>)
qed

lemma bounce_ok:
  assumes "gpu_serves bus I (gpu_request_vq g) (framebuffer g) host shown" "I (vdev v)"
    and "vq_idle (gpu_request_vq g) (kmem (vlib v))" "gpu_areas g lo"
  shows "\<exists>v'. bounce bus lo g n v = Inr (ball_at n, v') \<and> I (vdev v') \<and> vq_idle (gpu_request_vq g) (kmem (vlib v')) \<and>
    (0 < n \<longrightarrow> same_picture (shown (vdev v')) (ball_picture (ball_at n)))"
proof (induction n)
  case 0
  show ?case using assms by (simp add: ball_at_0)
next
  case (Suc n)
  then obtain v1 where v1: "bounce bus lo g n v = Inr (ball_at n, v1)" "I (vdev v1)" "vq_idle (gpu_request_vq g) (kmem (vlib v1))" by blast
  obtain v2 where "bounce_iteration bus lo g (ball_at n, v1) = Inr (ball_at (Suc n), v2)" "I (vdev v2)"
    "vq_idle (gpu_request_vq g) (kmem (vlib v2))" "same_picture (shown (vdev v2)) (ball_picture (ball_at (Suc n)))"
    by (rule frame_ok [OF assms(1) v1(2,3) assms(4), where n = n])
  then show ?case using v1(1) by simp
qed

end
