(* ===== verification/Gpu_Init.thy ===== *)
theory Gpu_Init
  imports Gpu_Device
begin

text \<open>
  The initialisation of the GPU driver against a device that behaves as the virtio specification says:
  the three commands that create the picture, attach its memory and bring it to the display.
\<close>

section \<open>The commands\<close>

definition create_command :: "mem \<Rightarrow> u64 \<Rightarrow> bool" where
  "create_command m a \<longleftrightarrow>
     load32 m a = 0x101 \<and> load32 m (a + 4) = 0 \<and> load64 m (a + 8) = 0 \<and> load32 m (a + 16) = 0 \<and> load32 m (a + 20) = 0 \<and>
     load32 m (a + 24) = 1 \<and> load32 m (a + 28) = 67 \<and> load32 m (a + 32) = 640 \<and> load32 m (a + 36) = 480"

definition attach_command :: "mem \<Rightarrow> u64 \<Rightarrow> bool" where
  "attach_command m a \<longleftrightarrow>
     load32 m a = 0x106 \<and> load32 m (a + 4) = 0 \<and> load64 m (a + 8) = 0 \<and> load32 m (a + 16) = 0 \<and> load32 m (a + 20) = 0 \<and>
     load32 m (a + 24) = 1 \<and> load32 m (a + 28) = 1"

definition mem_entry :: "mem \<Rightarrow> u64 \<Rightarrow> u64 \<Rightarrow> bool" where
  "mem_entry m a fb \<longleftrightarrow> load64 m a = fb \<and> load32 m (a + 8) = 1228800 \<and> load32 m (a + 12) = 0"

definition scanout_command :: "mem \<Rightarrow> u64 \<Rightarrow> bool" where
  "scanout_command m a \<longleftrightarrow> whole_command m a 0x103 \<and> load32 m (a + 40) = 0 \<and> load32 m (a + 44) = 1"

lemma put_create2d_command: "create_command (put_create2d a m) a"
  unfolding create_command_def
  by (intro conjI)
    (simp_all add: put_create2d_def put_hdr_def Let_def add.assoc mem_simps apart GPU_DEFAULT_WIDTH_def GPU_DEFAULT_HEIGHT_def
      VIRTIO_GPU_CMD_RESOURCE_CREATE_2D_def VIRTIO_GPU_FORMAT_R8G8B8A8_UNORM_def)

lemma put_attach_command: "attach_command (put_attach a m) a"
  unfolding attach_command_def
  by (intro conjI)
    (simp_all add: put_attach_def put_hdr_def Let_def add.assoc mem_simps apart VIRTIO_GPU_CMD_RESOURCE_ATTACH_BACKING_def)

lemma put_mem_entry_entry: "mem_entry (put_mem_entry a fb m) a fb"
  unfolding mem_entry_def
  by (intro conjI)
    (simp_all add: put_mem_entry_def Let_def add.assoc mem_simps apart GPU_DEFAULT_WIDTH_def GPU_DEFAULT_HEIGHT_def)

lemma put_scanout_command: "scanout_command (put_scanout a m) a"
  unfolding scanout_command_def whole_command_def
  by (intro conjI)
    (simp_all add: put_scanout_def put_hdr_def put_rect_def Let_def add.assoc mem_simps apart GPU_DEFAULT_WIDTH_def GPU_DEFAULT_HEIGHT_def
      VIRTIO_GPU_CMD_SET_SCANOUT_def)

lemma put_create2d_other: "z \<notin> span a 40 \<Longrightarrow> put_create2d a m z = m z"
  and put_attach_other: "z \<notin> span a 32 \<Longrightarrow> put_attach a m z = m z"
  and put_mem_entry_other: "z \<notin> span a 16 \<Longrightarrow> put_mem_entry a fb m z = m z"
  and put_scanout_other: "z \<notin> span a 48 \<Longrightarrow> put_scanout a m z = m z"
proof -
  assume z: "z \<notin> span a 40"
  show "put_create2d a m z = m z"
    by (simp add: put_create2d_def put_hdr_def Let_def add.assoc store_other not_in_field [OF z] not_in_head [OF z])
next
  assume z: "z \<notin> span a 32"
  show "put_attach a m z = m z"
    by (simp add: put_attach_def put_hdr_def Let_def add.assoc store_other not_in_field [OF z] not_in_head [OF z])
next
  assume z: "z \<notin> span a 16"
  show "put_mem_entry a fb m z = m z"
    by (simp add: put_mem_entry_def Let_def add.assoc store_other not_in_field [OF z] not_in_head [OF z])
next
  assume z: "z \<notin> span a 48"
  show "put_scanout a m z = m z"
    by (simp add: put_scanout_def put_hdr_def put_rect_def Let_def add.assoc store_other not_in_field [OF z] not_in_head [OF z])
qed

lemma create_command_cong: "(\<And>z. z \<in> span a 40 \<Longrightarrow> m' z = m z) \<Longrightarrow> create_command m' a = create_command m a"
  using field_cong [of a 40 m' m] head_cong [of a 40 m' m] by (simp add: create_command_def)

lemma attach_command_cong: "(\<And>z. z \<in> span a 32 \<Longrightarrow> m' z = m z) \<Longrightarrow> attach_command m' a = attach_command m a"
  using field_cong [of a 32 m' m] head_cong [of a 32 m' m] by (simp add: attach_command_def)

lemma mem_entry_cong: "(\<And>z. z \<in> span a 16 \<Longrightarrow> m' z = m z) \<Longrightarrow> mem_entry m' a fb = mem_entry m a fb"
  using field_cong [of a 16 m' m] head_cong [of a 16 m' m] by (simp add: mem_entry_def)

lemma scanout_command_cong:
  assumes "\<And>z. z \<in> span a 48 \<Longrightarrow> m' z = m z"
  shows "scanout_command m' a = scanout_command m a"
proof -
  have "span a 40 \<subseteq> span a 48" by (rule span_mono) simp
  then have "whole_command m' a 0x103 = whole_command m a 0x103" using assms by (intro whole_command_cong) blast
  then show ?thesis using field_cong [of a 48 m' m, OF assms] by (simp add: scanout_command_def)
qed

section \<open>The device\<close>

text \<open>
  What the specification says of the device before the first frame. It may be in one of five conditions: reset (\<open>I\<close>),
  told where its queue is (\<open>Q vq\<close>), with the resource created (\<open>R vq\<close>), with memory at \<open>fb\<close> attached to it (\<open>B vq fb\<close>),
  and with the resource on the display (\<open>S vq fb\<close>). Each command of \<open>virtio_gpu_init\<close> brings it from one to the next.
\<close>

definition gpu_sets_up :: "'d bus \<Rightarrow> ('d \<Rightarrow> bool) \<Rightarrow> (u64 \<Rightarrow> 'd \<Rightarrow> bool) \<Rightarrow> (u64 \<Rightarrow> 'd \<Rightarrow> bool) \<Rightarrow>
    (u64 \<Rightarrow> u64 \<Rightarrow> 'd \<Rightarrow> bool) \<Rightarrow> (u64 \<Rightarrow> u64 \<Rightarrow> 'd \<Rightarrow> bool) \<Rightarrow> bool" where
  "gpu_sets_up bus I Q R B S \<longleftrightarrow> virtio_device bus 1 VIRTIO_DEVICE_GPU I \<and>
     (\<forall>vq d. unat vq < 2 ^ 32 \<longrightarrow> queue_told bus 1 I vq d \<longrightarrow> Q vq d) \<and>
     (\<forall>vq d m x. Q vq d \<longrightarrow> fst (bus_write32 bus (virtio_reg 1 VIRTR_DEV_STATUS_O) x (m, d)) = m \<and>
        Q vq (snd (bus_write32 bus (virtio_reg 1 VIRTR_DEV_STATUS_O) x (m, d)))) \<and>
     (\<forall>vq m d cmd resp. load16 m (avail_ring_at vq (load16 m (avail_idx_at vq) - 1)) = 0 \<longrightarrow> span vq 8192 \<inter> span resp 8 = {} \<longrightarrow>
       (Q vq d \<longrightarrow> two_chain m vq cmd 40 resp \<longrightarrow> create_command m cmd \<longrightarrow>
          completes bus 1 vq m d (answers (R vq) vq resp m (\<lambda>_. True))) \<and>
       (\<forall>e fb. R vq d \<longrightarrow> three_chain m vq cmd 32 e 16 resp \<longrightarrow> attach_command m cmd \<longrightarrow> mem_entry m e fb \<longrightarrow>
          completes bus 1 vq m d (answers (B vq fb) vq resp m (\<lambda>_. True))) \<and>
       (\<forall>fb. B vq fb d \<longrightarrow> two_chain m vq cmd 48 resp \<longrightarrow> scanout_command m cmd \<longrightarrow>
          completes bus 1 vq m d (answers (S vq fb) vq resp m (\<lambda>_. True))))"

text \<open>The commands and the places of their answers, in memory that is not free, so apart from all that is allocated.\<close>

definition init_areas :: "gpu_locals \<Rightarrow> u64 set" where
  "init_areas lo = span (create2d_at lo) 40 \<union> span (create2d_at lo + 320) 8 \<union> span (attach_at lo) 32 \<union> span (attach_at lo + 256) 8 \<union>
     span (mem_entry_at lo) 16 \<union> span (scanout_at lo) 48 \<union> span (scanout_at lo + 384) 8"

definition frame_areas :: "gpu_locals \<Rightarrow> u64 set" where
  "frame_areas lo = span (transfer_at lo) 56 \<union> span (flush_at lo) 48 \<union> span (flush_at lo + 384) 8"

definition locals_ok :: "gpu_locals \<Rightarrow> nat set \<Rightarrow> bool" where
  "locals_ok lo F \<longleftrightarrow> (\<forall>z \<in> init_areas lo \<union> frame_areas lo. unat z \<notin> F) \<and> span (attach_at lo) 32 \<inter> span (mem_entry_at lo) 16 = {}"

section \<open>Each command\<close>

lemma setsD:
  assumes "gpu_sets_up bus I Q R B S"
  shows "virtio_device bus 1 VIRTIO_DEVICE_GPU I" "unat vq < 2 ^ 32 \<Longrightarrow> queue_told bus 1 I vq d \<Longrightarrow> Q vq d"
    "Q vq d \<Longrightarrow> fst (bus_write32 bus (virtio_reg 1 VIRTR_DEV_STATUS_O) x (m, d)) = m"
    "Q vq d \<Longrightarrow> Q vq (snd (bus_write32 bus (virtio_reg 1 VIRTR_DEV_STATUS_O) x (m, d)))"
    "load16 m (avail_ring_at vq (load16 m (avail_idx_at vq) - 1)) = 0 \<Longrightarrow> span vq 8192 \<inter> span resp 8 = {} \<Longrightarrow>
      Q vq d \<Longrightarrow> two_chain m vq cmd 40 resp \<Longrightarrow> create_command m cmd \<Longrightarrow> completes bus 1 vq m d (answers (R vq) vq resp m (\<lambda>_. True))"
    "load16 m (avail_ring_at vq (load16 m (avail_idx_at vq) - 1)) = 0 \<Longrightarrow> span vq 8192 \<inter> span resp 8 = {} \<Longrightarrow>
      R vq d \<Longrightarrow> three_chain m vq cmd 32 e 16 resp \<Longrightarrow> attach_command m cmd \<Longrightarrow> mem_entry m e fb \<Longrightarrow>
      completes bus 1 vq m d (answers (B vq fb) vq resp m (\<lambda>_. True))"
    "load16 m (avail_ring_at vq (load16 m (avail_idx_at vq) - 1)) = 0 \<Longrightarrow> span vq 8192 \<inter> span resp 8 = {} \<Longrightarrow>
      B vq fb d \<Longrightarrow> two_chain m vq cmd 48 resp \<Longrightarrow> scanout_command m cmd \<Longrightarrow> completes bus 1 vq m d (answers (S vq fb) vq resp m (\<lambda>_. True))"
  using assms unfolding gpu_sets_up_def by blast+

lemma gpu_create_resource_ok:
  assumes dev: "gpu_sets_up bus I Q R B S" "Q vq (vdev v)" and idle: "vq_idle vq (kmem (vlib v))" and areas: "span vq 8192 \<inter> init_areas lo = {}"
  obtains m' d' where "gpu_create_resource bus lo vq v = Inr (v\<lparr>vlib := (vlib v)\<lparr>kmem := m'\<rparr>, vdev := d'\<rparr>)" "vq_idle vq m'" "R vq d'"
    "\<forall>z. z \<notin> span vq 8192 \<longrightarrow> z \<notin> init_areas lo \<longrightarrow> m' z = kmem (vlib v) z"
proof -
  let ?a = "create2d_at lo" and ?r = "create2d_at lo + 320"
  let ?p = "put_create2d ?a (kmem (vlib v))"
  have A: "span vq 8192 \<inter> span ?a 40 = {}" "span vq 8192 \<inter> span ?r 8 = {}" "span ?a 40 \<union> span ?r 8 \<subseteq> init_areas lo"
    using areas by (auto simp: init_areas_def)
  have served: "completes bus 1 vq k (vdev v) (answers (R vq) vq ?r k (\<lambda>_. True))"
    if k: "\<And>z. z \<in> span vq 48 \<Longrightarrow> k z = chain_two vq ?a 40 ?r ?p z" "\<And>z. z \<notin> span vq 8192 \<Longrightarrow> k z = ?p z"
      "load16 k (avail_ring_at vq (load16 k (avail_idx_at vq) - 1)) = 0" for k
  proof -
    have "k z = ?p z" if "z \<in> span ?a 40" for z using k(2) that A(1) by blast
    then have "create_command k ?a" using create_command_cong [of ?a k ?p] put_create2d_command by simp
    moreover have "two_chain k vq ?a 40 ?r" using chains_cong(1) [OF k(1)] chain_two_chain by simp
    ultimately show ?thesis using setsD(5) [OF dev(1) k(3) A(2) dev(2)] by blast
  qed
  obtain m' d' where S: "gpu_submit bus vq ?r (''virtio_gpu: warn: invalid resource: 0x%x'' @ [CHR 0x0A]) (chain_two vq ?a 40 ?r ?p) v =
      Inr (v\<lparr>vlib := (vlib v)\<lparr>kmem := m'\<rparr>, vdev := d'\<rparr>)" "vq_idle vq m'" "R vq d'" "\<forall>z. z \<notin> span vq 8192 \<longrightarrow> z \<notin> span ?r 8 \<longrightarrow> m' z = ?p z"
    by (rule submit_chain [where c = "chain_two vq ?a 40 ?r ?p" and p = ?p and A = "span ?a 40" and J = "R vq" and res = "\<lambda>_. True",
          OF idle chain_other(1) put_create2d_other A(1) served])
  have "m' z = kmem (vlib v) z" if "z \<notin> span vq 8192" "z \<notin> init_areas lo" for z
  proof -
    have "z \<notin> span ?a 40" "z \<notin> span ?r 8" using that(2) A(3) by blast+
    then show ?thesis using S(4) that(1) put_create2d_other by simp
  qed
  then show thesis using that [OF _ S(2,3)] S(1) by (simp add: gpu_create_resource_def Let_def CREATE_2D_SIZE_def resp_after_def)
qed

lemma gpu_attach_backing_ok:
  assumes dev: "gpu_sets_up bus I Q R B S" "R vq (vdev v)" and idle: "vq_idle vq (kmem (vlib v))"
    and areas: "span vq 8192 \<inter> init_areas lo = {}" "span (attach_at lo) 32 \<inter> span (mem_entry_at lo) 16 = {}"
  obtains m' d' where "gpu_attach_backing bus lo vq fb v = Inr (v\<lparr>vlib := (vlib v)\<lparr>kmem := m'\<rparr>, vdev := d'\<rparr>)" "vq_idle vq m'" "B vq fb d'"
    "\<forall>z. z \<notin> span vq 8192 \<longrightarrow> z \<notin> init_areas lo \<longrightarrow> m' z = kmem (vlib v) z"
proof -
  let ?a = "attach_at lo" and ?e = "mem_entry_at lo" and ?r = "attach_at lo + 256"
  let ?q = "put_attach ?a (kmem (vlib v))"
  let ?p = "put_mem_entry ?e fb ?q"
  have A: "span vq 8192 \<inter> (span ?a 32 \<union> span ?e 16) = {}" "span vq 8192 \<inter> span ?r 8 = {}" "span ?a 32 \<union> span ?e 16 \<union> span ?r 8 \<subseteq> init_areas lo"
    using areas(1) by (auto simp: init_areas_def)
  have other: "?p z = kmem (vlib v) z" if "z \<notin> span ?a 32 \<union> span ?e 16" for z using that put_mem_entry_other put_attach_other by simp
  have served: "completes bus 1 vq k (vdev v) (answers (B vq fb) vq ?r k (\<lambda>_. True))"
    if k: "\<And>z. z \<in> span vq 48 \<Longrightarrow> k z = chain_three vq ?a 32 ?e 16 ?r ?p z" "\<And>z. z \<notin> span vq 8192 \<Longrightarrow> k z = ?p z"
      "load16 k (avail_ring_at vq (load16 k (avail_idx_at vq) - 1)) = 0" for k
  proof -
    have "k z = ?q z" if "z \<in> span ?a 32" for z
    proof -
      have "z \<notin> span vq 8192" "z \<notin> span ?e 16" using that A(1) areas(2) by blast+
      then show ?thesis using k(2) put_mem_entry_other by simp
    qed
    then have "attach_command k ?a" using attach_command_cong [of ?a k ?q] put_attach_command by simp
    moreover have "k z = ?p z" if "z \<in> span ?e 16" for z using k(2) that A(1) by blast
    then have "mem_entry k ?e fb" using mem_entry_cong [of ?e k ?p] put_mem_entry_entry by simp
    moreover have "three_chain k vq ?a 32 ?e 16 ?r" using chains_cong(2) [OF k(1)] chain_three_chain by simp
    ultimately show ?thesis using setsD(6) [OF dev(1) k(3) A(2) dev(2)] by blast
  qed
  obtain m' d' where S: "gpu_submit bus vq ?r (''virtio_gpu: warn: invalid backing: 0x%x'' @ [CHR 0x0A]) (chain_three vq ?a 32 ?e 16 ?r ?p) v =
      Inr (v\<lparr>vlib := (vlib v)\<lparr>kmem := m'\<rparr>, vdev := d'\<rparr>)" "vq_idle vq m'" "B vq fb d'" "\<forall>z. z \<notin> span vq 8192 \<longrightarrow> z \<notin> span ?r 8 \<longrightarrow> m' z = ?p z"
    by (rule submit_chain [where c = "chain_three vq ?a 32 ?e 16 ?r ?p" and p = ?p and A = "span ?a 32 \<union> span ?e 16" and J = "B vq fb" and res = "\<lambda>_. True",
          OF idle chain_other(2) other A(1) served])
  have "m' z = kmem (vlib v) z" if "z \<notin> span vq 8192" "z \<notin> init_areas lo" for z
  proof -
    have "z \<notin> span ?a 32 \<union> span ?e 16" "z \<notin> span ?r 8" using that(2) A(3) by blast+
    then show ?thesis using S(4) that(1) other by simp
  qed
  then show thesis
    using that [OF _ S(2,3)] S(1) by (simp add: gpu_attach_backing_def Let_def ATTACH_BACKING_SIZE_def MEM_ENTRY_SIZE_def resp_after_def)
qed

lemma gpu_set_scanout_ok:
  assumes dev: "gpu_sets_up bus I Q R B S" "B vq fb (vdev v)" and idle: "vq_idle vq (kmem (vlib v))" and areas: "span vq 8192 \<inter> init_areas lo = {}"
  obtains m' d' where "gpu_set_scanout bus lo vq v = Inr (v\<lparr>vlib := (vlib v)\<lparr>kmem := m'\<rparr>, vdev := d'\<rparr>)" "vq_idle vq m'" "S vq fb d'"
    "\<forall>z. z \<notin> span vq 8192 \<longrightarrow> z \<notin> init_areas lo \<longrightarrow> m' z = kmem (vlib v) z"
proof -
  let ?a = "scanout_at lo" and ?r = "scanout_at lo + 384"
  let ?p = "put_scanout ?a (kmem (vlib v))"
  have A: "span vq 8192 \<inter> span ?a 48 = {}" "span vq 8192 \<inter> span ?r 8 = {}" "span ?a 48 \<union> span ?r 8 \<subseteq> init_areas lo"
    using areas by (auto simp: init_areas_def)
  have served: "completes bus 1 vq k (vdev v) (answers (S vq fb) vq ?r k (\<lambda>_. True))"
    if k: "\<And>z. z \<in> span vq 48 \<Longrightarrow> k z = chain_two vq ?a 48 ?r ?p z" "\<And>z. z \<notin> span vq 8192 \<Longrightarrow> k z = ?p z"
      "load16 k (avail_ring_at vq (load16 k (avail_idx_at vq) - 1)) = 0" for k
  proof -
    have "k z = ?p z" if "z \<in> span ?a 48" for z using k(2) that A(1) by blast
    then have "scanout_command k ?a" using scanout_command_cong [of ?a k ?p] put_scanout_command by simp
    moreover have "two_chain k vq ?a 48 ?r" using chains_cong(1) [OF k(1)] chain_two_chain by simp
    ultimately show ?thesis using setsD(7) [OF dev(1) k(3) A(2) dev(2)] by blast
  qed
  obtain m' d' where S: "gpu_submit bus vq ?r (''virtio_gpu: warn: invalid scan out: 0x%x'' @ [CHR 0x0A]) (chain_two vq ?a 48 ?r ?p) v =
      Inr (v\<lparr>vlib := (vlib v)\<lparr>kmem := m'\<rparr>, vdev := d'\<rparr>)" "vq_idle vq m'" "S vq fb d'" "\<forall>z. z \<notin> span vq 8192 \<longrightarrow> z \<notin> span ?r 8 \<longrightarrow> m' z = ?p z"
    by (rule submit_chain [where c = "chain_two vq ?a 48 ?r ?p" and p = ?p and A = "span ?a 48" and J = "S vq fb" and res = "\<lambda>_. True",
          OF idle chain_other(1) put_scanout_other A(1) served])
  have "m' z = kmem (vlib v) z" if "z \<notin> span vq 8192" "z \<notin> init_areas lo" for z
  proof -
    have "z \<notin> span ?a 48" "z \<notin> span ?r 8" using that(2) A(3) by blast+
    then show ?thesis using S(4) that(1) put_scanout_other by simp
  qed
  then show thesis using that [OF _ S(2,3)] S(1) by (simp add: gpu_set_scanout_def Let_def SET_SCANOUT_SIZE_def resp_after_def)
qed

section \<open>The whole initialisation\<close>

text \<open>The second half, from the first command on, with the queue at \<open>vq\<close> and the request page at \<open>page\<close>.\<close>

definition gpu_bring_up :: "'d bus \<Rightarrow> gpu_locals \<Rightarrow> u64 \<Rightarrow> u64 \<Rightarrow> 'd vst \<Rightarrow> (gpu \<times> 'd vst) res" where
  "gpu_bring_up bus lo vq page v =
     bind_res (gpu_create_resource bus lo vq v) (\<lambda>v.
     bind_res (kalloc 300 (vlib v)) (\<lambda>(fb, k).
     bind_res (gpu_attach_backing bus lo vq fb (v\<lparr>vlib := k\<rparr>)) (\<lambda>v.
     bind_res (gpu_set_scanout bus lo vq v) (\<lambda>v.
     bind_res (printf (kmem (vlib v)) (''virtio_gpu: initialized.'' @ [CHR 0x0A]) [] (console (vlib v))) (\<lambda>con.
       Inr (\<lparr>gpu_request_vq = vq, gpu_req = ucast (ucast page :: u32), gpu_req_paddr = ucast page, framebuffer = fb\<rparr>,
            v\<lparr>vlib := (vlib v)\<lparr>console := con\<rparr>\<rparr>))))))"

lemma gpu_transport:
  assumes dev: "gpu_sets_up bus I Q R B S" "I (vdev v)" and al: "alloc_inv True (vlib v) F" "F \<subseteq> {..< 2 ^ 32}" "12288 \<le> card F"
  obtains vq page k d F1 where "virtio_gpu_init bus lo v = gpu_bring_up bus lo vq page (v\<lparr>vlib := k, vdev := d\<rparr>)" "Q vq d" "vq_idle vq (kmem k)"
    "F1 \<subseteq> F" "card F = card F1 + 12288" "alloc_inv True k F1" "console k = console (vlib v)" "unat vq + 8192 < 2 ^ 64"
    "{unat vq ..< unat vq + 8192} \<subseteq> F - F1" "\<forall>a. unat a \<notin> F \<longrightarrow> kmem k a = kmem (vlib v) a"
proof -
  note D = setsD [OF dev(1)]
  obtain d1 where d1: "virtio_reg_fetch_and_or32 bus 1 VIRTR_DEV_STATUS_O VIRTIO_STATUS_FEATURES_OK
      (virtio_reg_fetch_and_or32 bus 1 VIRTR_DEV_STATUS_O VIRTIO_STATUS_DRIVER
        (virtio_reg_fetch_and_or32 bus 1 VIRTR_DEV_STATUS_O VIRTIO_STATUS_ACKNOWLEDGE
          (virtio_reg_write32 bus 1 VIRTR_DEV_STATUS_O 0 v))) = v\<lparr>vdev := d1\<rparr>" "I d1" by (rule status_sequence [OF D(1) dev(2)])
  have al1: "I (vdev (v\<lparr>vdev := d1\<rparr>))" "alloc_inv True (vlib (v\<lparr>vdev := d1\<rparr>)) F" "8192 \<le> card F" using d1(2) al by simp_all
  obtain vq k1 d2 where V0: "virtq_init bus 1 0 (v\<lparr>vdev := d1\<rparr>) = Inr (vq, (v\<lparr>vdev := d1\<rparr>)\<lparr>vlib := k1, vdev := d2\<rparr>)" and V: "unat vq + 8192 < 2 ^ 64"
    "{unat vq ..< unat vq + 8192} \<subseteq> F" "alloc_inv True k1 (F - {unat vq ..< unat vq + 8192})" "card (F - {unat vq ..< unat vq + 8192}) + 8192 = card F"
    "console k1 = console (vlib (v\<lparr>vdev := d1\<rparr>))" "\<forall>a. unat a \<notin> F \<longrightarrow> kmem k1 a = kmem (vlib (v\<lparr>vdev := d1\<rparr>)) a"
    "vq_idle vq (kmem k1)" "queue_told bus 1 I vq d2"
    by (rule virtq_init_ok [OF D(1) al1])
  let ?F1 = "F - {unat vq ..< unat vq + 8192}"
  have upd1: "(v\<lparr>vdev := d1\<rparr>)\<lparr>vlib := k1, vdev := d2\<rparr> = v\<lparr>vlib := k1, vdev := d2\<rparr>" by (cases v) simp
  have "unat vq < 2 ^ 32" using V(2) al(2) by fastforce
  then have Q2: "Q vq d2" using D(2) V(8) by blast
  obtain d3 where d3: "virtio_reg_write32 bus 1 VIRTR_DEV_STATUS_O VIRTIO_STATUS_DRIVER_OK (v\<lparr>vlib := k1, vdev := d2\<rparr>) = v\<lparr>vlib := k1, vdev := d3\<rparr>" "Q vq d3"
    using D(3,4) [OF Q2, of VIRTIO_STATUS_DRIVER_OK "kmem k1"]
    by (cases "bus_write32 bus (virtio_reg 1 VIRTR_DEV_STATUS_O) VIRTIO_STATUS_DRIVER_OK (kmem k1, d2)") (auto simp: virtio_reg_write32_def)
  have F1: "?F1 \<subseteq> {..< 2 ^ 32}" "0 < card ?F1" using V(4) al(2,3) by auto
  obtain page k2 where K: "kalloc 1 k1 = Inr (page, k2)" "(ucast page :: u32) \<noteq> 0" "page_at page \<subseteq> ?F1"
    "alloc_inv True k2 (?F1 - page_at page)" "card (?F1 - page_at page) + 4096 = card ?F1" "\<forall>a. unat a \<notin> ?F1 \<longrightarrow> kmem k2 a = kmem k1 a"
    "console k2 = console k1"
    using request_page [OF V(3) F1] by metis
  have ident: "bus_read32 bus (virtio_reg 1 VIRTR_MAGIC_O) (vdev v) = VIRTIO_MAGIC_NUMBER" "bus_read32 bus (virtio_reg 1 VIRTR_VERSION_O) (vdev v) = 1"
    "bus_read32 bus (virtio_reg 1 VIRTR_DEV_ID_O) (vdev v) = VIRTIO_DEVICE_GPU" using D(1) dev(2) by (simp_all add: virtio_device_def)
  have sizes: "align_up GPU_HDR_SIZE PAGE_SIZE div PAGE_SIZE = 1"
    "align_up (4 * ucast GPU_DEFAULT_HEIGHT * ucast GPU_DEFAULT_WIDTH) PAGE_SIZE div PAGE_SIZE = 300"
    by (simp_all add: align_up_def GPU_HDR_SIZE_def PAGE_SIZE_def GPU_DEFAULT_HEIGHT_def GPU_DEFAULT_WIDTH_def)
  have upd2: "v\<lparr>vdev := d3, vlib := k2\<rparr> = v\<lparr>vlib := k2, vdev := d3\<rparr>" by (cases v) simp
  have run: "virtio_gpu_init bus lo v = gpu_bring_up bus lo vq page (v\<lparr>vlib := k2, vdev := d3\<rparr>)"
    unfolding virtio_gpu_init_def Let_def virtio_reg_read32_def ident sizes gpu_bring_up_def
    by (simp add: d1(1) V0 upd1 d3(1) K(1,2) upd2)
  have "kmem k2 z = kmem k1 z" if "z \<in> span vq 8192" for z
    using that K(6) V(1) by (simp add: in_span_iff)
  moreover have "span (vq + 4096) 4096 \<subseteq> span vq 8192" by (rule span_field) simp_all
  ultimately have "vq_idle vq (kmem k2)" by (intro vq_idle_cong [OF V(7)]) blast
  moreover have "kmem k2 a = kmem (vlib v) a" if "unat a \<notin> F" for a using K(6) V(6) that by simp
  ultimately show thesis using that [OF run d3(2), of "?F1 - page_at page"] K(3-5,7) V(1,2,4,5) by auto
qed

lemma initialized_line:
  "printf m (''virtio_gpu: initialized.'' @ [CHR 0x0A]) [] con = Inr (con @ bytes_of ''virtio_gpu: initialized.'' @ [13, 10])"
proof -
  have fmt: "bytes_of (''virtio_gpu: initialized.'' @ [CHR 0x0A]) = bytes_of (''virtio_gpu: initialized.'' @ [CHR 0x0A]) @ []" by simp
  have pct: "byte_of CHR ''%'' \<notin> set (bytes_of (''virtio_gpu: initialized.'' @ [CHR 0x0A]))" by simp
  show ?thesis unfolding printf_def by (subst fmt, subst vprintf_literal [OF pct]) (simp add: crlf_def)
qed

lemma order_for_300: "order_for_pages 300 = 9"
  by (simp add: order_for_pages_def order_loop.simps MAX_ORDER_def)

lemma kalloc_picture:
  assumes "alloc_inv True s F" "2097152 \<le> card F"
  shows "\<exists>p s'. kalloc 300 s = Inr (p, s') \<and> in_heap s p 9 \<and> blk p 9 \<subseteq> F \<and> alloc_inv True s' (F - blk p 9) \<and>
    card F = card (F - blk p 9) + 2097152 \<and> console s' = console s \<and> (\<forall>a. unat a \<notin> F \<longrightarrow> kmem s' a = kmem s a)"
proof -
  have "4096 * 2 ^ order_for_pages 300 \<le> card F" using assms(2) by (simp add: order_for_300)
  from kalloc_thin [OF assms(1) _ _ this] show ?thesis by (rule) (auto simp: order_for_300)
qed

lemma gpu_bring_up_ok:
  assumes dev: "gpu_sets_up bus I Q R B S" "Q vq (vdev v)" and idle: "vq_idle vq (kmem (vlib v))"
    and al: "alloc_inv True (vlib v) F" "2097152 \<le> card F" and vq: "unat vq + 8192 < 2 ^ 64" "{unat vq ..< unat vq + 8192} \<inter> F = {}"
    and lo: "locals_ok lo (F \<union> {unat vq ..< unat vq + 8192})"
  obtains g k d F' where "gpu_bring_up bus lo vq page v = Inr (g, v\<lparr>vlib := k, vdev := d\<rparr>)" "gpu_request_vq g = vq" "S vq (framebuffer g) d"
    "vq_idle vq (kmem k)" "gpu_areas g lo" "F' \<subseteq> F" "card F = card F' + 2097152" "alloc_inv True k F'"
    "console k = console (vlib v) @ bytes_of ''virtio_gpu: initialized.'' @ [13, 10]"
    "\<forall>a. unat a \<notin> F \<longrightarrow> a \<notin> span vq 8192 \<longrightarrow> a \<notin> init_areas lo \<longrightarrow> kmem k a = kmem (vlib v) a"
proof -
  have vqs: "z \<in> span vq 8192 \<longleftrightarrow> unat z \<in> {unat vq ..< unat vq + 8192}" for z using vq(1) by (simp add: in_span_iff)
  have L: "unat z \<notin> F" "z \<notin> span vq 8192" if "z \<in> init_areas lo \<union> frame_areas lo" for z using lo that vqs by (auto simp: locals_ok_def)
  have apart: "span vq 8192 \<inter> init_areas lo = {}" "span vq 8192 \<inter> frame_areas lo = {}" using L by blast+
  have out: "z \<notin> span vq 8192 \<and> z \<notin> init_areas lo" if "unat z \<in> F" for z using that L vqs vq(2) by blast
  obtain m1 d1 where C: "gpu_create_resource bus lo vq v = Inr (v\<lparr>vlib := (vlib v)\<lparr>kmem := m1\<rparr>, vdev := d1\<rparr>)" "vq_idle vq m1" "R vq d1"
    "\<forall>z. z \<notin> span vq 8192 \<longrightarrow> z \<notin> init_areas lo \<longrightarrow> m1 z = kmem (vlib v) z" by (rule gpu_create_resource_ok [OF dev idle apart(1)])
  have al1: "alloc_inv True ((vlib v)\<lparr>kmem := m1\<rparr>) F" using C(4) out by (intro alloc_inv_frame [OF al(1)]) blast
  obtain fb k2 where K: "kalloc 300 ((vlib v)\<lparr>kmem := m1\<rparr>) = Inr (fb, k2)" "in_heap ((vlib v)\<lparr>kmem := m1\<rparr>) fb 9" "blk fb 9 \<subseteq> F"
    "alloc_inv True k2 (F - blk fb 9)" "card F = card (F - blk fb 9) + 2097152" "console k2 = console ((vlib v)\<lparr>kmem := m1\<rparr>)"
    "\<forall>a. unat a \<notin> F \<longrightarrow> kmem k2 a = kmem ((vlib v)\<lparr>kmem := m1\<rparr>) a"
    using kalloc_picture [OF al1 al(2)] by blast
  let ?v2 = "v\<lparr>vlib := k2, vdev := d1\<rparr>"
  have sub: "span (vq + 4096) 4096 \<subseteq> span vq 8192" by (rule span_field) simp_all
  have "kmem k2 z = m1 z" if "z \<in> span vq 8192" for z
  proof -
    have "unat z \<notin> F" using that vqs vq(2) by blast
    then show ?thesis using K(7) by simp
  qed
  then have "vq_idle vq (kmem k2)" using sub by (intro vq_idle_cong [OF C(2)]) blast
  then have i2: "vq_idle vq (kmem (vlib ?v2))" "R vq (vdev ?v2)" using C(3) by simp_all
  have ae: "span (attach_at lo) 32 \<inter> span (mem_entry_at lo) 16 = {}" using lo by (simp add: locals_ok_def)
  obtain m3 d3 where T0: "gpu_attach_backing bus lo vq fb ?v2 = Inr (?v2\<lparr>vlib := (vlib ?v2)\<lparr>kmem := m3\<rparr>, vdev := d3\<rparr>)" and T: "vq_idle vq m3" "B vq fb d3"
    "\<forall>z. z \<notin> span vq 8192 \<longrightarrow> z \<notin> init_areas lo \<longrightarrow> m3 z = kmem (vlib ?v2) z" by (rule gpu_attach_backing_ok [OF dev(1) i2(2,1) apart(1) ae])
  let ?v3 = "v\<lparr>vlib := k2\<lparr>kmem := m3\<rparr>, vdev := d3\<rparr>"
  have i3: "vq_idle vq (kmem (vlib ?v3))" "B vq fb (vdev ?v3)" using T by simp_all
  obtain m4 d4 where U0: "gpu_set_scanout bus lo vq ?v3 = Inr (?v3\<lparr>vlib := (vlib ?v3)\<lparr>kmem := m4\<rparr>, vdev := d4\<rparr>)" and U: "vq_idle vq m4" "S vq fb d4"
    "\<forall>z. z \<notin> span vq 8192 \<longrightarrow> z \<notin> init_areas lo \<longrightarrow> m4 z = kmem (vlib ?v3) z" by (rule gpu_set_scanout_ok [OF dev(1) i3(2,1) apart(1)])
  let ?con = "console (vlib v) @ bytes_of ''virtio_gpu: initialized.'' @ [13, 10]"
  let ?g = "\<lparr>gpu_request_vq = vq, gpu_req = ucast (ucast page :: u32), gpu_req_paddr = ucast page, framebuffer = fb\<rparr>" and ?k = "k2\<lparr>kmem := m4, console := ?con\<rparr>"
  have upd: "v\<lparr>vdev := d1, vlib := k2\<rparr> = ?v2" "?v2\<lparr>vlib := (vlib ?v2)\<lparr>kmem := m3\<rparr>, vdev := d3\<rparr> = ?v3"
    "?v3\<lparr>vlib := (vlib ?v3)\<lparr>kmem := m4\<rparr>, vdev := d4\<rparr> = v\<lparr>vlib := k2\<lparr>kmem := m4\<rparr>, vdev := d4\<rparr>" by (cases v; simp)+
  have run: "gpu_bring_up bus lo vq page v = Inr (?g, v\<lparr>vlib := ?k, vdev := d4\<rparr>)"
    unfolding gpu_bring_up_def using K(6) by (simp add: C(1) K(1) upd(1) T0 [unfolded upd] U0 [unfolded upd] initialized_line [simplified])
  have inv: "alloc_inv True ?k (F - blk fb 9)"
    using U(3) T(3) out alloc_inv_console [OF alloc_inv_frame [OF K(4), of m4], of ?con] by auto
  have fbs: "unat z \<in> blk fb 9" if "z \<in> span fb 1228800" for z by (rule span_page_blk [OF K(2) that]) simp
  then have "z \<notin> span vq 8192 \<and> z \<notin> frame_areas lo" if "z \<in> span fb 1228800" for z using that K(3) out [of z] L(1) by blast
  then have areas: "gpu_areas ?g lo" using apart(2) unfolding gpu_areas_def Let_def frame_areas_def by (simp add: disjoint_iff) blast
  have rest: "kmem ?k a = kmem (vlib v) a" if "unat a \<notin> F" "a \<notin> span vq 8192" "a \<notin> init_areas lo" for a
    using that U(3) T(3) K(7) C(4) by simp
  show thesis
    by (rule that [OF run _ _ _ areas _ _ inv]) (use U(1,2) K(5) rest in auto)
qed

text \<open>\<open>virtio_gpu_init\<close> up to its last call.\<close>

lemma virtio_gpu_init_ok:
  assumes dev: "gpu_sets_up bus I Q R B S" "I (vdev v)" and al: "alloc_inv True (vlib v) F" "F \<subseteq> {..< 2 ^ 32}" "2109440 \<le> card F"
    and lo: "locals_ok lo F"
  obtains g k d F' where "virtio_gpu_init bus lo v = Inr (g, v\<lparr>vlib := k, vdev := d\<rparr>)" "S (gpu_request_vq g) (framebuffer g) d"
    "vq_idle (gpu_request_vq g) (kmem k)" "gpu_areas g lo" "F' \<subseteq> F" "card F = card F' + 2109440" "alloc_inv True k F'"
    "console k = console (vlib v) @ bytes_of ''virtio_gpu: initialized.'' @ [13, 10]"
    "\<forall>a. unat a \<notin> F \<longrightarrow> a \<notin> init_areas lo \<longrightarrow> kmem k a = kmem (vlib v) a"
proof -
  have c0: "12288 \<le> card F" using al(3) by simp
  obtain vq page k d F1 where T: "virtio_gpu_init bus lo v = gpu_bring_up bus lo vq page (v\<lparr>vlib := k, vdev := d\<rparr>)" "Q vq d" "vq_idle vq (kmem k)"
    "F1 \<subseteq> F" "card F = card F1 + 12288" "alloc_inv True k F1" "console k = console (vlib v)" "unat vq + 8192 < 2 ^ 64"
    "{unat vq ..< unat vq + 8192} \<subseteq> F - F1" "\<forall>a. unat a \<notin> F \<longrightarrow> kmem k a = kmem (vlib v) a"
    by (rule gpu_transport [OF dev al(1,2) c0])
  let ?v = "v\<lparr>vlib := k, vdev := d\<rparr>"
  have pre: "Q vq (vdev ?v)" "vq_idle vq (kmem (vlib ?v))" "alloc_inv True (vlib ?v) F1" "2097152 \<le> card F1"
    "{unat vq ..< unat vq + 8192} \<inter> F1 = {}" "locals_ok lo (F1 \<union> {unat vq ..< unat vq + 8192})"
    using T(2-6,9) al(3) lo by (auto simp: locals_ok_def)
  obtain g k' d' F' where U: "gpu_bring_up bus lo vq page ?v = Inr (g, ?v\<lparr>vlib := k', vdev := d'\<rparr>)" "gpu_request_vq g = vq" "S vq (framebuffer g) d'"
    "vq_idle vq (kmem k')" "gpu_areas g lo" "F' \<subseteq> F1" "card F1 = card F' + 2097152" "alloc_inv True k' F'"
    "console k' = console (vlib ?v) @ bytes_of ''virtio_gpu: initialized.'' @ [13, 10]"
    "\<forall>a. unat a \<notin> F1 \<longrightarrow> a \<notin> span vq 8192 \<longrightarrow> a \<notin> init_areas lo \<longrightarrow> kmem k' a = kmem (vlib ?v) a"
    by (rule gpu_bring_up_ok [OF dev(1) pre(1-4) T(8) pre(5,6)])
  have "?v\<lparr>vlib := k', vdev := d'\<rparr> = v\<lparr>vlib := k', vdev := d'\<rparr>" by (cases v) simp
  moreover have "kmem k' a = kmem (vlib v) a" if "unat a \<notin> F" "a \<notin> init_areas lo" for a
  proof -
    have "a \<notin> span vq 8192" "unat a \<notin> F1" using that(1) T(4,8,9) by (auto simp: in_span_iff)
    then show ?thesis using U(10) T(10) that by simp
  qed
  moreover have "F' \<subseteq> F" using U(6) T(4) by blast
  ultimately show thesis using that [OF _ U(3) [folded U(2)] U(4) [folded U(2)] U(5) _ _ U(8)] T(1,5,7) U(1,7,9) by simp
qed

end
