(* ===== verification/Driver_Props.thy ===== *)
theory Driver_Props
  imports Virtio_Blk
begin

text \<open>
  Properties of the virtio transport and the block device driver, against any device that behaves
  as the specification says, and a synchronous device to instantiate them.
\<close>

section \<open>A synchronous device\<close>

text \<open>The device of the examples serves the chain at \<open>vq\<close> at once when it is notified; its state is the disk.\<close>

definition put_bytes :: "mem \<Rightarrow> u64 \<Rightarrow> u8 list \<Rightarrow> mem" where
  "put_bytes m a bs = (\<lambda>z. if z \<in> span a (length bs) then bs ! unat (z - a) else m z)"

definition sync_serve :: "u64 \<Rightarrow> mem \<times> (u64 \<Rightarrow> u8 list) \<Rightarrow> mem \<times> (u64 \<Rightarrow> u8 list)" where
  "sync_serve vq s =
     (case s of (m, disk) \<Rightarrow>
        let hdr = load64 m vq; data = load64 m (vq + 16); stat = load64 m (vq + 32); sec = load64 m (hdr + 8);
            m' = (if load32 m hdr = 1 then m else put_bytes m data (disk sec))
        in (store16 (m'(stat := 0)) (used_idx_at vq) (load16 m (used_idx_at vq) + 1),
            if load32 m hdr = 1 then disk(sec := bytes_at m data 512) else disk))"

definition sync_bus :: "u64 \<Rightarrow> (u64 \<Rightarrow> u8 list) bus" where
  "sync_bus vq = \<lparr>bus_read32 = (\<lambda>a _. if a = virtio_reg 0 VIRTR_MAGIC_O then VIRTIO_MAGIC_NUMBER
       else if a = virtio_reg 0 VIRTR_VERSION_O then 1 else 2),
     bus_read64 = (\<lambda>_ _. 8),
     bus_write32 = (\<lambda>a x s. if a = virtio_reg 0 VIRTR_QUEUE_NOTIFY_O then sync_serve vq s else s),
     bus_step = (\<lambda>s. s)\<rparr>"

definition sectors_full :: "(u64 \<Rightarrow> u8 list) \<Rightarrow> bool" where
  "sectors_full disk \<longleftrightarrow> (\<forall>sec. length (disk sec) = 512)"

lemma virtio_reg_inj: "virtio_reg port x = virtio_reg port y \<longleftrightarrow> x = y"
proof
  assume "virtio_reg port x = virtio_reg port y"
  then have "unat (0x10001000 + port * 0x1000 + x) = unat (0x10001000 + port * 0x1000 + y)"
    by (metis virtio_reg_def unat_ucast_32_64)
  then have "0x10001000 + port * 0x1000 + x = 0x10001000 + port * 0x1000 + y" by (simp only: word_unat_eq_iff)
  then show "x = y" by (simp only: add_left_cancel)
qed simp

lemma sync_device: "blk_device (sync_bus vq) sectors_full"
  by (auto simp: virtio_device_def sync_bus_def virtio_reg_inj VIRTIO_DEVICE_BLK_def VIRTR_MAGIC_O_def VIRTR_VERSION_O_def VIRTR_DEV_ID_O_def)

lemma put_bytes_at: "length bs = n \<Longrightarrow> n \<le> 2 ^ 64 \<Longrightarrow> bytes_at (put_bytes m a bs) a n = bs"
  by (auto simp: bytes_at_def put_bytes_def span_def unat_of_nat_64 intro!: nth_equalityI)

text \<open>One request, from the memory \<open>m\<close> in which it is offered.\<close>

lemma sync_serve_request:
  assumes "sectors_full disk" "blk_chain m vq hdr (hdr + 16) (hdr + 528) w" "span vq 8192 \<inter> span hdr 529 = {}"
    and "load32 m hdr = (if w then 1 else 0)" "sync_serve vq (m, disk) = (m1, d1)"
  shows "sectors_full d1" "load16 m1 (used_idx_at vq) = load16 m (used_idx_at vq) + 1" "m1 (hdr + 528) = 0"
    "if w then d1 = disk(load64 m (hdr + 8) := bytes_at m (hdr + 16) 512)
     else d1 = disk \<and> bytes_at m1 (hdr + 16) 512 = disk (load64 m (hdr + 8))"
    "z \<in> span (queue_index_at vq) 14 \<Longrightarrow> m1 z = m z"
    "z \<notin> span vq 8192 \<Longrightarrow> z \<notin> span (hdr + 528) 1 \<Longrightarrow> w \<or> z \<notin> span (hdr + 16) 512 \<Longrightarrow> m1 z = m z"
proof -
  have ch: "load64 m vq = hdr" "load64 m (vq + 16) = hdr + 16" "load64 m (vq + 32) = hdr + 528" using assms(2) by (simp_all add: blk_chain_def)
  let ?d = "disk (load64 m (hdr + 8))"
  have len: "length ?d = 512" using assms(1) by (simp add: sectors_full_def)
  define m' where "m' = (if w then m else put_bytes m (hdr + 16) ?d)"
  have m1: "m1 = store16 (m'(hdr + 528 := 0)) (used_idx_at vq) (load16 m (used_idx_at vq) + 1)"
    and d1: "d1 = (if w then disk(load64 m (hdr + 8) := bytes_at m (hdr + 16) 512) else disk)"
    using assms(4,5) by (auto simp: sync_serve_def ch m'_def split: if_splits)
  note W = driver_words [of vq]
  have sub: "span (vq + 4096) 4096 \<subseteq> span vq 8192" "span (hdr + 16) 512 \<subseteq> span hdr 529" "span (hdr + 528) 1 \<subseteq> span hdr 529" by (rule span_field; simp)+
  have used: "span (used_idx_at vq) 2 \<subseteq> span vq 8192" using W(2) sub(1) by blast
  have stat: "hdr + 528 \<in> span hdr 529" using sub(3) span_self [OF zero_less_one, of "hdr + 528"] by blast
  have "span (hdr + 16) 512 \<inter> span (hdr + 528) 1 = {}" by (rule fields_apart) simp_all
  then have stat_data: "hdr + 528 \<notin> span (hdr + 16) 512" using span_self [OF zero_less_one, of "hdr + 528"] by blast
  show "sectors_full d1" using assms(1) by (simp add: d1 sectors_full_def bytes_at_def)
  show "load16 m1 (used_idx_at vq) = load16 m (used_idx_at vq) + 1" by (simp add: m1 mem_simps)
  show "m1 (hdr + 528) = 0" using stat used assms(3) unfolding m1 by (subst store16_other) auto
  have same: "m' z = m z" if "w \<or> z \<notin> span (hdr + 16) 512" for z using that len by (auto simp: m'_def put_bytes_def)
  show "m1 z = m z" if "z \<notin> span vq 8192" "z \<notin> span (hdr + 528) 1" "w \<or> z \<notin> span (hdr + 16) 512"
    using that same used span_self [OF zero_less_one, of "hdr + 528"] unfolding m1 by (subst store16_other) auto
  have "span (used_idx_at vq) 2 \<inter> span (queue_index_at vq) 14 = {}" by (simp add: used_idx_at_def queue_index_at_def apart)
  then have q: "z \<notin> span (used_idx_at vq) 2" "z \<noteq> hdr + 528" "z \<notin> span (hdr + 16) 512" if "z \<in> span (queue_index_at vq) 14" for z
    using that W(1) sub stat assms(3) by blast+
  show "m1 z = m z" if "z \<in> span (queue_index_at vq) 14"
    using q [OF that] same [of z] by (simp add: m1 store16_other)
  show "if w then d1 = disk(load64 m (hdr + 8) := bytes_at m (hdr + 16) 512)
     else d1 = disk \<and> bytes_at m1 (hdr + 16) 512 = disk (load64 m (hdr + 8))"
  proof (cases w)
    case False
    have "bytes_at m1 (hdr + 16) 512 = bytes_at m' (hdr + 16) 512"
    proof (rule bytes_at_cong)
      fix z assume z: "z \<in> span (hdr + 16) 512"
      then have "z \<notin> span (used_idx_at vq) 2" "z \<noteq> hdr + 528" using used sub(2) assms(3) stat_data by blast+
      then show "m1 z = m' z" by (simp add: m1 store16_other)
    qed simp
    also have "\<dots> = ?d" using False len by (simp add: m'_def put_bytes_at)
    finally show ?thesis using False by (simp add: d1)
  qed (simp add: d1)
qed

lemma sync_serves: "serves (sync_bus vq) sectors_full (\<lambda>disk. disk) vq"
  unfolding serves_def
proof (intro allI impI)
  fix m disk hdr w
  assume A: "sectors_full disk" "blk_chain m vq hdr (hdr + 16) (hdr + 528) w" "span vq 8192 \<inter> span hdr 529 = {}"
    and ty: "load32 m hdr = (if w then 1 else 0)"
  obtain m1 d1 where n: "sync_serve vq (m, disk) = (m1, d1)" by fastforce
  note S = sync_serve_request [OF A ty n]
  show "completes (sync_bus vq) 0 vq m disk (served sectors_full (\<lambda>disk. disk) vq hdr w m disk)"
  proof (rule completes_at_once [OF _ _ S(5,2)])
    fix m2 assume m2: "\<And>z. z \<notin> span (last_used_index_at vq) 2 \<Longrightarrow> m2 z = m1 z"
    have last: "span (last_used_index_at vq) 2 \<subseteq> span vq 8192"
      using span_field [of 4096 4096 8192 vq] driver_words(1,5) [of vq] by auto
    have hd: "m2 z = m1 z" if "z \<in> span hdr 529 \<or> z \<notin> span vq 8192" for z using m2 last that A(3) by blast
    have sub: "span (hdr + 16) 512 \<subseteq> span hdr 529" "span (hdr + 528) 1 \<subseteq> span hdr 529" by (rule span_field; simp)+
    have "m2 (hdr + 528) = m1 (hdr + 528)" using hd sub(2) span_self [OF zero_less_one, of "hdr + 528"] by blast
    moreover have "bytes_at m2 (hdr + 16) 512 = bytes_at m1 (hdr + 16) 512" using hd sub(1) by (intro bytes_at_cong) auto
    ultimately show "served sectors_full (\<lambda>disk. disk) vq hdr w m disk m2 d1"
      unfolding served_def using S hd by simp
  qed (simp_all add: sync_bus_def n)
qed

section \<open>Transfers\<close>


text \<open>The driver and the memory of the concrete instances.\<close>

definition small_blk :: blk where
  "small_blk = \<lparr>blk_request_vq = 0x80300000, blk_req = 0x80302000, blk_req_paddr = 0x80302000, blk_capacity = 4096\<rparr>"

definition small_vst :: "(u64 \<Rightarrow> u8 list) vst" where
  "small_vst = \<lparr>vlib = small_heap\<lparr>kmem := store64 (\<lambda>_. 0) 0x80301088 0x80301002\<rparr>, vdev = (\<lambda>_. replicate 512 7)\<rparr>"

lemma small_vq_idle: "vq_idle 0x80300000 (kmem (vlib small_vst))"
proof -
  have z: "load16 (store64 (\<lambda>_. 0) 0x80301088 x) a = 0" if "span 0x80301088 8 \<inter> span a 2 = {}" for x a
    using that by (simp add: mem_simps load16_zero)
  moreover have "load32 (store64 (\<lambda>_. 0) 0x80301088 x) 0x80301084 = 0" for x
    by (subst load_store_apart(6), rule span_disjoint) (simp_all add: load32_zero)
  moreover have "span 0x80301088 8 \<inter> span 0x80301090 2 = {}" "span 0x80301088 8 \<inter> span 0x80301002 2 = {}" by (rule span_disjoint; simp)+
  ultimately show ?thesis
    by (simp add: vq_idle_def small_vst_def queue_index_at_def used_index_at_def used_idx_at_def last_used_index_at_def mem_simps)
qed

lemma small_blk_ready: "blk_ready small_blk (kmem (vlib small_vst))"
proof -
  have "span 0x80300000 8192 \<inter> span 0x80302000 529 = {}" by (rule span_disjoint) simp_all
  then show ?thesis using small_vq_idle by (simp add: blk_ready_def small_blk_def)
qed

lemma small_buf: "buf_ok small_blk 0x80304000" "buf_ok small_blk 0x80305000"
proof -
  have "span 0x80304000 512 \<inter> span 0x80302000 529 = {}" "span 0x80304000 512 \<inter> span 0x80300000 8192 = {}"
    "span 0x80305000 512 \<inter> span 0x80302000 529 = {}" "span 0x80305000 512 \<inter> span 0x80300000 8192 = {}"
    by (rule span_disjoint; simp)+
  then show "buf_ok small_blk 0x80304000" "buf_ok small_blk 0x80305000" by (simp_all add: buf_ok_def small_blk_def)
qed

lemma small_device: "serves (sync_bus 0x80300000) sectors_full (\<lambda>disk. disk) (blk_request_vq small_blk)" "sectors_full (vdev small_vst)"
  using sync_serves [of "0x80300000"] by (simp_all add: small_blk_def small_vst_def sectors_full_def)




section \<open>Initialisation\<close>

lemma small_alloc:
  obtains k where "init_memory small_heap = Inr k" "alloc_inv True k small_free"
  using small_heap_init by metis



lemma bind_resE:
  assumes "bind_res r f = Inr y"
  obtains x where "r = Inr x" "f x = Inr y"
  using assms by (cases r) simp_all

lemma if_InlD: "(if c then Inl e else r) = Inr y \<Longrightarrow> r = Inr y"
  by (simp split: if_splits)

lemma blk_initE:
  assumes "virtio_blk_init bus v = Inr (b, v')"
  obtains u k where "v' = (virtio_reg_write32 bus 0 VIRTR_DEV_STATUS_O VIRTIO_STATUS_DRIVER_OK u)\<lparr>vlib := k\<rparr>"
proof -
  note A = assms [unfolded virtio_blk_init_def Let_def, THEN if_InlD, THEN if_InlD, THEN if_InlD]
  show thesis using A by (elim bind_resE) (auto split: prod.splits elim!: bind_resE dest!: if_InlD intro: that)
qed

text \<open>
  The last write of \<open>virtio_blk_init\<close> to the status register is \<open>DRIVER_OK\<close> alone. On a device whose status
  register holds what was written, the bits \<open>ACKNOWLEDGE\<close>, \<open>DRIVER\<close> and \<open>FEATURES_OK\<close> that were set
  one by one before are cleared when the initialisation returns.
\<close>

theorem blk_init_clears_status:
  assumes "virtio_blk_init bus v = Inr (b, v')"
    and "\<forall>x s. bus_read32 bus (virtio_reg 0 VIRTR_DEV_STATUS_O) (snd (bus_write32 bus (virtio_reg 0 VIRTR_DEV_STATUS_O) x s)) = x"
  shows "virtio_reg_read32 bus 0 VIRTR_DEV_STATUS_O v' = VIRTIO_STATUS_DRIVER_OK"
proof -
  obtain u k where v': "v' = (virtio_reg_write32 bus 0 VIRTR_DEV_STATUS_O VIRTIO_STATUS_DRIVER_OK u)\<lparr>vlib := k\<rparr>"
    using assms(1) by (rule blk_initE)
  obtain m d where "bus_write32 bus (virtio_reg 0 VIRTR_DEV_STATUS_O) VIRTIO_STATUS_DRIVER_OK (kmem (vlib u), vdev u) = (m, d)" by fastforce
  then show ?thesis
    using assms(2) [rule_format, of VIRTIO_STATUS_DRIVER_OK "(kmem (vlib u), vdev u)"]
    by (simp add: v' virtio_reg_read32_def virtio_reg_write32_def)
qed

text \<open>A device whose state is its status register.\<close>

definition status_bus :: "u32 bus" where
  "status_bus = \<lparr>bus_read32 = (\<lambda>a d. if a = virtio_reg 0 VIRTR_DEV_STATUS_O then d
       else if a = virtio_reg 0 VIRTR_MAGIC_O then VIRTIO_MAGIC_NUMBER else if a = virtio_reg 0 VIRTR_VERSION_O then 1 else 2),
     bus_read64 = (\<lambda>_ _. 8),
     bus_write32 = (\<lambda>a x (m, d). (m, if a = virtio_reg 0 VIRTR_DEV_STATUS_O then x else d)),
     bus_step = (\<lambda>s. s)\<rparr>"

lemma status_device: "blk_device status_bus (\<lambda>_. True)"
  by (auto simp: virtio_device_def status_bus_def virtio_reg_def VIRTR_DEV_STATUS_O_def VIRTR_MAGIC_O_def VIRTR_VERSION_O_def
      VIRTR_DEV_ID_O_def VIRTR_QUEUE_NOTIFY_O_def VIRTIO_DEVICE_BLK_def)

theorem blk_init_clears_status_witness:
  "\<exists>k b v'. init_memory small_heap = Inr k \<and> virtio_blk_init status_bus \<lparr>vlib = k, vdev = 0\<rparr> = Inr (b, v') \<and> vdev v' = 4"
proof -
  obtain k where k: "init_memory small_heap = Inr k" "alloc_inv True (vlib \<lparr>vlib = k, vdev = 0 :: u32\<rparr>) small_free"
    using small_alloc by auto
  have "small_free \<subseteq> {..< 2 ^ 32}" "12288 \<le> card small_free" by (auto simp: small_free_def)
  then obtain b v' where b: "virtio_blk_init status_bus \<lparr>vlib = k, vdev = 0\<rparr> = Inr (b, v')"
    using virtio_blk_init_ok [OF status_device _ k(2)] by metis
  have "virtio_reg_read32 status_bus 0 VIRTR_DEV_STATUS_O v' = VIRTIO_STATUS_DRIVER_OK"
    by (rule blk_init_clears_status [OF b]) (simp add: status_bus_def)
  then have "vdev v' = 4" by (simp add: virtio_reg_read32_def status_bus_def VIRTIO_STATUS_DRIVER_OK_def)
  with k(1) b show ?thesis by blast
qed

end
