(* ===== verification/Gpu_Props.thy ===== *)
theory Gpu_Props
  imports Gpu_Init Driver_Props
begin

text \<open>Properties of the GPU driver, and a device that serves it at once to instantiate them.\<close>

section \<open>Drawing\<close>

text \<open>
  (C37) \<open>draw_rect\<close> draws what its comment says. When no limit exceeds 32 bits, a rectangle with size 0 is
  filled; one with another size is a frame: the columns from \<open>x\<close> to \<open>x + w + size\<close> and the rows from
  \<open>y\<close> to \<open>y + h + size\<close>, less the inner columns from \<open>x + size\<close> to \<open>x + w\<close> and rows from
  \<open>y + size\<close> to \<open>y + h\<close>. Every other pixel of the screen keeps its colour, what lies
  off the screen is not drawn, and no byte outside the framebuffer changes.
\<close>

theorem draw_rect_frame:
  assumes "unat x + unat w + unat sz < 2 ^ 32" "unat y + unat h + unat sz < 2 ^ 32"
  shows "(\<forall>px < 640. \<forall>py < 480. screen (draw_rect gfb fb x y w h sz c m) gfb px py =
      (if unat x \<le> px \<and> px < unat x + unat w + unat sz \<and> unat y \<le> py \<and> py < unat y + unat h + unat sz \<and>
          \<not> (sz \<noteq> 0 \<and> unat x + unat sz \<le> px \<and> px < unat x + unat w \<and> unat y + unat sz \<le> py \<and> py < unat y + unat h)
       then c else screen m gfb px py)) \<and>
    (\<forall>z. z \<notin> span gfb 1228800 \<longrightarrow> draw_rect gfb fb x y w h sz c m z = m z)"
proof -
  have u: "unat (x + w) = unat x + unat w" "unat (y + h) = unat y + unat h" "unat (x + sz) = unat x + unat sz" "unat (y + sz) = unat y + unat sz"
    "unat (y + h + sz) = unat y + unat h + unat sz" "unat (x + w + sz) = unat x + unat w + unat sz" "unat (y + (h + sz)) = unat y + unat h + unat sz"
    using assms by (simp_all add: unat_word_ariths add.assoc)
  show ?thesis
  proof (cases "sz = 0")
    case True
    then show ?thesis by (simp add: draw_rect_def fill_rect_screen fill_rect_other in_rect_def u)
  next
    case False
    then show ?thesis by (auto simp: draw_rect_def stroke_rect_def Let_def fill_rect_screen fill_rect_other in_rect_def u)
  qed
qed

theorem draw_rect_frame_witness:
  "screen (draw_rect 0x80400000 0 630 10 5 5 1 black (\<lambda>_. 9)) 0x80400000 630 10 = black \<and>
   screen (draw_rect 0x80400000 0 630 10 5 5 1 black (\<lambda>_. 9)) 0x80400000 631 11 = screen (\<lambda>_. 9) 0x80400000 631 11"
  using draw_rect_frame [of 630 5 1 10 5 "0x80400000" 0 black "\<lambda>_. 9"] by simp

section \<open>A device\<close>

text \<open>
  The device of the examples remembers where its queue and the memory of its resource are, holds the picture of
  the resource and of the display, and answers every command at once.
\<close>

record gdev =
  d_queue :: u64
  d_backing :: u64
  d_host :: "nat \<Rightarrow> nat \<Rightarrow> pixel"
  d_shown :: "nat \<Rightarrow> nat \<Rightarrow> pixel"

definition gpu_effect :: "mem \<Rightarrow> u32 \<Rightarrow> gdev \<Rightarrow> gdev" where
  "gpu_effect m ty d =
     (if ty = 0x106 then d\<lparr>d_backing := load64 m (load64 m (d_queue d + 16))\<rparr>
      else if ty = 0x105 then d\<lparr>d_host := screen m (d_backing d)\<rparr>
      else if ty = 0x104 then d\<lparr>d_shown := d_host d\<rparr> else d)"

definition gpu_serve :: "mem \<times> gdev \<Rightarrow> mem \<times> gdev" where
  "gpu_serve s =
     (case s of (m, d) \<Rightarrow>
        let vq = d_queue d; ty = load32 m (load64 m vq);
            resp = (if ty = 0x105 \<or> ty = 0x106 then load64 m (vq + 32) else load64 m (vq + 16))
        in (store16 (store64 m resp 0x1100) (used_idx_at vq) (load16 m (used_idx_at vq) + 1), gpu_effect m ty d))"

definition sync_gpu :: "gdev bus" where
  "sync_gpu = \<lparr>bus_read32 = (\<lambda>a _. if a = virtio_reg 1 VIRTR_MAGIC_O then VIRTIO_MAGIC_NUMBER
       else if a = virtio_reg 1 VIRTR_VERSION_O then 1 else VIRTIO_DEVICE_GPU),
     bus_read64 = (\<lambda>_ _. 0),
     bus_write32 = (\<lambda>a x s. if a = virtio_reg 1 VIRTR_QUEUE_NOTIFY_O then gpu_serve s
       else if a = virtio_reg 1 VIRTR_QUEUE_PFN_O then (fst s, (snd s)\<lparr>d_queue := ucast x\<rparr>) else s),
     bus_step = (\<lambda>s. s)\<rparr>"

lemma sync_gpu_answers:
  assumes "span vq 8192 \<inter> span resp 8 = {}" "J d1" "res d1"
    and "gpu_serve (m, d) = (store16 (store64 m resp 0x1100) (used_idx_at vq) (load16 m (used_idx_at vq) + 1), d1)"
  shows "completes sync_gpu 1 vq m d (answers J vq resp m res)"
proof (rule completes_at_once [where ?m1.0 = "store16 (store64 m resp 0x1100) (used_idx_at vq) (load16 m (used_idx_at vq) + 1)" and ?d1.0 = d1])
  let ?m1 = "store16 (store64 m resp 0x1100) (used_idx_at vq) (load16 m (used_idx_at vq) + 1)"
  note W = driver_words [of vq]
  have tail: "span (vq + 4096) 4096 \<subseteq> span vq 8192" by (rule span_field) simp_all
  have dis: "span (used_idx_at vq) 2 \<inter> span (queue_index_at vq) 14 = {}" by (simp add: used_idx_at_def queue_index_at_def apart)
  have used: "span (used_idx_at vq) 2 \<subseteq> span vq 8192" "span (last_used_index_at vq) 2 \<subseteq> span vq 8192" using W(1,2,5) tail by blast+
  show "?m1 z = m z" if "z \<in> span (queue_index_at vq) 14" for z
  proof -
    have "z \<notin> span (used_idx_at vq) 2" "z \<notin> span resp 8" using that dis W(1) tail assms(1) by blast+
    then show ?thesis by (simp add: store_other)
  qed
  show "load16 ?m1 (used_idx_at vq) = load16 m (used_idx_at vq) + 1" by (simp add: mem_simps)
  fix m2 assume m2: "\<And>z. z \<notin> span (last_used_index_at vq) 2 \<Longrightarrow> m2 z = ?m1 z"
  have out: "m2 z = store64 m resp 0x1100 z" if "z \<notin> span vq 8192" for z
  proof -
    have "z \<notin> span (used_idx_at vq) 2" "z \<notin> span (last_used_index_at vq) 2" using that used by blast+
    then show ?thesis using m2 [of z] by (simp add: store16_other)
  qed
  have "load64 m2 resp = load64 (store64 m resp 0x1100) resp"
  proof (intro load64_cong out)
    show "z \<notin> span vq 8192" if "z \<in> span resp 8" for z using that assms(1) by blast
  qed
  then show "answers J vq resp m res m2 d1"
    using assms(2,3) out by (simp add: answers_def mem_simps store64_other)
qed (simp_all add: sync_gpu_def assms(4))

abbreviation gpu_shows :: "u64 \<Rightarrow> u64 \<Rightarrow> gdev \<Rightarrow> bool" where
  "gpu_shows vq fb d \<equiv> d_queue d = vq \<and> d_backing d = fb"

lemma sync_gpu_serves: "gpu_serves sync_gpu (gpu_shows vq fb) vq fb d_host d_shown"
  unfolding gpu_serves_def
proof (intro allI impI conjI)
  fix m d cmd resp x n
  assume d: "gpu_shows vq fb d" and apt: "span vq 8192 \<inter> span resp 8 = {}"
  show "completes sync_gpu 1 vq m d (answers (gpu_shows vq fb) vq resp m (\<lambda>d'. same_picture (d_host d') (screen m fb)))"
    if "three_chain m vq cmd 56 x n resp" "whole_command m cmd 0x105"
    by (rule sync_gpu_answers [OF apt, where ?d1.0 = "d\<lparr>d_host := screen m fb\<rparr>"])
      (use that d in \<open>simp_all add: gpu_serve_def gpu_effect_def Let_def three_chain_def whole_command_def same_picture_def\<close>)
  show "completes sync_gpu 1 vq m d (answers (gpu_shows vq fb) vq resp m (\<lambda>d'. d_host d' = d_host d \<and> same_picture (d_shown d') (d_host d)))"
    if "two_chain m vq cmd 48 resp" "whole_command m cmd 0x104"
    by (rule sync_gpu_answers [OF apt, where ?d1.0 = "d\<lparr>d_shown := d_host d\<rparr>"])
      (use that d in \<open>simp_all add: gpu_serve_def gpu_effect_def Let_def two_chain_def whole_command_def same_picture_def\<close>)
qed

lemma sync_gpu_sets_up: "gpu_sets_up sync_gpu (\<lambda>_. True) (\<lambda>vq d. d_queue d = vq) (\<lambda>vq d. d_queue d = vq) gpu_shows gpu_shows"
  unfolding gpu_sets_up_def
proof (intro allI impI conjI)
  show "virtio_device sync_gpu 1 VIRTIO_DEVICE_GPU (\<lambda>_. True)"
    by (auto simp: virtio_device_def sync_gpu_def virtio_reg_inj VIRTR_MAGIC_O_def VIRTR_VERSION_O_def VIRTR_DEV_ID_O_def)
next
  fix vq and d :: gdev assume "unat vq < 2 ^ 32" "queue_told sync_gpu 1 (\<lambda>_. True) vq d"
  then show "d_queue d = vq"
    using ucast_ucast_64 [of vq] by (auto simp: queue_told_def sync_gpu_def virtio_reg_inj VIRTR_QUEUE_NOTIFY_O_def VIRTR_QUEUE_PFN_O_def)
next
  fix vq m x and d :: gdev assume "d_queue d = vq"
  then show "fst (bus_write32 sync_gpu (virtio_reg 1 VIRTR_DEV_STATUS_O) x (m, d)) = m"
    "d_queue (snd (bus_write32 sync_gpu (virtio_reg 1 VIRTR_DEV_STATUS_O) x (m, d))) = vq"
    by (simp_all add: sync_gpu_def virtio_reg_inj VIRTR_QUEUE_NOTIFY_O_def VIRTR_QUEUE_PFN_O_def VIRTR_DEV_STATUS_O_def)
next
  fix vq m cmd resp e fb and d :: gdev assume apt: "span vq 8192 \<inter> span resp 8 = {}"
  show "completes sync_gpu 1 vq m d (answers (\<lambda>d. d_queue d = vq) vq resp m (\<lambda>_. True))"
    if "d_queue d = vq" "two_chain m vq cmd 40 resp" "create_command m cmd"
    by (rule sync_gpu_answers [OF apt, where ?d1.0 = d])
      (use that in \<open>simp_all add: gpu_serve_def gpu_effect_def Let_def two_chain_def create_command_def\<close>)
  show "completes sync_gpu 1 vq m d (answers (gpu_shows vq fb) vq resp m (\<lambda>_. True))"
    if "d_queue d = vq" "three_chain m vq cmd 32 e 16 resp" "attach_command m cmd" "mem_entry m e fb"
    by (rule sync_gpu_answers [OF apt, where ?d1.0 = "d\<lparr>d_backing := fb\<rparr>"])
      (use that in \<open>simp_all add: gpu_serve_def gpu_effect_def Let_def three_chain_def attach_command_def mem_entry_def\<close>)
  show "completes sync_gpu 1 vq m d (answers (gpu_shows vq fb) vq resp m (\<lambda>_. True))"
    if "gpu_shows vq fb d" "two_chain m vq cmd 48 resp" "scanout_command m cmd"
    by (rule sync_gpu_answers [OF apt, where ?d1.0 = d])
      (use that in \<open>simp_all add: gpu_serve_def gpu_effect_def Let_def two_chain_def scanout_command_def whole_command_def\<close>)
qed

definition small_gpu :: gpu where
  "small_gpu = \<lparr>gpu_request_vq = 0x80300000, gpu_req = 0x80302000, gpu_req_paddr = 0x80302000, framebuffer = 0x80400000\<rparr>"

definition small_locals :: gpu_locals where
  "small_locals = \<lparr>create2d_at = 0x80210000, attach_at = 0x80210040, mem_entry_at = 0x80210080, scanout_at = 0x802100c0,
     transfer_at = 0x80210800, flush_at = 0x80210840\<rparr>"

definition small_gst :: "gdev vst" where
  "small_gst = \<lparr>vlib = vlib small_vst,
     vdev = \<lparr>d_queue = 0x80300000, d_backing = 0x80400000, d_host = \<lambda>_ _. black, d_shown = \<lambda>_ _. black\<rparr>\<rparr>"

lemma small_gpu_areas: "gpu_areas small_gpu small_locals"
proof -
  have "span 0x80300000 8192 \<inter> span 0x80400000 1228800 = {}" "span 0x80300000 8192 \<inter> span 0x80210800 56 = {}"
    "span 0x80300000 8192 \<inter> span 0x80210840 48 = {}" "span 0x80300000 8192 \<inter> span 0x802109c0 8 = {}"
    "span 0x80400000 1228800 \<inter> span 0x80210800 56 = {}" "span 0x80400000 1228800 \<inter> span 0x80210840 48 = {}"
    "span 0x80400000 1228800 \<inter> span 0x802109c0 8 = {}" by (rule span_disjoint; simp)+
  then show ?thesis by (simp add: gpu_areas_def small_gpu_def small_locals_def)
qed

lemma small_gpu_ready: "vq_idle (gpu_request_vq small_gpu) (kmem (vlib small_gst))"
  "gpu_serves sync_gpu (gpu_shows 0x80300000 0x80400000) (gpu_request_vq small_gpu) (framebuffer small_gpu) d_host d_shown"
  "gpu_shows 0x80300000 0x80400000 (vdev small_gst)"
  using small_vq_idle sync_gpu_serves by (simp_all add: small_gpu_def small_gst_def)

section \<open>Frames\<close>



lemma bounce_square:
  assumes "gpu_serves bus I (gpu_request_vq g) (framebuffer g) host shown" "I (vdev v)"
    and "vq_idle (gpu_request_vq g) (kmem (vlib v))" "gpu_areas g lo" "0 < n"
  shows "\<exists>b v'. bounce bus lo g n v = Inr (b, v') \<and>
    (let X = (if n mod 1152 \<le> 576 then n mod 1152 else 1152 - n mod 1152); Y = (if n mod 832 \<le> 416 then n mod 832 else 832 - n mod 832) in
     \<forall>x < 640. \<forall>y < 480. shown (vdev v') x y = (if X \<le> x \<and> x < X + 64 \<and> Y \<le> y \<and> y < Y + 64 then black else white))"
proof -
  obtain v' where "bounce bus lo g n v = Inr (ball_at n, v')" "same_picture (shown (vdev v')) (ball_picture (ball_at n))"
    using bounce_ok [OF assms(1-4)] assms(5) by blast
  moreover have "to_and_fro 576 n = (if n mod 1152 \<le> 576 then n mod 1152 else 1152 - n mod 1152)"
    "to_and_fro 416 n = (if n mod 832 \<le> 416 then n mod 832 else 832 - n mod 832)" by (simp_all add: to_and_fro_def Let_def)
  ultimately show ?thesis
    by (intro exI [of _ "ball_at n"] exI [of _ v']) (simp only: same_picture_def ball_picture_def ball_at_bounds Let_def simp_thms)
qed

text \<open>
  The bouncing square. Every iteration of \<open>bounce\<close> ends, and after \<open>n\<close> iterations the display shows a black square
  of 64 by 64 pixels on white. Its column runs to and fro between 0 and 576 and its row between 0 and 416, one
  pixel an iteration, so that the square is always wholly on the screen.
\<close>

theorem bounce_shows_square:
  assumes "gpu_serves bus I (gpu_request_vq g) (framebuffer g) host shown" "I (vdev v)"
    and "vq_idle (gpu_request_vq g) (kmem (vlib v))" "gpu_areas g lo" "0 < n"
  shows "\<exists>b v'. bounce bus lo g n v = Inr (b, v') \<and>
    (let X = (if n mod 1152 \<le> 576 then n mod 1152 else 1152 - n mod 1152); Y = (if n mod 832 \<le> 416 then n mod 832 else 832 - n mod 832) in
     \<forall>x < 640. \<forall>y < 480. shown (vdev v') x y = (if X \<le> x \<and> x < X + 64 \<and> Y \<le> y \<and> y < Y + 64 then black else white))"
  by (rule bounce_square [OF assms])

theorem bounce_shows_square_witness:
  "\<exists>b v'. bounce sync_gpu small_locals small_gpu 600 small_gst = Inr (b, v') \<and>
     d_shown (vdev v') 552 232 = black \<and> d_shown (vdev v') 551 232 = white"
proof -
  have "\<exists>b v'. bounce sync_gpu small_locals small_gpu 600 small_gst = Inr (b, v') \<and>
    (let X = (if (600 :: nat) mod 1152 \<le> 576 then 600 mod 1152 else 1152 - 600 mod 1152);
         Y = (if (600 :: nat) mod 832 \<le> 416 then 600 mod 832 else 832 - 600 mod 832) in
     \<forall>x < 640. \<forall>y < 480. d_shown (vdev v') x y = (if X \<le> x \<and> x < X + 64 \<and> Y \<le> y \<and> y < Y + 64 then black else white))"
    by (rule bounce_shows_square [OF small_gpu_ready(2,3,1) small_gpu_areas]) simp
  then show ?thesis by (auto simp: Let_def)
qed

section \<open>From the reset on\<close>


text \<open>An instance: 1024 pages from the address where the linker script puts kernel memory, and the device at rest.\<close>

definition big_heap :: kst where
  "big_heap = small_heap\<lparr>heap_end := 0x80700000\<rparr>"

definition big_free :: "nat set" where
  "big_free = {0x80300000 ..< 0x80700000}"

definition gpu_at_rest :: gdev where
  "gpu_at_rest = \<lparr>d_queue = 0, d_backing = 0, d_host = \<lambda>_ _. black, d_shown = \<lambda>_ _. black\<rparr>"

lemma big_alloc:
  obtains k where "init_memory big_heap = Inr k" "alloc_inv True k big_free"
  using init_memory_ok [of big_heap] by (auto simp: big_heap_def small_heap_def big_free_def)

lemma small_locals_ok: "locals_ok small_locals big_free"
proof -
  have "unat z < 0x80300000" if "z \<in> init_areas small_locals \<union> frame_areas small_locals" for z
    using that by (auto simp: init_areas_def frame_areas_def small_locals_def in_span_iff)
  moreover have "span (attach_at small_locals) 32 \<inter> span (mem_entry_at small_locals) 16 = {}"
    by (rule span_disjoint) (simp_all add: small_locals_def)
  ultimately show ?thesis unfolding locals_ok_def big_free_def by fastforce
qed


end
