(* ===== verification/Sbi.thy ===== *)
theory Sbi
  imports User_Stdio
begin

text \<open>
  The calls into the firmware, \<open>drivers/boot/sbi.c\<close>, and the console of the kernel on top of them. The firmware is not part
  of the repository: it is a parameter \<open>fw\<close> that takes the general registers at the \<open>ecall\<close> and its own state and gives the new
  \<open>a0\<close>, \<open>a1\<close> and state. \<open>sbi_console\<close> states what the specification of the legacy console extension says of it: call 1 sends the low byte of
  its argument, call 2 returns a byte or \<open>-1\<close> and sends nothing.
\<close>

record sbiret =
  sbi_error :: u64
  sbi_value :: u64

type_synonym 'f firmware = "(reg \<Rightarrow> u64) \<Rightarrow> 'f \<Rightarrow> u64 \<times> u64 \<times> 'f"

text \<open>The state of the calls: the general registers and the firmware.\<close>

type_synonym 'f sbi_state = "(reg \<Rightarrow> u64) \<times> 'f"

definition sbi_call ::
  "'f firmware \<Rightarrow> u64 \<Rightarrow> u64 \<Rightarrow> u64 \<Rightarrow> u64 \<Rightarrow> u64 \<Rightarrow> u64 \<Rightarrow> u64 \<Rightarrow> u64 \<Rightarrow> 'f sbi_state \<Rightarrow> sbiret \<times> 'f sbi_state" where
  "sbi_call fw arg0 arg1 arg2 arg3 arg4 arg5 fid eid st =
     (case st of (r, d) \<Rightarrow>
       let r = r(A0 := arg0, A1 := arg1, A2 := arg2, A3 := arg3, A4 := arg4, A5 := arg5, A6 := fid, A7 := eid)
       in case fw r d of (a0, a1, d) \<Rightarrow>
            (\<lparr>sbi_error = a0, sbi_value = a1\<rparr>, (r(A0 := a0, A1 := a1), d)))"

definition sbi_putc :: "'f firmware \<Rightarrow> u8 \<Rightarrow> 'f sbi_state \<Rightarrow> sbiret \<times> 'f sbi_state" where
  "sbi_putc fw c st = sbi_call fw (ucast c) 0 0 0 0 0 0 1 st"

definition sbi_getc :: "'f firmware \<Rightarrow> 'f sbi_state \<Rightarrow> u64 \<times> 'f sbi_state" where
  "sbi_getc fw st = (case sbi_call fw 0 0 0 0 0 0 0 2 st of (ret, st) \<Rightarrow> (sbi_error ret, st))"

text \<open>\<open>getc\<close> and \<open>putc\<close> of \<open>klib/stdio.c\<close>; \<open>putc\<close> ignores the result.\<close>

definition klib_getc :: "'f firmware \<Rightarrow> 'f sbi_state \<Rightarrow> u64 \<times> 'f sbi_state" where
  "klib_getc fw st = sbi_getc fw st"

definition sbi_sink :: "'f firmware \<Rightarrow> 'f sbi_state sink" where
  "sbi_sink fw c st = Inr (snd (sbi_putc fw c st))"

section \<open>The console extension\<close>

definition sbi_console :: "'f firmware \<Rightarrow> ('f \<Rightarrow> u8 list) \<Rightarrow> bool" where
  "sbi_console fw out \<longleftrightarrow>
     (\<forall>r d. r A7 = 1 \<longrightarrow> (case fw r d of (a0, a1, d') \<Rightarrow> out d' = out d @ [ucast (r A0)])) \<and>
     (\<forall>r d. r A7 = 2 \<longrightarrow> (case fw r d of (a0, a1, d') \<Rightarrow> out d' = out d \<and> (a0 = - 1 \<or> a0 < 256)))"

lemma ucast_byte_back: "(ucast (ucast (c :: u8) :: u64) :: u8) = c"
  by (rule bit_eqI) (auto simp: bit_simps)

lemma sbi_putc_sends:
  assumes "sbi_console fw out"
  shows "out (snd (snd (sbi_putc fw c st))) = out (snd st) @ [c]"
proof -
  obtain r d where st: "st = (r, d)" by (cases st)
  let ?r = "r(A0 := ucast c, A1 := 0, A2 := 0, A3 := 0, A4 := 0, A5 := 0, A6 := 0, A7 := 1)"
  obtain a0 a1 d' where fw: "fw ?r d = (a0, a1, d')" by (cases "fw ?r d")
  have "out d' = out d @ [c]"
    using assms [unfolded sbi_console_def, THEN conjunct1, THEN spec, of ?r, THEN spec, of d, THEN mp] unfolding fw by (simp add: ucast_byte_back)
  then show ?thesis using fw by (simp add: sbi_putc_def sbi_call_def st Let_def)
qed

text \<open>An answer of \<open>sbi_getc\<close> is a byte exactly when the kernel, which tests its sign, takes it for one.\<close>

lemma sbi_getc_answer:
  assumes "sbi_console fw out"
  shows "out (snd (snd (sbi_getc fw st))) = out (snd st)"
    and "0 \<le> sint (fst (sbi_getc fw st)) \<longleftrightarrow> fst (sbi_getc fw st) < 256"
    and "sint (fst (sbi_getc fw st)) < 0 \<longleftrightarrow> fst (sbi_getc fw st) = - 1"
proof -
  obtain r d where st: "st = (r, d)" by (cases st)
  let ?r = "r(A0 := 0, A1 := 0, A2 := 0, A3 := 0, A4 := 0, A5 := 0, A6 := 0, A7 := 2)"
  obtain a0 a1 d' where fw: "fw ?r d = (a0, a1, d')" by (cases "fw ?r d")
  have A: "out d' = out d" "a0 = - 1 \<or> a0 < 256"
    using assms [unfolded sbi_console_def, THEN conjunct2, THEN spec, of ?r, THEN spec, of d, THEN mp] unfolding fw by simp_all
  have G: "fst (sbi_getc fw st) = a0" "snd (snd (sbi_getc fw st)) = d'" by (simp_all add: sbi_getc_def sbi_call_def st fw Let_def)
  show "out (snd (snd (sbi_getc fw st))) = out (snd st)" using A(1) G(2) st by simp
  have "0 \<le> sint a0" if "a0 < 256"
  proof -
    have "uint a0 < 2 ^ 63" using that by (simp add: word_less_def)
    then have "signed_take_bit 63 (uint a0) = uint a0" by (intro signed_take_bit_int_eq_self) (simp_all add: order_trans [OF _ uint_ge_0])
    then show ?thesis by (simp add: sint_uint)
  qed
  moreover have "sint (- 1 :: u64) < 0" "\<not> (- 1 :: u64) < 256" by simp_all
  ultimately have "(0 \<le> sint a0 \<longleftrightarrow> a0 < 256) \<and> (sint a0 < 0 \<longleftrightarrow> a0 = - 1)" using A(2) by (metis not_less)
  then show "0 \<le> sint (fst (sbi_getc fw st)) \<longleftrightarrow> fst (sbi_getc fw st) < 256" "sint (fst (sbi_getc fw st)) < 0 \<longleftrightarrow> fst (sbi_getc fw st) = - 1"
    unfolding G(1) by simp_all
qed

interpretation sbi_port: console_port "sbi_sink fw" "\<lambda>st. sbi_console fw out" "\<lambda>st. out (snd st)" for fw out
  by unfold_locales (simp add: sbi_sink_def sbi_putc_sends)

section \<open>The kernel's output\<close>

text \<open>
  (C39) \<open>printf\<close> of the kernel through the firmware. For every firmware that implements the legacy console extension, the formatted output, in which every byte is a
  call into the firmware and numbers go through an array in memory, fails exactly when the model of \<open>printf\<close> over a list of bytes does, with the
  same fault, and otherwise the firmware has sent exactly the bytes that this model appends; memory outside the array is unchanged. So the console of the other
  theories, a list of bytes, is what the firmware has sent.
\<close>

theorem firmware_printf_prints:
  assumes "sbi_console fw out"
    and "\<forall>a \<in> set (string_args (bytes_of format) args). \<exists>w. cstr m a w \<and> span a (Suc (length w)) \<inter> span buffer 32 = {}"
  shows "case printf m format args (out d) of
      Inl e \<Rightarrow> out_printf (sbi_sink fw) buffer format args (m, (r, d)) = Inl e
    | Inr con \<Rightarrow> \<exists>m' r' d'. out_printf (sbi_sink fw) buffer format args (m, (r, d)) = Inr (m', (r', d')) \<and> out d' = con \<and>
        (\<forall>z. z \<notin> span buffer 32 \<longrightarrow> m' z = m z)"
proof -
  have "same_outside buffer m m" by (simp add: same_outside_def)
  moreover have "\<forall>a \<in> set (string_args (bytes_of format) args). text_apart m buffer a" using assms(2) by (simp add: text_apart_def)
  ultimately have "sbi_port.prints fw out buffer m (out_vprintf (sbi_sink fw) buffer (bytes_of format) args (m, (r, d)))
      (vprintf m (bytes_of format) args (out (snd (r, d))))"
    using assms(1) by (intro sbi_port.vprintf_text)
  then show ?thesis
    unfolding sbi_port.prints_def printf_def out_printf_def by (auto simp: same_outside_def split: sum.splits)
qed

text \<open>A firmware whose state is the list of the bytes it has sent, and which has no key.\<close>

definition plain_firmware :: "u8 list firmware" where
  "plain_firmware r out = (if r A7 = 1 then (0, 0, out @ [ucast (r A0)]) else (- 1, r A1, out))"

theorem firmware_printf_prints_witness:
  "\<exists>m' r' d'. out_printf (sbi_sink plain_firmware) 0x80300000 (''0x%x'' @ [CHR 0x0A]) [0x2A] (\<lambda>_. 0, (\<lambda>_. 0, [])) = Inr (m', (r', d')) \<and>
     d' = bytes_of ''0x2A'' @ [13, 10]"
proof -
  let ?f = "''0x%x'' @ [CHR 0x0A]"
  have fw: "sbi_console plain_firmware (\<lambda>d. d)" by (simp add: sbi_console_def plain_firmware_def)
  have H: "\<forall>a \<in> set (string_args (bytes_of ?f) [0x2A]). \<exists>w. cstr (\<lambda>_. 0) a w \<and> span a (Suc (length w)) \<inter> span 0x80300000 32 = {}" by simp
  have "utoa 0x2A 16 = Inr [50, 65]" by (simp add: utoa_numeral numeral_of_def nat_digits.simps digit_chars_def)
  then have x: "printf_conv m (byte_of CHR ''x'') [0x2A] con = Inr (con @ [50, 65], [])" for m con by (simp add: printf_conv_def)
  have fmt: "bytes_of ?f = bytes_of ''0x'' @ byte_of CHR ''%'' # byte_of CHR ''x'' # [10]" by simp
  have pct: "byte_of CHR ''%'' \<notin> set (bytes_of ''0x'')" by simp
  have run: "printf m ?f [0x2A] con = Inr (con @ bytes_of ''0x2A'' @ [13, 10])" for m con
    unfolding printf_def fmt vprintf_literal [OF pct] vprintf_conv x bind_res_simps prod.case by (simp add: putc_def crlf_def)
  show ?thesis using firmware_printf_prints [OF fw H, where d = "[]" and r = "\<lambda>_. 0"] unfolding run by auto
qed

end
