(* ===== verification/Uart.thy ===== *)
theory Uart
  imports Klib_Stdio
begin

text \<open>
  Two drivers of memory-mapped devices: the serial port, \<open>drivers/char_dev/uart.c\<close>, and the real-time clock,
  \<open>drivers/time/rtc.c\<close>. Neither is called by \<open>kmain\<close>, which prints through the firmware. A device is a parameter: what a store of a byte to, and a load
  from, one of its addresses does to its state.
\<close>

section \<open>The serial port\<close>

definition UART0 :: u64 where "UART0 = 0x10000000"
definition INTERRUPT_ENABLE_REGISTER :: u64 where "INTERRUPT_ENABLE_REGISTER = 0x1"
definition INTERRUPT_ENABLE_REGISTER_RX_ENABLE :: u8 where "INTERRUPT_ENABLE_REGISTER_RX_ENABLE = 0x1"
definition INTERRUPT_ENABLE_REGISTER_TX_ENABLE :: u8 where "INTERRUPT_ENABLE_REGISTER_TX_ENABLE = 0x2"
definition LINE_CONTROL_REGISTER :: u64 where "LINE_CONTROL_REGISTER = 0x3"
definition LINE_CONTROL_REGISTER_BAUD_LATCH :: u8 where "LINE_CONTROL_REGISTER_BAUD_LATCH = push_bit 7 0x1"
definition LINE_CONTROL_REGISTER_EIGHT_BITS_NO_PARITY :: u8 where "LINE_CONTROL_REGISTER_EIGHT_BITS_NO_PARITY = 0x3"
definition FIFO_CONTROL_REGISTER :: u64 where "FIFO_CONTROL_REGISTER = 0x2"
definition FIFO_CONTROL_REGISTER_ENABLE :: u8 where "FIFO_CONTROL_REGISTER_ENABLE = 0x1"
definition FIFO_CONTROL_REGISTER_CLEAR_RX :: u8 where "FIFO_CONTROL_REGISTER_CLEAR_RX = 0x2"
definition FIFO_CONTROL_REGISTER_CLEAR_TX :: u8 where "FIFO_CONTROL_REGISTER_CLEAR_TX = 0x4"

type_synonym 'd byte_store = "u64 \<Rightarrow> u8 \<Rightarrow> 'd \<Rightarrow> 'd"
type_synonym 'd byte_load = "u64 \<Rightarrow> 'd \<Rightarrow> u8 \<times> 'd"

definition uart_addr :: "u64 \<Rightarrow> u64" where
  "uart_addr offset = UART0 + offset"

definition uart_write :: "'d byte_store \<Rightarrow> u64 \<Rightarrow> u8 \<Rightarrow> 'd \<Rightarrow> 'd" where
  "uart_write st offset value d = st (uart_addr offset) value d"

definition uart_read :: "'d byte_load \<Rightarrow> u64 \<Rightarrow> 'd \<Rightarrow> u8 \<times> 'd" where
  "uart_read ld offset d = ld (uart_addr offset) d"

definition uart_init :: "'d byte_store \<Rightarrow> 'd \<Rightarrow> 'd" where
  "uart_init st d =
     (let d = uart_write st INTERRUPT_ENABLE_REGISTER 0x00 d;
          d = uart_write st LINE_CONTROL_REGISTER LINE_CONTROL_REGISTER_BAUD_LATCH d;
          d = uart_write st 0 0x01 d;
          d = uart_write st 1 0x00 d;
          d = uart_write st LINE_CONTROL_REGISTER LINE_CONTROL_REGISTER_EIGHT_BITS_NO_PARITY d;
          d = uart_write st FIFO_CONTROL_REGISTER
                (FIFO_CONTROL_REGISTER_ENABLE OR FIFO_CONTROL_REGISTER_CLEAR_TX OR FIFO_CONTROL_REGISTER_CLEAR_RX) d
      in uart_write st INTERRUPT_ENABLE_REGISTER
           (INTERRUPT_ENABLE_REGISTER_RX_ENABLE OR INTERRUPT_ENABLE_REGISTER_TX_ENABLE) d)"

definition uart_transmit :: "'d byte_store \<Rightarrow> u8 \<Rightarrow> 'd \<Rightarrow> 'd" where
  "uart_transmit st c d = uart_write st 0 c d"

definition uart_receive :: "'d byte_load \<Rightarrow> 'd \<Rightarrow> u8 \<times> 'd" where
  "uart_receive ld d = uart_read ld 0 d"

text \<open>
  What the data sheet of the 16550 says of a store to its first four addresses, on the part of its state that software sees: the line control
  register, the divisor latch, which stands at addresses 0 and 1 while bit 7 of the line control register is set, the interrupt
  enable and FIFO control registers, and the bytes sent.
\<close>

record chip =
  line_control :: u8
  divisor_low :: u8
  divisor_high :: u8
  interrupts :: u8
  fifo_control :: u8
  sent :: "u8 list"

definition chip_store :: "u64 \<Rightarrow> u8 \<Rightarrow> chip \<Rightarrow> chip" where
  "chip_store a v c =
     (if a = UART0 then (if bit (line_control c) 7 then c\<lparr>divisor_low := v\<rparr> else c\<lparr>sent := sent c @ [v]\<rparr>)
      else if a = UART0 + 1 then (if bit (line_control c) 7 then c\<lparr>divisor_high := v\<rparr> else c\<lparr>interrupts := v\<rparr>)
      else if a = UART0 + 2 then c\<lparr>fifo_control := v\<rparr>
      else if a = UART0 + 3 then c\<lparr>line_control := v\<rparr>
      else c)"

definition ns16550 :: "'d byte_store \<Rightarrow> ('d \<Rightarrow> chip) \<Rightarrow> bool" where
  "ns16550 st chip_of \<longleftrightarrow> (\<forall>a v d. chip_of (st a v d) = chip_store a v (chip_of d))"

text \<open>
  From any state the initialisation leaves the port at eight data bits without parity, divisor 1, both interrupts
  enabled, the FIFOs enabled and cleared; it sends nothing, and a byte transmitted afterwards is sent.
\<close>

lemma uart_init_sets:
  assumes "ns16550 st chip_of"
  shows "chip_of (uart_init st d) = (chip_of d)\<lparr>line_control := 3, divisor_low := 1, divisor_high := 0, interrupts := 3, fifo_control := 7\<rparr>"
    and "chip_of (uart_transmit st c (uart_init st d)) = (chip_of (uart_init st d))\<lparr>sent := sent (chip_of d) @ [c]\<rparr>"
proof -
  have v: "chip_of (st a v d) = chip_store a v (chip_of d)" for a v d using assms by (simp add: ns16550_def)
  have bits: "bit (0x80 :: u8) 7" "\<not> bit (3 :: u8) 7" by (simp_all add: bit_numeral_rec(2) bit_iff_odd)
  have codes: "LINE_CONTROL_REGISTER_BAUD_LATCH = 0x80" "LINE_CONTROL_REGISTER = 3" "INTERRUPT_ENABLE_REGISTER = 1" "FIFO_CONTROL_REGISTER = 2"
    "FIFO_CONTROL_REGISTER_ENABLE OR FIFO_CONTROL_REGISTER_CLEAR_TX OR FIFO_CONTROL_REGISTER_CLEAR_RX = 7"
    "INTERRUPT_ENABLE_REGISTER_RX_ENABLE OR INTERRUPT_ENABLE_REGISTER_TX_ENABLE = 3" "LINE_CONTROL_REGISTER_EIGHT_BITS_NO_PARITY = 3"
    by (simp_all add: LINE_CONTROL_REGISTER_BAUD_LATCH_def LINE_CONTROL_REGISTER_def INTERRUPT_ENABLE_REGISTER_def FIFO_CONTROL_REGISTER_def
        FIFO_CONTROL_REGISTER_ENABLE_def FIFO_CONTROL_REGISTER_CLEAR_TX_def FIFO_CONTROL_REGISTER_CLEAR_RX_def
        INTERRUPT_ENABLE_REGISTER_RX_ENABLE_def INTERRUPT_ENABLE_REGISTER_TX_ENABLE_def LINE_CONTROL_REGISTER_EIGHT_BITS_NO_PARITY_def)
  obtain c0 where c0: "chip_of d = c0" by simp
  show "chip_of (uart_init st d) = (chip_of d)\<lparr>line_control := 3, divisor_low := 1, divisor_high := 0, interrupts := 3, fifo_control := 7\<rparr>"
    unfolding uart_init_def Let_def uart_write_def uart_addr_def v codes c0
    by (cases c0) (simp add: chip_store_def bits UART0_def)
  then show "chip_of (uart_transmit st c (uart_init st d)) = (chip_of (uart_init st d))\<lparr>sent := sent (chip_of d) @ [c]\<rparr>"
    unfolding uart_transmit_def uart_write_def uart_addr_def v
    by (simp add: chip_store_def bits)
qed

section \<open>The real-time clock\<close>

definition RTC_ADDRESS :: u64 where "RTC_ADDRESS = 0x101000"

text \<open>\<open>rtc[3]\<close> of an array of \<open>uint32_t\<close>; as an argument of \<open>printf\<close> it fills a slot with its sign extension.\<close>

definition init_rtc :: "(u64 \<Rightarrow> u32) \<Rightarrow> mem \<Rightarrow> console \<Rightarrow> console res" where
  "init_rtc device_read m con = printf m (''RTC ID: %d'' @ [CHR 0x0A]) [scast (device_read (RTC_ADDRESS + 4 * 3))] con"

lemma init_rtc_prints:
  assumes "sint (device_read (RTC_ADDRESS + 4 * 3)) \<noteq> - (2 ^ 31)"
  shows "init_rtc device_read m con = Inr (con @ bytes_of ''RTC ID: '' @ int_numeral (sint (device_read (RTC_ADDRESS + 4 * 3))) @ [13, 10])"
proof -
  let ?v = "device_read (RTC_ADDRESS + 4 * 3)"
  have u: "ucast (scast ?v :: u64) = ?v" by (rule bit_eqI) (auto simp: bit_simps)
  have d: "printf_conv m (byte_of CHR ''d'') [scast ?v] c = Inr (c @ int_numeral (sint ?v), [])" for c
    using printf_d [of "scast ?v" m "[]" c] assms unfolding u by blast
  have fmt: "bytes_of (''RTC ID: %d'' @ [CHR 0x0A]) = bytes_of ''RTC ID: '' @ byte_of CHR ''%'' # byte_of CHR ''d'' # [10]" by simp
  have pct: "byte_of CHR ''%'' \<notin> set (bytes_of ''RTC ID: '')" by simp
  have plain: "crlf (bytes_of ''RTC ID: '') = bytes_of ''RTC ID: ''" by (simp add: crlf_def)
  show ?thesis
    unfolding init_rtc_def printf_def fmt vprintf_literal [OF pct] vprintf_conv d bind_res_simps prod.case plain by (simp add: putc_def)
qed

end
