(* ===== verification/Runtime.thy ===== *)
theory Runtime
  imports Kernel
begin

text \<open>
  The kernel at work: the steps that the machine takes once processes exist. A user process runs its own code, which can write only where its page table
  lets user mode write; it traps; the handler returns, or loses the hart in the middle of a call; another process is entered or goes on.
  The invariant \<open>rt_inv\<close> says what keeps the processes apart, and every step is shown to keep it.

  A process that is not running has a continuation. \<open>Fresh\<close>: it has never run and starts in \<open>user_entry\<close>. \<open>In_getc at r\<close>: it waits inside \<open>SYS_GETC\<close>, called
  by the \<open>ecall\<close> at \<open>at\<close> with registers \<open>r\<close>. \<open>Halted\<close>: it has exited, or it is the idle process, whose \<open>yield\<close> in \<open>kmain\<close> returns to
  a \<open>PANIC\<close>. \<open>Running\<close>: it is the current process and in user mode.
\<close>

section \<open>What user mode may write\<close>

text \<open>The root that the register \<open>satp\<close> holds, and the bytes of the pages that carry the user bit.\<close>

definition satp_table :: "u64 \<Rightarrow> u64" where
  "satp_table v = push_bit 12 (take_bit 44 v)"

definition user_bytes :: "mem \<Rightarrow> u64 \<Rightarrow> nat set" where
  "user_bytes m root = {a. \<exists>v pte. translation m root (vpns v) = Some pte \<and> pte AND ucast PAGE_U \<noteq> 0 \<and> a \<in> page_at (pte_frame pte)}"

definition user_may_write :: "ksys \<Rightarrow> u64 \<Rightarrow> bool" where
  "user_may_write s a \<longleftrightarrow> (\<exists>v pte. translation (kmem (lib s)) (satp_table (satp (hart s))) (vpns v) = Some pte \<and>
     pte AND ucast PAGE_U \<noteq> 0 \<and> pte AND ucast PAGE_W \<noteq> 0 \<and> unat a \<in> page_at (pte_frame pte))"

text \<open>Instructions in user mode change registers and memory, and none of the control registers.\<close>

definition user_run :: "ksys \<Rightarrow> ksys \<Rightarrow> bool" where
  "user_run s s' \<longleftrightarrow> (\<exists>m r p. s' = s\<lparr>lib := (lib s)\<lparr>kmem := m\<rparr>, hart := (hart s)\<lparr>regs := r, pc := p\<rparr>\<rparr> \<and>
     (\<forall>a. m a \<noteq> kmem (lib s) a \<longrightarrow> user_may_write s a))"

lemma satp_table_new:
  assumes "4096 dvd unat root" "unat root < 2 ^ 46"
  shows "satp_table (new_satp root) = root"
  using le_add_diff_inverse [OF aligned_bits [OF assms(1)]]
  unfolding satp_table_def new_satp_def SATP_SV39_def div_PAGE_SIZE
  by (intro bit_word_eqI) (auto simp: bit_simps dest: aligned_bits [OF assms(1)] high_bits [OF assms(2)])

section \<open>The steps\<close>

datatype cont = Fresh | Running | In_getc u64 "reg \<Rightarrow> u64" | Halted

text \<open>The hart when a trap is taken from user mode.\<close>

definition trap_entry :: "u64 \<Rightarrow> u64 \<Rightarrow> ksys \<Rightarrow> ksys" where
  "trap_entry cause tval s = s\<lparr>hart := (hart s)\<lparr>scause := cause, stval := tval, sepc := pc (hart s)\<rparr>\<rparr>"

text \<open>
  When a process is switched to, the hart goes on where its stack says; for a process in \<open>SYS_GETC\<close> that is the
  return from \<open>yield\<close>, with the stack pointer at its trap frame.
\<close>

inductive rt_step :: "(nat \<Rightarrow> cont) \<times> ksys \<Rightarrow> (nat \<Rightarrow> cont) \<times> ksys \<Rightarrow> bool" where
  user_code: "current_proc s = Some c \<Longrightarrow> ks c = Running \<Longrightarrow> user_run s s' \<Longrightarrow> rt_step (ks, s) (ks, s')"
| call: "current_proc s = Some c \<Longrightarrow> ks c = Running \<Longrightarrow> kernel_trap polls (trap_entry cause tval s) = Inr (Done cs s') \<Longrightarrow>
    rt_step (ks, s) (ks, s')"
| wait: "current_proc s = Some c \<Longrightarrow> ks c = Running \<Longrightarrow> regs (hart s) A3 = SYS_GETC \<Longrightarrow>
    kernel_trap polls (trap_entry cause tval s) = Inr (Suspended cs s') \<Longrightarrow>
    rt_step (ks, s) (ks(c := In_getc (pc (hart s)) (regs (hart s))), s')"
| leave: "current_proc s = Some c \<Longrightarrow> ks c = Running \<Longrightarrow> regs (hart s) A3 = SYS_EXIT \<Longrightarrow>
    kernel_trap polls (trap_entry cause tval s) = Inr (Suspended cs s') \<Longrightarrow> rt_step (ks, s) (ks(c := Halted), s')"
| enter: "current_proc s = Some c \<Longrightarrow> ks c = Fresh \<Longrightarrow> pc (hart s) = user_entry_pc s \<Longrightarrow>
    rt_step (ks, s) (ks(c := Running), s\<lparr>hart := user_entry (hart s)\<rparr>)"
| return: "current_proc s = Some c \<Longrightarrow> ks c = In_getc at r \<Longrightarrow>
    resume_getc at polls (regs (hart s) SP) s = Inr (Done cs s') \<Longrightarrow> rt_step (ks, s) (ks(c := Running), s')"
| wait_on: "current_proc s = Some c \<Longrightarrow> ks c = In_getc at r \<Longrightarrow>
    resume_getc at polls (regs (hart s) SP) s = Inr (Suspended cs s') \<Longrightarrow> rt_step (ks, s) (ks, s')"

inductive_cases rt_stepE: "rt_step x x'"

text \<open>Steps of the machine, and steps of the machine that process \<open>j\<close> does not take.\<close>

inductive rt_reaches :: "(nat \<Rightarrow> cont) \<times> ksys \<Rightarrow> (nat \<Rightarrow> cont) \<times> ksys \<Rightarrow> bool" where
  rt_here: "rt_reaches x x"
| rt_more: "rt_reaches x y \<Longrightarrow> rt_step y z \<Longrightarrow> rt_reaches x z"

inductive others_run :: "nat \<Rightarrow> (nat \<Rightarrow> cont) \<times> ksys \<Rightarrow> (nat \<Rightarrow> cont) \<times> ksys \<Rightarrow> bool" for j where
  none_yet: "others_run j x x"
| other: "others_run j x y \<Longrightarrow> current_proc (snd y) \<noteq> Some j \<Longrightarrow> rt_step y z \<Longrightarrow> others_run j x z"

section \<open>Spaces apart\<close>

definition stacks :: "ksys \<Rightarrow> nat set" where
  "stacks s = (\<Union>i < 8. stack_region s i)"

definition stacks_fit :: "ksys \<Rightarrow> bool" where
  "stacks_fit s \<longleftrightarrow> length (procs s) = 8 \<and> unat (procs_base s) + 8216 * 8 < 2 ^ 64"

abbreviation root_of :: "ksys \<Rightarrow> nat \<Rightarrow> u64" where
  "root_of s i \<equiv> page_table (procs s ! i)"

text \<open>
  Address space \<open>i\<close>: its tables are a tree outside the kernel stacks, and its user pages are away from the kernel stacks,
  from all tables and from the user pages of every other process.
\<close>

definition space_apart :: "ksys \<Rightarrow> nat \<Rightarrow> bool" where
  "space_apart s i \<longleftrightarrow> pt_inv (kmem (lib s)) (root_of s i) (stacks s) \<and> unat (root_of s i) < 2 ^ 46 \<and>
     user_bytes (kmem (lib s)) (root_of s i) \<inter> stacks s = {} \<and>
     (\<forall>j < 8. in_use (procs s) j \<longrightarrow> user_bytes (kmem (lib s)) (root_of s i) \<inter> table_bytes (kmem (lib s)) (root_of s j) = {} \<and>
        (j \<noteq> i \<longrightarrow> user_bytes (kmem (lib s)) (root_of s i) \<inter> user_bytes (kmem (lib s)) (root_of s j) = {}))"

definition spaces_ok :: "ksys \<Rightarrow> bool" where
  "spaces_ok s \<longleftrightarrow> (\<forall>i < 8. in_use (procs s) i \<longrightarrow> space_apart s i)"

definition same_spaces :: "ksys \<Rightarrow> ksys \<Rightarrow> bool" where
  "same_spaces s s' \<longleftrightarrow> procs_base s' = procs_base s \<and> user_entry_pc s' = user_entry_pc s \<and> idle_proc s' = idle_proc s \<and>
     length (procs s') = length (procs s) \<and>
     (\<forall>j < 8. in_use (procs s') j = in_use (procs s) j \<and> (in_use (procs s) j \<longrightarrow> root_of s' j = root_of s j))"

definition writes_within :: "ksys \<Rightarrow> nat set \<Rightarrow> ksys \<Rightarrow> bool" where
  "writes_within s A s' \<longleftrightarrow> (\<forall>a. unat a \<notin> A \<longrightarrow> kmem (lib s') a = kmem (lib s) a)"

lemma table_bytes_cong:
  assumes "pt_inv m root F" "\<And>a. unat a \<in> table_bytes m root \<Longrightarrow> m' a = m a"
  shows "table_bytes m' root = table_bytes m root"
  using table_at_cong [OF assms] by (auto simp: table_bytes_def)

lemma user_bytes_cong: "translation m' root = translation m root \<Longrightarrow> user_bytes m' root = user_bytes m root"
  by (simp add: user_bytes_def)

text \<open>Writes to kernel stacks and user pages change no table, and so no address space.\<close>

definition space_same :: "ksys \<Rightarrow> nat \<Rightarrow> ksys \<Rightarrow> bool" where
  "space_same s i s' \<longleftrightarrow> root_of s' i = root_of s i \<and>
     translation (kmem (lib s')) (root_of s i) = translation (kmem (lib s)) (root_of s i) \<and>
     table_bytes (kmem (lib s')) (root_of s i) = table_bytes (kmem (lib s)) (root_of s i) \<and>
     user_bytes (kmem (lib s')) (root_of s i) = user_bytes (kmem (lib s)) (root_of s i) \<and>
     pt_inv (kmem (lib s')) (root_of s i) (stacks s)"

lemma spaces_kept:
  assumes ok: "spaces_ok s" and same: "same_spaces s s'"
    and w: "writes_within s (stacks s \<union> user_bytes (kmem (lib s)) (root_of s c)) s'" and c: "c < 8" "in_use (procs s) c"
  shows "spaces_ok s'" "i < 8 \<Longrightarrow> in_use (procs s) i \<Longrightarrow> space_same s i s'"
proof -
  let ?m = "kmem (lib s)" and ?m' = "kmem (lib s')"
  have keep: "space_same s i s'" if i: "i < 8" "in_use (procs s) i" for i
  proof -
    have inv: "pt_inv ?m (root_of s i) (stacks s)" using ok i by (simp add: spaces_ok_def space_apart_def)
    have "user_bytes ?m (root_of s c) \<inter> table_bytes ?m (root_of s i) = {}"
      using ok c i by (simp add: spaces_ok_def space_apart_def)
    then have eq: "?m' a = ?m a" if "unat a \<in> table_bytes ?m (root_of s i)" for a
      using that w table_bytes_not_free [OF inv that] unfolding writes_within_def by blast
    note T = translation_cong [OF inv eq]
    show ?thesis
      unfolding space_same_def using same i T table_bytes_cong [OF inv eq] user_bytes_cong [OF T] pt_inv_cong [OF inv eq order_refl]
      by (simp add: same_spaces_def)
  qed
  show "i < 8 \<Longrightarrow> in_use (procs s) i \<Longrightarrow> space_same s i s'" by (rule keep)
  have st: "stacks s' = stacks s" using same by (simp add: stacks_def stack_region_def same_spaces_def)
  show "spaces_ok s'"
    unfolding spaces_ok_def
  proof (intro allI impI)
    fix i assume i: "i < 8" "in_use (procs s') i"
    then have i': "in_use (procs s) i" using same by (simp add: same_spaces_def)
    have S: "space_apart s i" using ok i(1) i' by (simp add: spaces_ok_def)
    have K: "space_same s j s'" if "j < 8" "in_use (procs s') j" for j using keep that same by (simp add: same_spaces_def)
    show "space_apart s' i"
      unfolding space_apart_def st
      using S K [OF i] K same unfolding space_apart_def space_same_def same_spaces_def by auto
  qed
qed

section \<open>Kernel stacks\<close>

lemma stack_part:
  assumes "stacks_fit s" "j < 8" "n \<le> 8192" "k \<le> n" "z \<in> span (stack_top s j - of_nat n) k"
  shows "unat z \<in> stack_region s j"
proof -
  let ?s = "s\<lparr>lib := (lib s)\<lparr>heap_end := 0\<rparr>\<rparr>"
  have "layout_ok ?s {}" using assms(1) by (simp add: layout_ok_def stacks_fit_def PROCS_MAX_def)
  moreover have "z \<in> span (stack_top ?s j - of_nat n) n" using assms(4,5) span_mono [OF assms(4)] by (auto simp: stack_top_def)
  ultimately have "unat z \<in> stack_region ?s j" using assms(2,3) by (intro frame_in_stack) simp_all
  then show ?thesis by (simp add: stack_region_def)
qed

text \<open>The trap frame of a process, the registers saved below it, and the frame of a process that has never run.\<close>

lemma stack_frames:
  assumes "stacks_fit s" "j < 8"
  shows "z \<in> span (stack_top s j - 248) 248 \<Longrightarrow> unat z \<in> stack_region s j"
    "z \<in> span (stack_top s j - 248 - 104) 104 \<Longrightarrow> unat z \<in> stack_region s j"
    "z \<in> span (stack_top s j - 104) 104 \<Longrightarrow> unat z \<in> stack_region s j"
  using stack_part [OF assms, of 248 248 z] stack_part [OF assms, of 352 104 z] stack_part [OF assms, of 104 104 z] by simp_all

lemma stack_regions_disjoint: "i \<noteq> j \<Longrightarrow> stack_region s i \<inter> stack_region s j = {}"
proof -
  have less: "stack_region s i \<inter> stack_region s j = {}" if "i < j" for i j
  proof -
    have "8216 * (i + 1) \<le> 8216 * j" using that by (intro mult_le_mono2) simp
    then show ?thesis by (auto simp: stack_region_def)
  qed
  assume "i \<noteq> j"
  then show ?thesis using less [of i j] less [of j i] by (cases "i < j") auto
qed

lemma stack_in_stacks: "j < 8 \<Longrightarrow> stack_region s j \<subseteq> stacks s"
  by (auto simp: stacks_def)

section \<open>What a trap does\<close>

lemma getc_loop_done:
  "getc_loop polls f s = Inr (Done cs s') \<Longrightarrow> \<exists>c. 0 \<le> sint c \<and> s' = frame_set f A0 c s"
proof (induction polls)
  case (Cons c polls)
  show ?case
  proof (cases "0 \<le> sint c")
    case False
    then obtain y where y: "yield s = Inr y" using Cons.prems by (auto simp: bind_res_Inr_iff)
    show ?thesis
    proof (cases y)
      case (Back s1)
      then have "s1 = s" using y yield_back by blast
      then show ?thesis using Cons False y Back by auto
    qed (use Cons.prems False y in auto)
  qed (use Cons.prems in auto)
qed simp

text \<open>Memory that the trap handler may change: the trap frame at \<open>f\<close>.\<close>

definition frame_only :: "u64 \<Rightarrow> mem \<Rightarrow> mem \<Rightarrow> bool" where
  "frame_only f m m' \<longleftrightarrow> (\<forall>z. z \<notin> span f 248 \<longrightarrow> m' z = m z)"

lemma frame_only_trans: "frame_only f m m' \<Longrightarrow> frame_only f m' m'' \<Longrightarrow> frame_only f m m''"
  by (simp add: frame_only_def)

definition syscall_effect :: "u64 \<Rightarrow> ksys \<Rightarrow> ksys \<Rightarrow> bool" where
  "syscall_effect f s s' \<longleftrightarrow> (\<exists>m con. s' = s\<lparr>lib := (lib s)\<lparr>kmem := m, console := con\<rparr>\<rparr> \<and> frame_only f (kmem (lib s)) m)"

lemma syscall_effectI:
  "syscall_effect f s s" "syscall_effect f s (frame_set f x v s)" "syscall_effect f s (s\<lparr>lib := (lib s)\<lparr>console := con\<rparr>\<rparr>)"
proof -
  show "syscall_effect f s s" unfolding syscall_effect_def
    by (intro exI [of _ "kmem (lib s)"] exI [of _ "console (lib s)"]) (simp add: frame_only_def)
  show "syscall_effect f s (frame_set f x v s)" unfolding syscall_effect_def
    by (intro exI [of _ "kmem (lib (frame_set f x v s))"] exI [of _ "console (lib s)"])
      (use frame_set_other [of _ f x v s] in \<open>simp add: frame_only_def\<close>, simp add: frame_set_def)
  show "syscall_effect f s (s\<lparr>lib := (lib s)\<lparr>console := con\<rparr>\<rparr>)" unfolding syscall_effect_def
    by (intro exI [of _ "kmem (lib s)"] exI [of _ con]) (simp add: frame_only_def)
qed

lemma syscall_done: "syscall_entry polls f s = Inr (Done cs s') \<Longrightarrow> syscall_effect f s s'"
proof -
  assume R: "syscall_entry polls f s = Inr (Done cs s')"
  have exit: "bind_res (proc_exit s) (\<lambda>y. case y of Back s \<Rightarrow> Inl e | Away s \<Rightarrow> Inr (Suspended polls s)) \<noteq> Inr (Done cs s')" for e
    using exit_call [of s e polls "Done cs s'"] by auto
  show ?thesis
    using R exit getc_loop_done [of polls f s cs s'] syscall_effectI
    by (auto simp: syscall_entry_def Let_def bind_res_Inr_iff split: if_splits)
qed

lemma syscall_suspended:
  assumes "syscall_entry polls f s = Inr (Suspended cs s')"
  shows "frame_get s f A3 = SYS_GETC \<and> yield s = Inr (Away s') \<or> frame_get s f A3 = SYS_EXIT \<and> proc_exit s = Inr (Away s')"
proof (cases "frame_get s f A3 = SYS_EXIT")
  case True
  then have "bind_res (proc_exit s) (\<lambda>y. case y of Back s \<Rightarrow> Inl (Panic ''Unreachable!'' []) | Away s \<Rightarrow> Inr (Suspended polls s)) = Inr (Suspended cs s')"
    using assms by (simp add: syscall_entry_def Let_def SYS_EXIT_def SYS_PUTC_def SYS_GETC_def)
  with True show ?thesis by (auto dest!: exit_call)
next
  case False
  then show ?thesis using assms by (auto simp: syscall_entry_def Let_def bind_res_Inr_iff split: if_splits dest!: getc_loop_steps)
qed

text \<open>
  A trap from the caller's side: a handler that returns changes the trap frame, the console and the hart only; one that loses the hart does so in a state
  \<open>s1\<close> with the caller's registers in the trap frame and the stack pointer at it.
\<close>

definition trap_effect :: "ksys \<Rightarrow> ksys \<Rightarrow> bool" where
  "trap_effect s s' \<longleftrightarrow> same_table s s' \<and> procs_base s' = procs_base s \<and> user_entry_pc s' = user_entry_pc s \<and>
     sscratch (hart s') = sscratch (hart s) \<and> satp (hart s') = satp (hart s)"

definition trapped :: "ksys \<Rightarrow> u64 \<Rightarrow> ksys \<Rightarrow> bool" where
  "trapped s f s1 \<longleftrightarrow> trap_effect s s1 \<and> regs (hart s1) SP = f \<and> trap_frame (kmem (lib s1)) f (regs (hart s)) \<and>
     frame_only f (kmem (lib s)) (kmem (lib s1)) \<and> console (lib s1) = console (lib s)"

lemma trap_save_trapped:
  assumes "trap_save s = (f, s1)"
  shows "f = sscratch (hart s) - 248" "trapped s f s1"
proof -
  note S = trap_save_frame [OF assms]
  show "f = sscratch (hart s) - 248" by (rule S(1))
  have "regs (hart s1) SP = f" using assms by (auto simp: trap_save_def Let_def)
  moreover have "satp (hart s1) = satp (hart s)" by (subst S(6)) simp
  moreover have "procs s1 = procs s" "current_proc s1 = current_proc s" "idle_proc s1 = idle_proc s" "procs_base s1 = procs_base s"
    "user_entry_pc s1 = user_entry_pc s" "console (lib s1) = console (lib s)" by (subst S(5), simp)+
  ultimately show "trapped s f s1"
    using S(2-4) by (simp add: trapped_def trap_effect_def same_table_def frame_only_def)
qed

lemma kernel_trap_done_effect:
  assumes "kernel_trap polls s = Inr (Done cs s')"
  shows "trap_effect s s'" "frame_only (sscratch (hart s) - 248) (kmem (lib s)) (kmem (lib s'))"
proof -
  obtain f s1 where f: "trap_save s = (f, s1)" by (cases "trap_save s")
  note T = trap_save_trapped [OF f]
  obtain r where r: "syscall_entry polls f s1 = Inr r" "Done cs s' = trap_return f (finish_trap (sepc (hart s1) + 4) r)"
    using assms f by (auto simp: kernel_trap_def handle_trap_def Let_def bind_res_Inr_iff split: if_splits)
  then obtain cs2 s2 where d: "r = Done cs2 s2" by (cases r) (auto simp: finish_trap_def trap_return_def)
  then have s': "s' = trap_restore f (s2\<lparr>hart := (hart s2)\<lparr>sepc := sepc (hart s1) + 4\<rparr>\<rparr>)"
    using r(2) by (simp add: finish_trap_def trap_return_def)
  obtain m con where m: "s2 = s1\<lparr>lib := (lib s1)\<lparr>kmem := m, console := con\<rparr>\<rparr>" "frame_only f (kmem (lib s1)) m"
    using syscall_done [OF r(1) [unfolded d]] by (auto simp: syscall_effect_def)
  show "trap_effect s s'" using T(2) unfolding s' m(1) by (simp add: trapped_def trap_effect_def same_table_def trap_restore_def Let_def)
  have "kmem (lib s') = m" unfolding s' m(1) by (simp add: trap_restore_def Let_def)
  then show "frame_only (sscratch (hart s) - 248) (kmem (lib s)) (kmem (lib s'))"
    using T m(2) by (auto simp: trapped_def frame_only_def)
qed

lemma kernel_trap_suspended:
  assumes "kernel_trap polls s = Inr (Suspended cs s')"
  shows "\<exists>s1. trapped s (sscratch (hart s) - 248) s1 \<and>
    (regs (hart s) A3 = SYS_GETC \<and> yield s1 = Inr (Away s') \<or> regs (hart s) A3 = SYS_EXIT \<and> proc_exit s1 = Inr (Away s'))"
proof -
  obtain f s1 where f: "trap_save s = (f, s1)" by (cases "trap_save s")
  note T = trap_save_trapped [OF f]
  obtain r where r: "syscall_entry polls f s1 = Inr r" "Suspended cs s' = trap_return f (finish_trap (sepc (hart s1) + 4) r)"
    using assms f by (auto simp: kernel_trap_def handle_trap_def Let_def bind_res_Inr_iff split: if_splits)
  then have "r = Suspended cs s'" by (cases r) (auto simp: finish_trap_def trap_return_def)
  moreover have "frame_get s1 f A3 = regs (hart s) A3" using T(2) by (intro frame_get_frame) (simp add: trapped_def)
  ultimately show ?thesis using syscall_suspended [of polls f s1 cs s'] r(1) T by auto
qed

text \<open>A waiting call that goes on.\<close>

lemma resume_done:
  assumes "resume_getc at polls f s = Inr (Done cs s')" "trap_frame (kmem (lib s)) f r"
  shows "trap_effect s s'" "frame_only f (kmem (lib s)) (kmem (lib s'))" "pc (hart s') = at + 4"
    "\<exists>c. 0 \<le> sint c \<and> regs (hart s') = r(A0 := c)"
proof -
  obtain x where x: "getc_loop polls f s = Inr x" "Done cs s' = trap_return f (finish_trap (at + 4) x)"
    using assms(1) by (auto simp: resume_getc_def bind_res_Inr_iff)
  then obtain cs2 s2 where d: "x = Done cs2 s2" by (cases x) (auto simp: finish_trap_def trap_return_def)
  then have s': "s' = trap_restore f (s2\<lparr>hart := (hart s2)\<lparr>sepc := at + 4\<rparr>\<rparr>)" using x(2) by (simp add: finish_trap_def trap_return_def)
  obtain c where c: "0 \<le> sint c" "s2 = frame_set f A0 c s" using getc_loop_done [OF x(1) [unfolded d]] by blast
  have "trap_frame (kmem (lib (s2\<lparr>hart := (hart s2)\<lparr>sepc := at + 4\<rparr>\<rparr>))) f (r(A0 := c))"
    using frame_set_frame [OF assms(2)] c(2) by simp
  note R = trap_restore_frame [OF this, folded s']
  show "pc (hart s') = at + 4" "\<exists>c. 0 \<le> sint c \<and> regs (hart s') = r(A0 := c)" using R(1,2) c(1) by auto
  show "trap_effect s s'" unfolding s' c(2) by (simp add: trap_effect_def same_table_def trap_restore_def frame_set_def Let_def)
  have "kmem (lib s') = kmem (lib (frame_set f A0 c s))" using R(3) c(2) by simp
  then show "frame_only f (kmem (lib s)) (kmem (lib s'))" using frame_set_other [of _ f A0 c s] by (simp add: frame_only_def)
qed

lemma resume_suspended: "resume_getc at polls f s = Inr (Suspended cs s') \<Longrightarrow> yield s = Inr (Away s')"
proof -
  assume A: "resume_getc at polls f s = Inr (Suspended cs s')"
  then obtain x where x: "getc_loop polls f s = Inr x" "Suspended cs s' = trap_return f (finish_trap (at + 4) x)"
    by (auto simp: resume_getc_def bind_res_Inr_iff)
  then have "x = Suspended cs s'" by (cases x) (auto simp: finish_trap_def trap_return_def)
  then show ?thesis using getc_loop_steps [OF x(1)] by simp
qed

section \<open>The invariant\<close>

definition cont_ok :: "(nat \<Rightarrow> cont) \<Rightarrow> ksys \<Rightarrow> nat \<Rightarrow> bool" where
  "cont_ok ks s j \<longleftrightarrow>
     (case ks j of
        Running \<Rightarrow> current_proc s = Some j
      | Fresh \<Rightarrow>
          if current_proc s = Some j then pc (hart s) = user_entry_pc s
          else psp (procs s ! j) = stack_top s j - 104 \<and> fresh_frame (kmem (lib s)) (stack_top s j - 104) (user_entry_pc s)
      | In_getc at r \<Rightarrow> trap_frame (kmem (lib s)) (stack_top s j - 248) r \<and>
          (if current_proc s = Some j then regs (hart s) SP = stack_top s j - 248 else psp (procs s ! j) = stack_top s j - 352)
      | Halted \<Rightarrow> True)"

definition rt_inv :: "(nat \<Rightarrow> cont) \<times> ksys \<Rightarrow> bool" where
  "rt_inv x \<longleftrightarrow> (case x of (ks, s) \<Rightarrow>
     sched_inv s \<and> stacks_fit s \<and> spaces_ok s \<and> (\<forall>c. current_proc s = Some c \<longrightarrow> sscratch (hart s) = stack_top s c \<and> satp (hart s) = new_satp (root_of s c)) \<and>
     (\<forall>j < 8. in_use (procs s) j \<longrightarrow> cont_ok ks s j) \<and> (\<forall>i. idle_proc s = Some i \<longrightarrow> ks i = Halted))"

lemma rt_invD:
  assumes "rt_inv (ks, s)" "current_proc s = Some c"
  shows "sched_inv s" "stacks_fit s" "spaces_ok s" "sscratch (hart s) = stack_top s c" "satp (hart s) = new_satp (root_of s c)"
    "j < 8 \<Longrightarrow> in_use (procs s) j \<Longrightarrow> cont_ok ks s j" "c < 8" "in_use (procs s) c" "idle_proc s = Some i \<Longrightarrow> ks i = Halted"
  using assms by (auto simp: rt_inv_def elim!: sched_inv_current)

lemma in_use_current: "sched_inv s \<Longrightarrow> current_proc s = Some c \<Longrightarrow> in_use (procs s) c"
  by (auto elim: sched_inv_current)

text \<open>What the running process can write is what its address space holds.\<close>

lemma user_run_writes:
  assumes "rt_inv (ks, s)" "current_proc s = Some c" "user_run s s'"
  shows "writes_within s (user_bytes (kmem (lib s)) (root_of s c)) s'"
proof -
  note I = rt_invD [OF assms(1,2)]
  have sp: "space_apart s c" using I(3,7,8) by (simp add: spaces_ok_def)
  then have inv: "pt_inv (kmem (lib s)) (root_of s c) (stacks s)" "unat (root_of s c) < 2 ^ 46" by (simp_all add: space_apart_def)
  have "4096 dvd unat (root_of s c)" using pt_invD(2) [OF inv(1), of "[]" "root_of s c"] by simp
  then have root: "satp_table (satp (hart s)) = root_of s c" using satp_table_new inv(2) I(5) by simp
  have may: "unat a \<in> user_bytes (kmem (lib s)) (root_of s c)" if "user_may_write s a" for a
    using that unfolding user_may_write_def root user_bytes_def by blast
  obtain m where "kmem (lib s') = m" "\<forall>a. m a \<noteq> kmem (lib s) a \<longrightarrow> user_may_write s a" using assms(3) by (auto simp: user_run_def)
  then show ?thesis using may by (auto simp: writes_within_def)
qed

text \<open>A continuation is intact when its kernel stack is.\<close>

lemma cont_away:
  assumes "cont_ok ks s j" "j < 8" "stacks_fit s" "procs_base s' = procs_base s" "user_entry_pc s' = user_entry_pc s"
    and "current_proc s \<noteq> Some j" "current_proc s' \<noteq> Some j" "psp (procs s' ! j) = psp (procs s ! j)"
    and "\<And>a. unat a \<in> stack_region s j \<Longrightarrow> kmem (lib s') a = kmem (lib s) a" "ks' j = ks j"
  shows "cont_ok ks' s' j"
proof -
  have top: "stack_top s' j = stack_top s j" using assms(4) by (simp add: stack_top_def)
  note F = stack_frames [OF assms(3,2)]
  have tf: "trap_frame (kmem (lib s')) (stack_top s j - 248) r" if "trap_frame (kmem (lib s)) (stack_top s j - 248) r" for r
    using assms(9) F(1) by (intro reg_frame_cong [OF that]) (simp_all add: trap_regs_facts(2))
  have "load64 (kmem (lib s')) (stack_top s j - 104 + 8 * of_nat i) = load64 (kmem (lib s)) (stack_top s j - 104 + 8 * of_nat i)" if "i < 13" for i
  proof (rule load64_cong)
    fix x assume "x \<in> span (stack_top s j - 104 + 8 * of_nat i) 8"
    then have "x \<in> span (stack_top s j - 104) (8 * 13)" using that by (intro frame_word_span) simp_all
    then show "kmem (lib s') x = kmem (lib s) x" using assms(9) F(3) by simp
  qed
  from this [of 0] this have "fresh_frame (kmem (lib s')) (stack_top s j - 104) ra" if "fresh_frame (kmem (lib s)) (stack_top s j - 104) ra" for ra
    using that by (auto simp: fresh_frame_def)
  with tf show ?thesis using assms by (auto simp: cont_ok_def top split: cont.splits)
qed

text \<open>Steps after which the same process is current.\<close>

lemma stay_inv:
  assumes inv: "rt_inv (ks, s)" and c: "current_proc s = Some c" "ks c \<noteq> Halted" and eff: "trap_effect s s'"
    and w: "writes_within s (stack_region s c \<union> user_bytes (kmem (lib s)) (root_of s c)) s'"
    and cont: "cont_ok ks' s' c" "\<And>j. j \<noteq> c \<Longrightarrow> ks' j = ks j"
  shows "rt_inv (ks', s')" "i < 8 \<Longrightarrow> in_use (procs s) i \<Longrightarrow> space_same s i s'"
proof -
  note I = rt_invD [OF inv c(1)]
  have E: "procs s' = procs s" "current_proc s' = current_proc s" "idle_proc s' = idle_proc s" "procs_base s' = procs_base s"
    "user_entry_pc s' = user_entry_pc s" "sscratch (hart s') = sscratch (hart s)" "satp (hart s') = satp (hart s)"
    using eff by (simp_all add: trap_effect_def same_table_def)
  have same: "same_spaces s s'" using E by (simp add: same_spaces_def)
  have w': "writes_within s (stacks s \<union> user_bytes (kmem (lib s)) (root_of s c)) s'"
    using w stack_in_stacks [OF I(7), of s] by (auto simp: writes_within_def)
  note K = spaces_kept [OF I(3) same w' I(7,8)]
  show "i < 8 \<Longrightarrow> in_use (procs s) i \<Longrightarrow> space_same s i s'" by (rule K(2))
  have conts: "cont_ok ks' s' j" if j: "j < 8" "in_use (procs s') j" for j
  proof (cases "j = c")
    case False
    have u: "user_bytes (kmem (lib s)) (root_of s c) \<inter> stacks s = {}" using I(3,7,8) by (simp add: spaces_ok_def space_apart_def)
    have "kmem (lib s') a = kmem (lib s) a" if "unat a \<in> stack_region s j" for a
      using that w u stack_regions_disjoint [OF False, of s] stack_in_stacks [OF j(1), of s] by (auto simp: writes_within_def)
    then show ?thesis
      using j E I c cont(2) [OF False] False by (intro cont_away [OF I(6) [of j] _ I(2)]) auto
  qed (simp add: cont(1))
  have "sched_inv s' = sched_inv s" using E by (simp add: sched_inv_def)
  moreover have "stacks_fit s'" using I(2) E by (simp add: stacks_fit_def)
  moreover have "ks' i = Halted" if "idle_proc s' = Some i" for i
    using that I(9) [of i] c(2) cont(2) [of i] E(3) by (cases "i = c") auto
  ultimately show "rt_inv (ks', s')"
    using I K(1) conts E c(1) by (simp add: rt_inv_def stack_top_def)
qed

text \<open>
  A switch away from \<open>c\<close>, whose handler has the stack pointer at its trap frame. First the picked process: it is entered, or
  it goes on at its own trap frame.
\<close>

lemma same_spaces_trans: "same_spaces s s1 \<Longrightarrow> same_spaces s1 s2 \<Longrightarrow> same_spaces s s2"
  by (auto simp: same_spaces_def)

lemma writes_within_trans: "writes_within s A s1 \<Longrightarrow> writes_within s1 A s2 \<Longrightarrow> writes_within s A s2"
  by (simp add: writes_within_def)

lemma picked_cont:
  assumes fit: "stacks_fit s" and c: "c < 8" "n < 8" "n \<noteq> c" and len: "length (procs s1) = 8"
    and same: "procs_base s1 = procs_base s" "user_entry_pc s1 = user_entry_pc s"
    and sp: "regs (hart s1) SP = stack_top s c - 248" and ok: "cont_ok ks s1 n" "current_proc s1 \<noteq> Some n"
    and s': "s' = switch_context c n (s1\<lparr>current_proc := Some n, hart := (hart s1)\<lparr>sscratch := a, satp := b\<rparr>\<rparr>)"
  shows "cont_ok ks s' n"
proof -
  let ?s2 = "s1\<lparr>current_proc := Some n, hart := (hart s1)\<lparr>sscratch := a, satp := b\<rparr>\<rparr>"
  have top: "stack_top s1 j = stack_top s j" for j using same(1) by (simp add: stack_top_def)
  have keeps: "procs_base s' = procs_base s" "user_entry_pc s' = user_entry_pc s" "current_proc s' = Some n"
    using same by (simp_all add: s' switch_context_def Let_def)
  have apart: "z \<notin> span (stack_top s c - 248 - 104) 104" if "unat z \<in> stack_region s n" for z
    using that stack_frames(2) [OF fit c(1), of z] stack_regions_disjoint [OF c(3), of s] by blast
  show ?thesis
  proof (cases "ks n")
    case Fresh
    then have F: "psp (procs ?s2 ! n) = stack_top s n - 104" "fresh_frame (kmem (lib ?s2)) (stack_top s n - 104) (user_entry_pc s)"
      using ok same(2) by (simp_all add: cont_ok_def top)
    have "saved_frame (kmem (lib ?s2)) (psp (procs ?s2 ! n)) (start_regs (user_entry_pc s))"
      unfolding F(1) by (rule fresh_saved_frame [OF F(2)])
    moreover have "span (regs (hart ?s2) SP - 104) 104 \<inter> span (psp (procs ?s2 ! n)) 104 = {}"
      using stack_frames(3) [OF fit c(2)] apart sp unfolding F(1) by auto
    ultimately have "pc (hart s') = start_regs (user_entry_pc s) RA"
      unfolding s' using len c by (intro switch_restores(3) [of n ?s2 c]) simp_all
    then show ?thesis using Fresh keeps by (simp add: cont_ok_def start_regs_def)
  next
    case (In_getc at r)
    then have G: "trap_frame (kmem (lib s1)) (stack_top s n - 248) r" "psp (procs s1 ! n) = stack_top s n - 352"
      using ok by (simp_all add: cont_ok_def top)
    have "trap_frame (kmem (lib s')) (stack_top s n - 248) r"
    proof (rule reg_frame_cong [OF G(1)])
      fix z assume "z \<in> span (stack_top s n - 248) (8 * length (trap_regs @ [SP]))"
      then have "unat z \<in> stack_region s n" using stack_frames(1) [OF fit c(2), of z] by (simp add: trap_regs_facts(2))
      then show "kmem (lib s') z = kmem (lib s1) z"
        using switch_context_other [of z ?s2 c n] apart [of z] sp by (simp add: s')
    qed (simp add: trap_regs_facts(2))
    moreover have "regs (hart s') SP = stack_top s n - 248"
      using c(3) G(2) by (simp add: s' switch_context_def Let_def)
    ultimately show ?thesis using In_getc keeps by (simp add: cont_ok_def stack_top_def)
  qed (use ok in \<open>simp_all add: cont_ok_def keeps\<close>)
qed

lemma yield_switch:
  assumes "sched_inv s1" "current_proc s1 = Some c" "yield s1 = Inr (Away s')"
  obtains n where "n \<noteq> c" "n < 8" "in_use (procs s1) n"
    "s' = switch_context c n (s1\<lparr>current_proc := Some n, hart := (hart s1)\<lparr>sscratch := stack_top s1 n, satp := new_satp (root_of s1 n)\<rparr>\<rparr>)"
proof -
  obtain idle where I: "idle_proc s1 = Some idle" "table_ok idle (procs s1)" "in_use (procs s1) c"
    using sched_inv_current [OF assms(1)] assms(2) by auto
  have "in_use (procs s1) (next_slot (procs s1) idle c)" by (rule rr.pick_used [OF I(2,3)])
  then show thesis
    using yield_away [OF assms(3)] assms(2) I(1) that by (metis PROCS_MAX_def in_use_def option.sel)
qed

lemma switch_procs:
  assumes "c < length (procs s)"
  shows "psp (procs (switch_context c n s) ! j) = (if j = c then regs (hart s) SP - 104 else psp (procs s ! j))"
    "in_use (procs (switch_context c n s)) j = in_use (procs s) j" "root_of (switch_context c n s) j = root_of s j"
    "procs_base (switch_context c n s) = procs_base s" "user_entry_pc (switch_context c n s) = user_entry_pc s"
  using switch_context_slot [OF assms, of n j] assms by (simp_all add: in_use_def switch_context_def Let_def)

text \<open>The state in which the handler of \<open>c\<close> calls \<open>yield\<close>, and the switch itself.\<close>

definition yielding :: "ksys \<Rightarrow> nat \<Rightarrow> ksys \<Rightarrow> bool" where
  "yielding s c s1 \<longleftrightarrow> same_spaces s s1 \<and> current_proc s1 = Some c \<and> sched_inv s1 \<and> regs (hart s1) SP = stack_top s c - 248 \<and>
     writes_within s (stack_region s c) s1 \<and> (\<forall>j. j \<noteq> c \<longrightarrow> procs s1 ! j = procs s ! j)"

lemma switch_effect:
  assumes fit: "stacks_fit s" "c < 8" and s1: "yielding s c s1" and y: "yield s1 = Inr (Away s')"
  shows "same_spaces s s'" "writes_within s (stack_region s c) s'" "current_proc s' \<noteq> Some c"
    "psp (procs s' ! j) = (if j = c then stack_top s c - 352 else psp (procs s1 ! j))"
    "z \<notin> span (stack_top s c - 352) 104 \<Longrightarrow> kmem (lib s') z = kmem (lib s1) z"
proof -
  have Y: "same_spaces s s1" "current_proc s1 = Some c" "sched_inv s1" "regs (hart s1) SP = stack_top s c - 248"
    "writes_within s (stack_region s c) s1" using s1 by (simp_all add: yielding_def)
  have len: "length (procs s1) = 8" using Y(1) fit by (simp add: same_spaces_def stacks_fit_def)
  obtain n where n: "n \<noteq> c" "n < 8"
    "s' = switch_context c n (s1\<lparr>current_proc := Some n, hart := (hart s1)\<lparr>sscratch := stack_top s1 n, satp := new_satp (root_of s1 n)\<rparr>\<rparr>)"
    using yield_switch [OF Y(3,2) y] by metis
  let ?s2 = "s1\<lparr>current_proc := Some n, hart := (hart s1)\<lparr>sscratch := stack_top s1 n, satp := new_satp (root_of s1 n)\<rparr>\<rparr>"
  note P = switch_procs [of c ?s2 n, folded n(3)]
  show mem: "kmem (lib s') z = kmem (lib s1) z" if "z \<notin> span (stack_top s c - 352) 104" for z
    using switch_context_other [of z ?s2 c n] that Y(4) by (simp add: n(3))
  have "idle_proc s' = idle_proc s1" "length (procs s') = length (procs s1)" by (simp_all add: n(3))
  then have "same_spaces s1 s'" using P len fit(2) by (simp add: same_spaces_def)
  then show "same_spaces s s'" using Y(1) same_spaces_trans by blast
  have "writes_within s1 (stack_region s c) s'"
    using mem stack_frames(2) [OF fit] by (auto simp: writes_within_def)
  then show "writes_within s (stack_region s c) s'" using Y(5) writes_within_trans by blast
  show "current_proc s' \<noteq> Some c" using n(1) by (simp add: n(3))
  show "psp (procs s' ! j) = (if j = c then stack_top s c - 352 else psp (procs s1 ! j))" using P(1) len fit(2) Y(4) by simp
qed

text \<open>A process other than \<open>c\<close> has its continuation as long as only the stack of \<open>c\<close> is written.\<close>

lemma cont_elsewhere:
  assumes inv: "rt_inv (ks, s)" "current_proc s = Some c" and j: "j < 8" "in_use (procs s) j" "j \<noteq> c"
    and t: "writes_within s (stack_region s c) t" "procs_base t = procs_base s" "user_entry_pc t = user_entry_pc s" "current_proc t \<noteq> Some j"
      "psp (procs t ! j) = psp (procs s ! j)"
  shows "cont_ok ks t j"
proof -
  have "kmem (lib t) a = kmem (lib s) a" if "unat a \<in> stack_region s j" for a
    using that t(1) stack_regions_disjoint [OF j(3), of s] by (auto simp: writes_within_def)
  then show ?thesis using j t inv(2) by (intro cont_away [OF rt_invD(6) [OF inv j(1,2)] j(1) rt_invD(2) [OF inv]]) auto
qed

lemma switch_conts:
  assumes inv: "rt_inv (ks, s)" "current_proc s = Some c" and s1: "yielding s c s1" and y: "yield s1 = Inr (Away s')"
    and cont: "ks' c = Halted \<or> (\<exists>at r. ks' c = In_getc at r \<and> trap_frame (kmem (lib s1)) (stack_top s c - 248) r)" "\<And>j. j \<noteq> c \<Longrightarrow> ks' j = ks j"
    and j: "j < 8" "in_use (procs s') j"
  shows "cont_ok ks' s' j"
proof -
  note I = rt_invD [OF inv]
  note W = switch_effect [OF I(2,7) s1 y]
  have Y: "same_spaces s s1" "current_proc s1 = Some c" "sched_inv s1" "regs (hart s1) SP = stack_top s c - 248"
    "writes_within s (stack_region s c) s1" "\<And>j. j \<noteq> c \<Longrightarrow> procs s1 ! j = procs s ! j" using s1 by (simp_all add: yielding_def)
  have config: "procs_base s1 = procs_base s" "user_entry_pc s1 = user_entry_pc s" "length (procs s1) = 8"
    "procs_base s' = procs_base s" "user_entry_pc s' = user_entry_pc s"
    using Y(1) W(1) I(2) by (simp_all add: same_spaces_def stacks_fit_def)
  obtain n where n: "n \<noteq> c" "n < 8" "in_use (procs s1) n"
    "s' = switch_context c n (s1\<lparr>current_proc := Some n, hart := (hart s1)\<lparr>sscratch := stack_top s1 n, satp := new_satp (root_of s1 n)\<rparr>\<rparr>)"
    by (rule yield_switch [OF Y(3,2) y])
  have use: "in_use (procs s) j" using W(1) j by (simp add: same_spaces_def)
  consider "j = c" | "j = n" | "j \<noteq> c" "j \<noteq> n" by blast
  then show ?thesis
  proof cases
    case 1
    have "trap_frame (kmem (lib s')) (stack_top s c - 248) r" if "trap_frame (kmem (lib s1)) (stack_top s c - 248) r" for r
      using W(5) span_below [of _ "stack_top s c - 248"] by (intro reg_frame_cong [OF that]) (simp_all add: trap_regs_facts(2))
    then show ?thesis using cont(1) 1 W(3,4) config by (auto simp: cont_ok_def stack_top_def)
  next
    case 2
    have "cont_ok ks s1 n" using use 2 n(1) Y config by (intro cont_elsewhere [OF inv n(2)]) simp_all
    then have "cont_ok ks s' n"
      using Y(2) n(1) by (intro picked_cont [OF I(2,7) n(2,1) config(3,1,2) Y(4) _ _ n(4)]) simp_all
    then show ?thesis using 2 cont(2) [OF n(1)] by (simp add: cont_ok_def)
  next
    case 3
    then have "current_proc s' \<noteq> Some j" by (simp add: n(4))
    then have "cont_ok ks s' j" using config W(4) Y(6) 3 by (intro cont_elsewhere [OF inv j(1) use 3(1) W(2)]) simp_all
    then show ?thesis using cont(2) 3(1) by (simp add: cont_ok_def)
  qed
qed

lemma switch_inv:
  assumes inv: "rt_inv (ks, s)" and c: "current_proc s = Some c" "ks c \<noteq> Halted" and s1: "yielding s c s1"
    and y: "yield s1 = Inr (Away s')"
    and cont: "ks' c = Halted \<or> (\<exists>at r. ks' c = In_getc at r \<and> trap_frame (kmem (lib s1)) (stack_top s c - 248) r)" "\<And>j. j \<noteq> c \<Longrightarrow> ks' j = ks j"
  shows "rt_inv (ks', s')" "i < 8 \<Longrightarrow> in_use (procs s) i \<Longrightarrow> space_same s i s'"
proof -
  note I = rt_invD [OF inv c(1)]
  note W = switch_effect [OF I(2,7) s1 y]
  have Y: "same_spaces s s1" "current_proc s1 = Some c" "sched_inv s1" using s1 by (simp_all add: yielding_def)
  have config: "procs_base s1 = procs_base s" "length (procs s1) = 8"
    "procs_base s' = procs_base s" "idle_proc s' = idle_proc s" "length (procs s') = 8"
    using Y(1) W(1) I(2) by (simp_all add: same_spaces_def stacks_fit_def)
  obtain n where n: "s' = switch_context c n (s1\<lparr>current_proc := Some n, hart := (hart s1)\<lparr>sscratch := stack_top s1 n, satp := new_satp (root_of s1 n)\<rparr>\<rparr>)"
    by (rule yield_switch [OF Y(3,2) y])
  have cur: "current_proc s' = Some n" "sscratch (hart s') = stack_top s' n" "satp (hart s') = new_satp (root_of s' n)"
    using switch_procs(3) [of c "s1\<lparr>current_proc := Some n, hart := (hart s1)\<lparr>sscratch := stack_top s1 n, satp := new_satp (root_of s1 n)\<rparr>\<rparr>" n n]
      config I(7) by (simp_all add: n stack_top_def)
  have w: "writes_within s (stacks s \<union> user_bytes (kmem (lib s)) (root_of s c)) s'"
    using W(2) stack_in_stacks [OF I(7), of s] by (auto simp: writes_within_def)
  note K = spaces_kept [OF I(3) W(1) w I(7,8)]
  show "i < 8 \<Longrightarrow> in_use (procs s) i \<Longrightarrow> space_same s i s'" by (rule K(2))
  have "ks' i = Halted" if "idle_proc s' = Some i" for i
    using that I(9) [of i] c(2) cont(2) [of i] config(4) by (cases "i = c") auto
  moreover have "stacks_fit s'" using I(2) config by (simp add: stacks_fit_def)
  moreover have "cont_ok ks' s' j" if "j < 8" "in_use (procs s') j" for j
    by (rule switch_conts [where ks' = ks', OF inv c(1) s1 y cont that])
  ultimately show "rt_inv (ks', s')"
    using yield_inv [OF Y(3) y] K(1) cur by (simp add: rt_inv_def)
qed

section \<open>Every step keeps the invariant\<close>

lemma trap_effect_trans: "trap_effect s s1 \<Longrightarrow> trap_effect s1 s2 \<Longrightarrow> trap_effect s s2"
  by (simp add: trap_effect_def same_table_def)

lemma trap_effect_spaces: "trap_effect s s' \<Longrightarrow> same_spaces s s'"
  by (simp add: trap_effect_def same_table_def same_spaces_def)

lemma frame_writes:
  assumes "stacks_fit s" "c < 8" "frame_only (stack_top s c - 248) (kmem (lib s)) (kmem (lib s'))"
  shows "writes_within s (stack_region s c) s'"
  using assms(3) stack_frames(1) [OF assms(1,2)] by (auto simp: writes_within_def frame_only_def)

lemma trapped_yielding:
  assumes inv: "rt_inv (ks, s)" "current_proc s = Some c" and t: "trapped (trap_entry cause tval s) (stack_top s c - 248) s1"
  shows "yielding s c s1" "trap_frame (kmem (lib s1)) (stack_top s c - 248) (regs (hart s))"
proof -
  note I = rt_invD [OF inv]
  have T: "trap_effect s s1" using t by (simp add: trapped_def trap_effect_def same_table_def trap_entry_def)
  have w: "writes_within s (stack_region s c) s1"
    using t by (intro frame_writes [OF I(2,7)]) (simp add: trapped_def trap_entry_def)
  have "procs s1 = procs s" "current_proc s1 = current_proc s" using T by (simp_all add: trap_effect_def same_table_def)
  moreover have "sched_inv s1 = sched_inv s" using T by (simp add: trap_effect_def same_table_inv)
  moreover have "regs (hart s1) SP = stack_top s c - 248" using t by (simp add: trapped_def)
  ultimately show "yielding s c s1" using trap_effect_spaces [OF T] w I(1) inv(2) by (simp add: yielding_def)
  show "trap_frame (kmem (lib s1)) (stack_top s c - 248) (regs (hart s))" using t by (simp add: trapped_def trap_entry_def)
qed

lemma exit_yielding:
  assumes y: "yielding s c s1" and c: "idle_proc s1 \<noteq> Some c" "c < 8" and fit: "stacks_fit s"
  shows "yielding s c (mark_exited con s1)"
proof -
  have Y: "same_spaces s s1" "current_proc s1 = Some c" "sched_inv s1" using y by (simp_all add: yielding_def)
  have ne: "current_proc s1 \<noteq> idle_proc s1" using Y(2) c(1) by simp
  note M = mark_exited_table [OF Y(3) ne, of con]
  have "length (procs s1) = 8" using Y(1) fit by (simp add: same_spaces_def stacks_fit_def)
  moreover have "in_use (procs s1) c" by (rule in_use_current [OF Y(3,2)])
  ultimately have "same_spaces s1 (mark_exited con s1)"
    using Y(2) c(2) by (auto simp: same_spaces_def mark_exited_def in_use_def nth_list_update PROC_EXITED_def PROC_UNUSED_def)
  then have "same_spaces s (mark_exited con s1)" using Y(1) same_spaces_trans by blast
  then show ?thesis using y M(2,3) by (simp add: yielding_def writes_within_def mark_exited_def)
qed

text \<open>What a step of process \<open>c\<close> may do to memory, and what it leaves as it was.\<close>

definition step_of :: "nat \<Rightarrow> (nat \<Rightarrow> cont) \<times> ksys \<Rightarrow> (nat \<Rightarrow> cont) \<times> ksys \<Rightarrow> bool" where
  "step_of c x x' \<longleftrightarrow> (case (x, x') of ((ks, s), (ks', s')) \<Rightarrow>
     writes_within s (stack_region s c \<union> user_bytes (kmem (lib s)) (root_of s c)) s' \<and> same_spaces s s' \<and>
     (\<forall>i < 8. in_use (procs s) i \<longrightarrow> space_same s i s') \<and> (\<forall>j. j \<noteq> c \<longrightarrow> ks' j = ks j))"

lemma stay_step:
  assumes "rt_inv (ks, s)" "current_proc s = Some c" "ks c \<noteq> Halted" "trap_effect s s'"
    and "writes_within s (stack_region s c \<union> user_bytes (kmem (lib s)) (root_of s c)) s'"
    and "cont_ok (ks(c := k)) s' c"
  shows "rt_inv (ks(c := k), s') \<and> step_of c (ks, s) (ks(c := k), s')"
  using stay_inv [OF assms] trap_effect_spaces [OF assms(4)] assms(5) by (simp add: step_of_def)

lemma switch_step_of:
  assumes "rt_inv (ks, s)" "current_proc s = Some c" "ks c \<noteq> Halted" "yielding s c s1" "yield s1 = Inr (Away s')"
    and "k = Halted \<or> (\<exists>at r. k = In_getc at r \<and> trap_frame (kmem (lib s1)) (stack_top s c - 248) r)"
  shows "rt_inv (ks(c := k), s') \<and> step_of c (ks, s) (ks(c := k), s')"
proof -
  note I = rt_invD [OF assms(1,2)]
  have "(ks(c := k)) c = Halted \<or> (\<exists>at r. (ks(c := k)) c = In_getc at r \<and> trap_frame (kmem (lib s1)) (stack_top s c - 248) r)"
    using assms(6) by simp
  note S = switch_inv [where ks' = "ks(c := k)", OF assms(1-5) this]
  show ?thesis
    using S switch_effect(1,2) [OF I(2,7) assms(4,5)] by (auto simp: step_of_def writes_within_def)
qed

lemma code_ok:
  assumes "rt_inv (ks, s)" "current_proc s = Some c" "ks c = Running" "user_run s s'"
  shows "rt_inv (ks, s') \<and> step_of c (ks, s) (ks, s')"
proof -
  have w: "writes_within s (user_bytes (kmem (lib s)) (root_of s c)) s'" by (rule user_run_writes [OF assms(1,2,4)])
  have "trap_effect s s'" using assms(4) by (auto simp: user_run_def trap_effect_def same_table_def)
  moreover have "cont_ok (ks(c := Running)) s' c" using assms(2,4) by (auto simp: cont_ok_def user_run_def)
  ultimately have "rt_inv (ks(c := Running), s') \<and> step_of c (ks, s) (ks(c := Running), s')"
    using w assms(3) by (intro stay_step [OF assms(1,2)]) (auto simp: writes_within_def)
  then show ?thesis by (simp only: fun_upd_idem [of ks c, OF assms(3)])
qed

lemma call_ok:
  assumes "rt_inv (ks, s)" "current_proc s = Some c" "ks c = Running" "kernel_trap polls (trap_entry cause tval s) = Inr (Done cs s')"
  shows "rt_inv (ks, s') \<and> step_of c (ks, s) (ks, s')"
proof -
  note I = rt_invD [OF assms(1,2)] and E = kernel_trap_done_effect [OF assms(4)]
  have "trap_effect s s'" using E(1) by (simp add: trap_effect_def same_table_def trap_entry_def)
  moreover have "writes_within s (stack_region s c) s'"
    using E(2) I(4) by (intro frame_writes [OF I(2,7)]) (simp add: trap_entry_def)
  moreover have "current_proc s' = Some c" using E(1) assms(2) by (simp add: trap_effect_def same_table_def trap_entry_def)
  ultimately have "rt_inv (ks(c := Running), s') \<and> step_of c (ks, s) (ks(c := Running), s')"
    using assms(3) by (intro stay_step [OF assms(1,2)]) (auto simp: writes_within_def cont_ok_def)
  then show ?thesis by (simp only: fun_upd_idem [of ks c, OF assms(3)])
qed

lemma leave_ok:
  assumes "rt_inv (ks, s)" "current_proc s = Some c" "ks c = Running" "regs (hart s) A3 = SYS_EXIT"
    and "kernel_trap polls (trap_entry cause tval s) = Inr (Suspended cs s')"
  shows "rt_inv (ks(c := Halted), s') \<and> step_of c (ks, s) (ks(c := Halted), s')"
proof -
  note I = rt_invD [OF assms(1,2)]
  obtain s1 where s1: "trapped (trap_entry cause tval s) (stack_top s c - 248) s1" "proc_exit s1 = Inr (Away s')"
    using kernel_trap_suspended [OF assms(5)] I(4) assms(4) by (auto simp: trap_entry_def SYS_GETC_def SYS_EXIT_def)
  note Y = trapped_yielding [OF assms(1,2) s1(1)]
  obtain con where con: "yield (mark_exited con s1) = Inr (Away s')" using proc_exit_yields [OF s1(2)] by blast
  have "idle_proc s1 \<noteq> Some c" using Y(1) I(9) [of c] assms(3) by (auto simp: yielding_def same_spaces_def)
  then have "yielding s c (mark_exited con s1)" by (rule exit_yielding [OF Y(1) _ I(7,2)])
  then show ?thesis using assms(3) con by (intro switch_step_of [OF assms(1,2)]) auto
qed

text \<open>A process in the middle of \<open>SYS_GETC\<close> has its registers in the trap frame.\<close>

lemma waiting_frame:
  assumes "rt_inv (ks, s)" "current_proc s = Some c" "ks c = In_getc at r"
  shows "trap_frame (kmem (lib s)) (stack_top s c - 248) r" "regs (hart s) SP = stack_top s c - 248"
  using rt_invD(6) [OF assms(1,2) rt_invD(7,8) [OF assms(1,2)]] assms(2,3) by (simp_all add: cont_ok_def)

lemma return_ok:
  assumes "rt_inv (ks, s)" "current_proc s = Some c" "ks c = In_getc at r" "resume_getc at polls (regs (hart s) SP) s = Inr (Done cs s')"
  shows "rt_inv (ks(c := Running), s') \<and> step_of c (ks, s) (ks(c := Running), s')"
proof -
  note I = rt_invD [OF assms(1,2)] and G = waiting_frame [OF assms(1-3)]
  note D = resume_done [OF assms(4) [unfolded G(2)] G(1)]
  have "current_proc s' = Some c" using D(1) assms(2) by (simp add: trap_effect_def same_table_def)
  moreover have "writes_within s (stack_region s c \<union> user_bytes (kmem (lib s)) (root_of s c)) s'"
    using frame_writes [OF I(2,7) D(2)] by (auto simp: writes_within_def)
  ultimately show ?thesis using assms(3) D(1) by (intro stay_step [OF assms(1,2)]) (auto simp: cont_ok_def)
qed

lemma rt_step_ok:
  assumes "rt_step (ks, s) x'" "rt_inv (ks, s)" "current_proc s = Some c"
  shows "rt_inv x' \<and> step_of c (ks, s) x'"
  using assms(1)
proof cases
  case (user_code c' s')
  then show ?thesis using code_ok [OF assms(2,3)] assms(3) by simp
next
  case (call c' polls cause tval cs s')
  then show ?thesis using call_ok [OF assms(2,3)] assms(3) by simp
next
  case (wait c' polls cause tval cs s')
  then have c: "c' = c" "ks c = Running" using assms(3) by simp_all
  obtain s1 where s1: "trapped (trap_entry cause tval s) (stack_top s c - 248) s1" "yield s1 = Inr (Away s')"
    using kernel_trap_suspended [OF wait(5)] rt_invD(4) [OF assms(2,3)] wait(4) by (auto simp: trap_entry_def SYS_GETC_def SYS_EXIT_def)
  note Y = trapped_yielding [OF assms(2,3) s1(1)]
  show ?thesis
    unfolding wait(1) c(1) using Y c(2) by (intro switch_step_of [OF assms(2,3) _ Y(1) s1(2)]) auto
next
  case (leave c' polls cause tval cs s')
  then show ?thesis using leave_ok [OF assms(2,3)] assms(3) by simp
next
  case (enter c')
  then have c: "c' = c" "ks c = Fresh" using assms(3) by simp_all
  show ?thesis
    unfolding enter(1) c(1) using c(2) assms(3)
    by (intro stay_step [OF assms(2,3)]) (auto simp: trap_effect_def same_table_def user_entry_def writes_within_def cont_ok_def)
next
  case (return c' at r polls cs s')
  then show ?thesis using return_ok [OF assms(2,3)] assms(3) by simp
next
  case (wait_on c' at r polls cs s')
  then have c: "c' = c" "ks c = In_getc at r" using assms(3) by simp_all
  note G = waiting_frame [OF assms(2,3) c(2)]
  have "yielding s c s" using rt_invD(1) [OF assms(2,3)] assms(3) G(2) by (simp add: yielding_def same_spaces_def writes_within_def)
  then have "rt_inv (ks(c := In_getc at r), s') \<and> step_of c (ks, s) (ks(c := In_getc at r), s')"
    using c(2) G(1) resume_suspended [OF wait_on(4)] by (intro switch_step_of [OF assms(2,3)]) auto
  then show ?thesis using wait_on(1) by (simp only: fun_upd_idem [of ks c, OF c(2)])
qed

lemma rt_step_current: "rt_step (ks, s) x' \<Longrightarrow> \<exists>c. current_proc s = Some c \<and> ks c \<noteq> Halted"
  by (cases rule: rt_stepE) auto

lemma rt_step_inv: "rt_step x x' \<Longrightarrow> rt_inv x \<Longrightarrow> rt_inv x'"
  using rt_step_ok rt_step_current by (metis surj_pair)

lemma rt_reaches_inv: "rt_reaches x x' \<Longrightarrow> rt_inv x \<Longrightarrow> rt_inv x'"
  by (induction rule: rt_reaches.induct) (auto intro: rt_step_inv)

end
