(* ===== verification/Runtime_Boot.thy ===== *)
theory Runtime_Boot
  imports Runtime
begin

text \<open>
  Where the invariant of the running kernel comes from: every address space that \<open>create_process\<close> builds is apart from the ones before
  it, and the state that \<open>kmain\<close> leaves satisfies \<open>rt_inv\<close>.
\<close>

section \<open>The user pages of a new process\<close>

lemma vpns_low: "vpns (take_bit 39 v) = vpns v"
proof -
  have "drop_bit n (take_bit 39 v) AND mask 9 = drop_bit n v AND mask 9" if "n \<le> 30" for n
    by (rule bit_word_eqI) (use that in \<open>auto simp: bit_simps\<close>)
  then show ?thesis by (simp add: vpns_def vpn2_def vpn1_def vpn0_def VPN_MASK_mask)
qed

lemma user_bytes_image:
  assumes t: "translation m root = space_of (space_mappings kb he pgs)" and ok: "ranges_ok kb he (length pgs)"
    and pgs: "\<And>pg. pg \<in> set pgs \<Longrightarrow> 4096 dvd unat pg \<and> unat pg < 2 ^ 46"
  shows "user_bytes m root \<subseteq> (\<Union>pg \<in> set pgs. page_at pg)"
proof
  fix a assume "a \<in> user_bytes m root"
  then obtain v pte where v: "translation m root (vpns v) = Some pte" "pte AND ucast PAGE_U \<noteq> 0" "a \<in> page_at (pte_frame pte)"
    by (auto simp: user_bytes_def)
  let ?v = "take_bit 39 v"
  have bits: "(PAGE_U OR PAGE_R OR PAGE_W OR PAGE_X) AND 16 \<noteq> 0" "(PAGE_R OR PAGE_W OR PAGE_X) AND 16 = 0" "(PAGE_R OR PAGE_W) AND 16 = 0"
    "(ucast PAGE_U :: u64) = 16" "unat (PAGE_U OR PAGE_R OR PAGE_W OR PAGE_X :: u32) < 1024"
    by (simp_all add: PAGE_U_def PAGE_R_def PAGE_W_def PAGE_X_def)
  have low: "unat ?v < 2 ^ 39" using take_bit_nat_less_exp [of 39 "unat v"] by (simp add: unsigned_take_bit_eq)
  have "space_of (space_mappings kb he pgs) (vpns ?v) = Some pte" using v(1) t vpns_low [of v] by simp
  note L = this [unfolded space_lookup [OF ok low]]
  have "0x1000000 \<le> unat ?v \<and> unat ?v < 0x1000000 + 4096 * length pgs"
    using L v(2) leaf_user_bit bits unfolding bits(4) by (auto split: if_splits)
  moreover from this have k: "(unat ?v - 0x1000000) div 4096 < length pgs" by (simp add: less_mult_imp_div_less mult.commute less_diff_conv2)
  ultimately have "pte = pte_leaf (pgs ! ((unat ?v - 0x1000000) div 4096)) (PAGE_U OR PAGE_R OR PAGE_W OR PAGE_X)" using L by simp
  then have "pte_frame pte = pgs ! ((unat ?v - 0x1000000) div 4096)" using pgs [OF nth_mem [OF k]] bits(5) by (simp add: pte_frame_exact)
  then show "a \<in> (\<Union>pg \<in> set pgs. page_at pg)" using v(3) nth_mem [OF k] by auto
qed

section \<open>Spaces in the heap\<close>

text \<open>Every address space lies in the part of the heap \<open>H\<close> that is not free.\<close>

definition spaces_in :: "nat set \<Rightarrow> nat set \<Rightarrow> ksys \<Rightarrow> bool" where
  "spaces_in H F s \<longleftrightarrow> spaces_ok s \<and>
     (\<forall>i < 8. in_use (procs s) i \<longrightarrow> table_bytes (kmem (lib s)) (root_of s i) \<union> user_bytes (kmem (lib s)) (root_of s i) \<subseteq> H - F)"

text \<open>A change of memory outside the spaces, and of the process table in other fields, is no change of them.\<close>

lemma pt_inv_apart: "pt_inv m root F \<Longrightarrow> table_bytes m root \<inter> A = {} \<Longrightarrow> pt_inv m root A"
  unfolding pt_inv_def table_bytes_def by blast

lemma space_unchanged:
  assumes "pt_inv m root A" "table_bytes m root \<subseteq> B" "\<And>a. unat a \<in> B \<Longrightarrow> m' a = m a"
  shows "translation m' root = translation m root" "table_bytes m' root = table_bytes m root" "user_bytes m' root = user_bytes m root"
    "pt_inv m' root A"
proof -
  have eq: "\<And>a. unat a \<in> table_bytes m root \<Longrightarrow> m' a = m a" using assms(2,3) by blast
  show t: "translation m' root = translation m root" by (rule translation_cong [OF assms(1) eq])
  show "table_bytes m' root = table_bytes m root" by (rule table_bytes_cong [OF assms(1) eq])
  show "user_bytes m' root = user_bytes m root" by (rule user_bytes_cong [OF t])
  show "pt_inv m' root A" by (rule pt_inv_cong [OF assms(1) eq order_refl])
qed

text \<open>The space of slot \<open>j\<close> after a step that writes nothing of \<open>H - F\<close>, where every space of \<open>s\<close> is.\<close>

lemma space_stays:
  assumes "spaces_in H F s" "j < 8" "in_use (procs s) j" "\<forall>a. unat a \<in> H - F \<longrightarrow> m' a = kmem (lib s) a"
  shows "table_bytes m' (root_of s j) = table_bytes (kmem (lib s)) (root_of s j)" "user_bytes m' (root_of s j) = user_bytes (kmem (lib s)) (root_of s j)"
    "pt_inv m' (root_of s j) (stacks s)" "table_bytes (kmem (lib s)) (root_of s j) \<union> user_bytes (kmem (lib s)) (root_of s j) \<subseteq> H - F"
proof -
  show sub: "table_bytes (kmem (lib s)) (root_of s j) \<union> user_bytes (kmem (lib s)) (root_of s j) \<subseteq> H - F"
    using assms(1-3) by (simp add: spaces_in_def)
  have pt: "pt_inv (kmem (lib s)) (root_of s j) (stacks s)" "table_bytes (kmem (lib s)) (root_of s j) \<subseteq> H - F"
    using assms(1-3) sub by (simp_all add: spaces_in_def spaces_ok_def space_apart_def)
  note U = space_unchanged [OF pt assms(4) [rule_format]]
  show "table_bytes m' (root_of s j) = table_bytes (kmem (lib s)) (root_of s j)" "user_bytes m' (root_of s j) = user_bytes (kmem (lib s)) (root_of s j)"
    "pt_inv m' (root_of s j) (stacks s)" by (rule U; assumption)+
qed

lemma spaces_in_cong:
  assumes "spaces_in H F s" "procs_base s' = procs_base s" "F' \<subseteq> F"
    and "\<And>j. j < 8 \<Longrightarrow> in_use (procs s') j = in_use (procs s) j" "\<And>j. j < 8 \<Longrightarrow> root_of s' j = root_of s j"
    and "\<And>a. unat a \<in> H - F \<Longrightarrow> kmem (lib s') a = kmem (lib s) a"
  shows "spaces_in H F' s'"
proof -
  let ?m = "kmem (lib s)" and ?m' = "kmem (lib s')"
  have st: "stacks s' = stacks s" using assms(2) by (simp add: stacks_def stack_region_def)
  have "\<forall>a. unat a \<in> H - F \<longrightarrow> ?m' a = ?m a" using assms(6) by blast
  note S = space_stays [OF assms(1) _ _ this]
  have "space_apart s' i" if "i < 8" "in_use (procs s') i" for i
    using assms(1) that S assms(4,5) unfolding spaces_in_def spaces_ok_def space_apart_def st by auto
  moreover have "table_bytes ?m' (root_of s' i) \<union> user_bytes ?m' (root_of s' i) \<subseteq> H - F'" if "i < 8" "in_use (procs s') i" for i
    using S [OF that(1)] assms(3-5) that by auto
  ultimately show ?thesis by (simp add: spaces_in_def spaces_ok_def)
qed

section \<open>A new process\<close>

lemma layout_stacks: "layout_ok s F \<Longrightarrow> F \<inter> stacks s = {}" "layout_ok s F \<Longrightarrow> stacks_fit s"
  by (auto simp: layout_ok_def stacks_def stacks_fit_def PROCS_MAX_def)

text \<open>The address space that \<open>create_process\<close> adds, in a state where the others are apart.\<close>

lemma space_added:
  assumes old: "spaces_in H F s" and H: "F \<subseteq> H" "H \<inter> stacks s = {}" and base: "procs_base s' = procs_base s"
    and i: "i < 8" "\<not> in_use (procs s) i"
    and use: "\<And>j. j < 8 \<Longrightarrow> in_use (procs s') j \<longleftrightarrow> j = i \<or> in_use (procs s) j"
    and roots: "root_of s' i = root" "\<And>j. j < 8 \<Longrightarrow> j \<noteq> i \<Longrightarrow> root_of s' j = root_of s j"
    and mem: "\<And>a. unat a \<notin> F \<Longrightarrow> unat a \<notin> stack_region s i \<Longrightarrow> kmem (lib s') a = kmem (lib s) a"
    and new: "pt_inv (kmem (lib s')) root F'" "F' \<subseteq> F" "table_bytes (kmem (lib s')) root \<subseteq> F - F'" "user_bytes (kmem (lib s')) root \<subseteq> F - F'"
      "user_bytes (kmem (lib s')) root \<inter> table_bytes (kmem (lib s')) root = {}" "F \<subseteq> {..< 2 ^ 46}"
  shows "spaces_in H F' s'"
proof -
  let ?m = "kmem (lib s)" and ?m' = "kmem (lib s')"
  have st: "stacks s' = stacks s" using base by (simp add: stacks_def stack_region_def)
  have keep: "\<forall>a. unat a \<in> H - F \<longrightarrow> ?m' a = ?m a"
    using mem H(2) stack_in_stacks [OF i(1), of s] by blast
  note O = space_stays [OF old _ _ keep]
  have "unat root \<in> table_bytes ?m' root" unfolding table_bytes_def using page_ne [of root] by (force intro: exI [of _ "[]"])
  then have root46: "unat root < 2 ^ 46" using new(3,6) by blast
  have ptn: "pt_inv ?m' root (stacks s)" using pt_inv_apart [OF new(1)] new(3) H by blast
  have apart: "space_apart s' j" if j: "j < 8" "in_use (procs s') j" for j
  proof (cases "j = i")
    case True
    have "user_bytes ?m' root \<inter> (table_bytes ?m' (root_of s' k) \<union> user_bytes ?m' (root_of s' k)) = {}"
      if k: "k < 8" "in_use (procs s') k" "k \<noteq> i" for k
      using O [of k] k use [OF k(1)] roots(2) [OF k(1,3)] new(4) by auto
    then show ?thesis
      unfolding space_apart_def True st roots(1) using ptn root46 new(4,5) H roots(1) by blast
  next
    case False
    then have j': "in_use (procs s) j" using use j by simp
    have old_j: "space_apart s j" using old j(1) j' by (simp add: spaces_in_def spaces_ok_def)
    have "user_bytes ?m (root_of s j) \<inter> table_bytes ?m' (root_of s' k) = {} \<and>
        (k \<noteq> j \<longrightarrow> user_bytes ?m (root_of s j) \<inter> user_bytes ?m' (root_of s' k) = {})" if k: "k < 8" "in_use (procs s') k" for k
    proof (cases "k = i")
      case True
      then show ?thesis using O(4) [OF j(1) j'] new(3,4) roots(1) by auto
    next
      case False
      then have k': "in_use (procs s) k" using use k by simp
      then show ?thesis
        using old_j k(1) k' O(1,2) [OF k(1) k'] roots(2) [OF k(1) False] by (simp add: space_apart_def)
    qed
    then show ?thesis
      unfolding space_apart_def st roots(2) [OF j(1) False] O(2) [OF j(1) j']
      using old_j O(3) [OF j(1) j'] by (auto simp: space_apart_def)
  qed
  have "table_bytes ?m' (root_of s' j) \<union> user_bytes ?m' (root_of s' j) \<subseteq> H - F'" if j: "j < 8" "in_use (procs s') j" for j
    using O [OF j(1)] j use [OF j(1)] roots new H(1) by (cases "j = i") auto
  then show ?thesis using apart by (simp add: spaces_in_def spaces_ok_def)
qed

lemma spawn_spaces:
  assumes lay: "layout_ok s F" "alloc_inv b (lib s) F" and img: "image_ok s F img image_size"
    and ok: "ranges_ok (kernel_base s) (heap_end (lib s)) (image_pages image_size)"
    and old: "spaces_in H F s" "F \<subseteq> H" "H \<inter> stacks s = {}"
    and c: "create_process img image_size s = Inr (i, s')"
  obtains root F' where "find_unused 0 (procs s) = Some i" "F' \<subseteq> F" "layout_ok s' F'" "alloc_inv b (lib s') F'" "spaces_in H F' s'"
    "s' = s\<lparr>lib := lib s', procs := (procs s)[i := \<lparr>pid = of_nat (i + 1), state = PROC_RUNNABLE, psp = stack_top s i - 104, page_table = root\<rparr>]\<rparr>"
    "heap_end (lib s') = heap_end (lib s)" "fresh_frame (kmem (lib s')) (stack_top s i - 104) (user_entry_pc s)"
    "\<forall>a. unat a \<notin> F \<longrightarrow> unat a \<notin> stack_region s i \<longrightarrow> kmem (lib s') a = kmem (lib s) a"
    "card F = card F' + space_cost (kernel_base s) (heap_end (lib s)) (image_pages image_size)"
proof -
  obtain root pgs F' where P: "find_unused 0 (procs s) = Some i"
    "s' = s\<lparr>lib := lib s', procs := (procs s)[i := \<lparr>pid = of_nat (i + 1), state = PROC_RUNNABLE, psp = stack_top s i - 104, page_table = root\<rparr>]\<rparr>"
    "fresh_frame (kmem (lib s')) (stack_top s i - 104) (user_entry_pc s)"
    "pt_state_of b (lib s') root F'" "F' \<subseteq> F" "heap_end (lib s') = heap_end (lib s)"
    "translation (kmem (lib s')) root = space_of (space_mappings (kernel_base s) (heap_end (lib s)) pgs)"
    "length pgs = image_pages image_size"
    "\<And>k. k < length pgs \<Longrightarrow> 4096 dvd unat (pgs ! k) \<and> page_at (pgs ! k) \<inter> table_bytes (kmem (lib s')) root = {}"
    "owned_bytes (kmem (lib s')) root pgs \<subseteq> F - F'"
    "\<And>a. unat a \<notin> F \<Longrightarrow> unat a \<notin> stack_region s i \<Longrightarrow> kmem (lib s') a = kmem (lib s) a"
    "card F = card F' + space_cost (kernel_base s) (heap_end (lib s)) (image_pages image_size)"
    using create_process_ok [OF lay img c] by metis
  have len: "length (procs s) = 8" and F46: "F \<subseteq> {..< 2 ^ 46}" using lay(1) by (simp_all add: layout_ok_def PROCS_MAX_def)
  have i: "i < 8" "\<not> in_use (procs s) i" using find_unused_Some [OF P(1)] len by (simp_all add: in_use_def)
  have ps: "procs s' = (procs s)[i := \<lparr>pid = of_nat (i + 1), state = PROC_RUNNABLE, psp = stack_top s i - 104, page_table = root\<rparr>]"
    "procs_base s' = procs_base s" by (subst P(2), simp)+
  have pages: "page_at pg \<subseteq> F - F'" "4096 dvd unat pg \<and> unat pg < 2 ^ 46" "page_at pg \<inter> table_bytes (kmem (lib s')) root = {}" if pg: "pg \<in> set pgs" for pg
  proof -
    show sub: "page_at pg \<subseteq> F - F'" using P(10) pg by (auto simp: owned_bytes_def)
    show "page_at pg \<inter> table_bytes (kmem (lib s')) root = {}" using P(9) pg by (auto simp: in_set_conv_nth)
    show "4096 dvd unat pg \<and> unat pg < 2 ^ 46" using P(9) pg sub page_ne [of pg] F46 by (auto simp: in_set_conv_nth)
  qed
  note U = user_bytes_image [OF P(7) ok [folded P(8)] pages(2)]
  have tb: "table_bytes (kmem (lib s')) root \<subseteq> F - F'" using P(10) by (simp add: owned_bytes_def)
  have "spaces_in H F' s'"
  proof (rule space_added [OF old ps(2) i])
    show "in_use (procs s') j \<longleftrightarrow> j = i \<or> in_use (procs s) j" if "j < 8" for j
      using that len i(1) by (auto simp: ps(1) in_use_def nth_list_update PROCS_MAX_def PROC_RUNNABLE_def PROC_UNUSED_def)
    show "user_bytes (kmem (lib s')) root \<subseteq> F - F'" "user_bytes (kmem (lib s')) root \<inter> table_bytes (kmem (lib s')) root = {}"
      using U pages(1,3) by blast+
  qed (use P(4,5,11) tb F46 i(1) len in \<open>simp_all add: ps(1) pt_state_of_def\<close>)
  moreover have "layout_ok s' F'" using P(6) by (intro layout_ok_mono [OF lay(1) P(5)]) (simp_all add: ps)
  ultimately show thesis using that [of F' root] P by (simp add: pt_state_of_def)
qed

section \<open>After the boot\<close>

text \<open>All address spaces when \<open>kmain\<close> calls \<open>yield\<close>: the stages of the boot, and the spaces they add.\<close>

lemma idle_space:
  assumes boot: "boot_state s F shell shell_size" and ok: "ranges_ok (kernel_base s) (heap_end (lib s)) 0"
    and k: "alloc_inv True k F" "heap_end k = heap_end (lib s)" "alloc_inv True k1 F1"
    and c: "create_process 0 0 (init_trap_handler handler (s\<lparr>lib := k\<rparr>)) =
      Inr (0, (init_trap_handler handler s)\<lparr>lib := k1, procs := (procs s)[0 := boot_slot s 0 1 root]\<rparr>)"
  shows "spaces_in F F1 (booting handler s k1 ((procs s)[0 := boot_slot s 0 0 root]))"
proof -
  let ?s0 = "init_trap_handler handler (s\<lparr>lib := k\<rparr>)" and ?s1 = "(init_trap_handler handler s)\<lparr>lib := k1, procs := (procs s)[0 := boot_slot s 0 1 root]\<rparr>"
  have s0: "procs ?s0 = procs s" "lib ?s0 = k" "kernel_base ?s0 = kernel_base s" "procs_base ?s0 = procs_base s"
    by (simp_all add: init_trap_handler_def)
  have "layout_ok s F" using boot unfolding boot_state_def by blast
  then have lay0: "layout_ok ?s0 F" by (rule layout_ok_mono) (use s0 k(2) in simp_all)
  have pages0: "image_pages 0 = 0" by (simp add: image_pages_def)
  have none: "spaces_in F F ?s0" using boot_table(2) [OF boot] s0(1) by (simp add: spaces_in_def spaces_ok_def in_use_def)
  have pre: "alloc_inv True (lib ?s0) F" "image_ok ?s0 F 0 0" "ranges_ok (kernel_base ?s0) (heap_end (lib ?s0)) (image_pages 0)"
    using k(1,2) ok s0 by (simp_all add: image_ok_def pages0)
  obtain F' where S: "alloc_inv True (lib ?s1) F'" "spaces_in F F' ?s1"
    by (rule spawn_spaces [OF lay0 pre none order_refl layout_stacks(1) [OF lay0] c])
  have "F' = F1" using S(1) k(3) by (intro buddy_inv_unique) simp
  then show ?thesis
    using boot_table(1) [OF boot]
    by (intro spaces_in_cong [OF S(2)]) (auto simp: in_use_def nth_list_update PROCS_MAX_def init_trap_handler_def)
qed

lemma boot_spaces:
  assumes boot: "boot_state s F shell shell_size" and dev: "blk_device bus I" "I d"
    and ok: "ranges_ok (kernel_base s) (heap_end (lib s)) (image_pages shell_size)"
    and run: "kmain handler bus shell shell_size s d = Inr (s', b, d')"
  obtains s4 F4 where "yield s4 = Inr (Away s')" "spaces_in F F4 s4" "stacks_fit s4" "current_proc s4 = Some 0" "procs_base s4 = procs_base s"
    "user_entry_pc s4 = user_entry_pc s" "regs (hart s4) SP = regs (hart s) SP"
proof -
  have B: "layout_ok s F" "image_ok s F shell shell_size" using boot unfolding boot_state_def by blast+
  obtain k k1 k3 k4 :: kst and root0 F1 b3 d3 F3 root1 F4 where S: "alloc_inv True k F" "heap_end k = heap_end (lib s)"
    "create_process 0 0 (init_trap_handler handler (s\<lparr>lib := k\<rparr>)) =
      Inr (0, (init_trap_handler handler s)\<lparr>lib := k1, procs := (procs s)[0 := boot_slot s 0 1 root0]\<rparr>)"
    "F1 \<subseteq> F" "alloc_inv True k1 F1" "F3 \<subseteq> F1" "alloc_inv True k3 F3" "heap_end k3 = heap_end (lib s)" "\<forall>a. unat a \<notin> F1 \<longrightarrow> kmem k3 a = kmem k1 a"
    "create_process shell shell_size (booting handler s k3 ((procs s)[0 := boot_slot s 0 0 root0])) =
      Inr (1, booting handler s k4 ((procs s)[0 := boot_slot s 0 0 root0, 1 := boot_slot s 1 2 root1]))"
    "kmain handler bus shell shell_size s d =
      bind_res (yield (booting handler s k4 ((procs s)[0 := boot_slot s 0 0 root0, 1 := boot_slot s 1 2 root1])))
        (\<lambda>y. case y of Back s \<Rightarrow> Inl (Panic ''Exited out of scheduler. Halting!'' []) | Away s \<Rightarrow> Inr (s, b3, d3))"
    by (rule kmain_stages [OF boot dev, where handler = handler]) (rule that; assumption)
  let ?s1 = "booting handler s k1 ((procs s)[0 := boot_slot s 0 0 root0])" and ?s3 = "booting handler s k3 ((procs s)[0 := boot_slot s 0 0 root0])"
  let ?s4 = "booting handler s k4 ((procs s)[0 := boot_slot s 0 0 root0, 1 := boot_slot s 1 2 root1])"
  have "ranges_ok (kernel_base s) (heap_end (lib s)) 0" using ok by (simp add: ranges_ok_def)
  from idle_space [OF boot this S(1,2,5,3)] have sp3: "spaces_in F F3 ?s3"
    by (rule spaces_in_cong [of _ _ ?s1]) (use S(6,9) in auto)
  have F3: "F3 \<subseteq> F" using S(4,6) by blast
  have lay3: "layout_ok ?s3 F3" using boot_table(1) [OF boot] S(8) by (intro booting_layout [OF B(1) F3]) simp_all
  have pre: "alloc_inv True (lib ?s3) F3" "image_ok ?s3 F3 shell shell_size" "ranges_ok (kernel_base ?s3) (heap_end (lib ?s3)) (image_pages shell_size)"
    "F \<inter> stacks ?s3 = {}"
    using S(7,8) image_ok_mono [OF B(2) F3, of ?s3] ok layout_stacks(1) [OF B(1)] by (simp_all add: stacks_def)
  obtain F4 where "layout_ok ?s4 F4" "spaces_in F F4 ?s4"
    by (rule spawn_spaces [OF lay3 pre(1-3) sp3 F3 pre(4) S(10)])
  moreover have "yield ?s4 = Inr (Away s')"
  proof (cases "yield ?s4")
    case (Inr y)
    then show ?thesis using run S(11) by (cases y) simp_all
  qed (use run S(11) in simp)
  ultimately show thesis using that [of ?s4 F4] layout_stacks(2) by simp
qed

text \<open>The running kernel starts with the shell fresh and the idle process at its end.\<close>

abbreviation boot_conts :: "nat \<Rightarrow> cont" where
  "boot_conts \<equiv> (\<lambda>_. Halted)(1 := Fresh)"

lemma kmain_rt_inv:
  assumes boot: "boot_state s F shell shell_size" and dev: "blk_device bus I" "I d"
    and ok: "ranges_ok (kernel_base s) (heap_end (lib s)) (image_pages shell_size)"
    and run: "kmain handler bus shell shell_size s d = Inr (s', b, d')"
  shows "rt_inv (boot_conts, s')"
proof -
  obtain s4 F4 where S: "yield s4 = Inr (Away s')" "spaces_in F F4 s4" "stacks_fit s4" "current_proc s4 = Some 0" "procs_base s4 = procs_base s"
    "user_entry_pc s4 = user_entry_pc s" "regs (hart s4) SP = regs (hart s) SP"
    by (rule boot_spaces [OF assms])
  have K: "current_proc s' = Some 1" "idle_proc s' = Some 0" "sched_inv s'" "pc (hart s') = user_entry_pc s"
    "sscratch (hart s') = stack_top s 1" "satp (hart s') = new_satp (root_of s' 1)"
    using kmain_runs [OF boot dev, of handler] run by auto
  obtain n where n: "s' = switch_context 0 n (s4\<lparr>current_proc := Some n, hart := (hart s4)\<lparr>sscratch := stack_top s4 n, satp := new_satp (root_of s4 n)\<rparr>\<rparr>)"
    using yield_away [OF S(1)] S(4) by (metis option.sel)
  let ?t = "s4\<lparr>current_proc := Some n, hart := (hart s4)\<lparr>sscratch := stack_top s4 n, satp := new_satp (root_of s4 n)\<rparr>\<rparr>"
  have len: "length (procs ?t) = 8" using S(3) by (simp add: stacks_fit_def)
  then have pos: "0 < length (procs ?t)" by simp
  note P = switch_procs [OF pos, of n, folded n]
  have "\<forall>z \<in> span (regs (hart s) SP - 104) 104. unat z \<notin> F" using boot unfolding boot_state_def by blast
  then have mem: "kmem (lib s') a = kmem (lib s4) a" if "unat a \<in> F - F4" for a
    using that switch_context_other [of a ?t 0 n] S(7) by (auto simp: n)
  have "spaces_in F F4 s'" by (rule spaces_in_cong [OF S(2)]) (use P len mem in simp_all)
  moreover have "procs_base s' = procs_base s" "user_entry_pc s' = user_entry_pc s" using P len S(5,6) by simp_all
  moreover have "length (procs s') = 8" using len by (simp add: n)
  ultimately show ?thesis
    using K S(3,5) by (simp add: rt_inv_def spaces_in_def stacks_fit_def stack_top_def cont_ok_def)
qed

end
