(* ===== verification/Runtime_Example.thy ===== *)
theory Runtime_Example
  imports Runtime_Boot Example
begin

text \<open>
  A concrete running system: three address spaces that \<open>create_process\<close> builds one after the other, the first one made the idle
  process, the second one in user mode, the third one fresh. The properties of the running kernel are instantiated on it.
\<close>

section \<open>Processes in a row\<close>

text \<open>The small system after \<open>n\<close> calls of \<open>create_process\<close>, with \<open>F\<close> still free.\<close>

definition small_stage :: "nat \<Rightarrow> ksys \<Rightarrow> nat set \<Rightarrow> bool" where
  "small_stage n s F \<longleftrightarrow> layout_ok s F \<and> buddy_inv (lib s) F \<and> spaces_in small_free F s \<and> F \<subseteq> small_free \<and> heap_end (lib s) = 0x80340000 \<and>
     kernel_base s = 0x80200000 \<and> procs_base s = 0x80210000 \<and> user_entry_pc s = 0x80200100 \<and> current_proc s = None \<and>
     262144 \<le> card F + 36864 * n \<and>
     (\<forall>j < 8. if j < n then state (procs s ! j) = PROC_RUNNABLE \<and> pid (procs s ! j) = of_nat (j + 1) \<and> cont_ok (\<lambda>_. Fresh) s j
        else procs s ! j = no_process)"

lemma small_image_at: "procs_base s = 0x80210000 \<Longrightarrow> F \<subseteq> small_free \<Longrightarrow> image_ok s F 0x80201000 5000"
  by (rule image_ok_mono [OF small_image [of small_heap]]) (simp_all add: small_sys_def)

lemma small_ranges_at: "kernel_base s = 0x80200000 \<Longrightarrow> heap_end (lib s) = 0x80340000 \<Longrightarrow>
    ranges_ok (kernel_base s) (heap_end (lib s)) (image_pages 5000)"
  by (simp add: ranges_ok_def kernel_pages_def image_pages_def)

lemma small_cost_at:
  assumes "kernel_base s = 0x80200000" "heap_end (lib s) = 0x80340000"
  shows "space_cost (kernel_base s) (heap_end (lib s)) (image_pages 5000) \<le> 36864"
  using space_cost_bound [OF small_ranges_at [OF assms]] assms
  by (simp add: space_bound_def regions_def kernel_pages_def image_pages_def VIRTIO_PADDR_def USER_BASE_def)

lemma small_stacks_apart: "procs_base s = 0x80210000 \<Longrightarrow> small_free \<inter> stacks s = {}"
  by (auto simp: stacks_def stack_region_def small_free_def)

lemma find_first_free:
  assumes "n < length ps" "state (ps ! n) = PROC_UNUSED" "\<And>j. j < n \<Longrightarrow> state (ps ! j) = PROC_RUNNABLE"
  shows "find_unused 0 ps = Some n"
proof -
  obtain i where i: "find_unused 0 ps = Some i"
    using find_unused_None [of 0 ps] assms(1,2) by (cases "find_unused 0 ps") auto
  have "\<not> i < n" using assms(3) [of i] find_unused_Some [OF i] by (auto simp: PROC_RUNNABLE_def PROC_UNUSED_def)
  moreover have "\<not> n < i" using find_unused_Some [OF i] assms(2) by auto
  ultimately show ?thesis using i by simp
qed

lemma small_stage_next:
  assumes S: "small_stage n s F" and n: "n < 7"
  obtains s' F' where "create_process 0x80201000 5000 s = Inr (n, s')" "small_stage (Suc n) s' F'"
proof -
  have L: "layout_ok s F" "buddy_inv (lib s) F" "spaces_in small_free F s" "F \<subseteq> small_free" "heap_end (lib s) = 0x80340000"
    "kernel_base s = 0x80200000" "procs_base s = 0x80210000" "user_entry_pc s = 0x80200100" "current_proc s = None" "262144 \<le> card F + 36864 * n"
    "\<And>j. j < n \<Longrightarrow> state (procs s ! j) = PROC_RUNNABLE \<and> pid (procs s ! j) = of_nat (j + 1) \<and> cont_ok (\<lambda>_. Fresh) s j"
    "\<And>j. j < 8 \<Longrightarrow> \<not> j < n \<Longrightarrow> procs s ! j = no_process"
    using S n unfolding small_stage_def by auto
  note img = small_image_at [OF L(7,4)] and rng = small_ranges_at [OF L(6,5)]
  have len: "length (procs s) = 8" "stacks_fit s" using layout_stacks(2) [OF L(1)] by (simp_all add: stacks_fit_def)
  have free: "find_unused 0 (procs s) = Some n"
    by (rule find_first_free) (use L(11,12) n len(1) in \<open>simp_all add: no_process_def\<close>)
  have "space_cost (kernel_base s) (heap_end (lib s)) (image_pages 5000) \<le> card F" using small_cost_at [OF L(6,5)] L(10) n by simp
  then obtain s' where c: "create_process 0x80201000 5000 s = Inr (n, s')"
    using create_process_plain_total [OF L(1,2) img _ free] L(6) by auto
  have inv: "alloc_inv False (lib s) F" using L(2) by simp
  obtain root F' where P: "F' \<subseteq> F" "layout_ok s' F'" "alloc_inv False (lib s') F'" "spaces_in small_free F' s'"
    "s' = s\<lparr>lib := lib s', procs := (procs s)[n := \<lparr>pid = of_nat (n + 1), state = PROC_RUNNABLE, psp = stack_top s n - 104, page_table = root\<rparr>]\<rparr>"
    "heap_end (lib s') = heap_end (lib s)" "fresh_frame (kmem (lib s')) (stack_top s n - 104) (user_entry_pc s)"
    "\<forall>a. unat a \<notin> F \<longrightarrow> unat a \<notin> stack_region s n \<longrightarrow> kmem (lib s') a = kmem (lib s) a"
    "card F = card F' + space_cost (kernel_base s) (heap_end (lib s)) (image_pages 5000)"
    by (rule spawn_spaces [OF L(1) inv img rng L(3,4) small_stacks_apart [OF L(7)] c])
  have ps: "procs s' = (procs s)[n := \<lparr>pid = of_nat (n + 1), state = PROC_RUNNABLE, psp = stack_top s n - 104, page_table = root\<rparr>]"
    "procs_base s' = procs_base s" "user_entry_pc s' = user_entry_pc s" "kernel_base s' = kernel_base s" "current_proc s' = current_proc s"
    by (subst P(5), simp)+
  have old: "cont_ok (\<lambda>_. Fresh) s' j" if j: "j < n" for j
  proof (rule cont_away [OF _ _ len(2) ps(2,3)])
    fix a :: u64 assume a: "unat a \<in> stack_region s j"
    have "j < 8" "j \<noteq> n" using j n by simp_all
    then have "unat a \<notin> stack_region s n" "unat a \<notin> F"
      using a stack_regions_disjoint [of j n s] stack_in_stacks [of j s] small_stacks_apart [OF L(7)] L(4) by blast+
    then show "kmem (lib s') a = kmem (lib s) a" using P(8) by blast
  qed (use L(9,11) j n ps in auto)
  have new: "cont_ok (\<lambda>_. Fresh) s' n" using P(7) n len ps L(9) by (simp add: cont_ok_def stack_top_def)
  have slots: "if j < Suc n then state (procs s' ! j) = PROC_RUNNABLE \<and> pid (procs s' ! j) = of_nat (j + 1) \<and> cont_ok (\<lambda>_. Fresh) s' j
        else procs s' ! j = no_process" if "j < 8" for j
    using L(11,12) that old new n len ps(1) by (cases j n rule: linorder_cases) (auto simp: nth_list_update)
  moreover have "heap_end (lib s') = 0x80340000" "kernel_base s' = 0x80200000" "procs_base s' = 0x80210000" "user_entry_pc s' = 0x80200100"
    "current_proc s' = None" using P(6) L ps(2-) by simp_all
  moreover have "F' \<subseteq> small_free" "buddy_inv (lib s') F'" using P(1,3) L(4) by auto
  moreover have "262144 \<le> card F' + 36864 * Suc n" using L(10) P(9) small_cost_at [OF L(6,5)] by simp
  ultimately have "small_stage (Suc n) s' F'" using P(2,4) unfolding small_stage_def by blast
  with c show thesis using that by blast
qed

section \<open>The running system\<close>

text \<open>Slot 0 as the idle process, slot 1 in user mode about to make system call \<open>a\<close>, slot 2 fresh.\<close>

definition small_start :: "u64 \<Rightarrow> ksys \<Rightarrow> ksys" where
  "small_start a s = s\<lparr>current_proc := Some 1, idle_proc := Some 0, procs := (procs s)[0 := (procs s ! 0)\<lparr>pid := 0\<rparr>],
     hart := reset_hart\<lparr>regs := (\<lambda>_. 0)(A3 := a), pc := 0x1000040, sscratch := stack_top s 1, satp := new_satp (root_of s 1)\<rparr>\<rparr>"

abbreviation small_conts :: "nat \<Rightarrow> cont" where
  "small_conts \<equiv> (\<lambda>_. Fresh)(0 := Halted, 1 := Running)"

text \<open>The processes 1 and 2 are the ones that can run.\<close>

definition two_ready :: "ksys \<Rightarrow> bool" where
  "two_ready s \<longleftrightarrow> idle_proc s = Some 0 \<and> (\<forall>j < 8. runnable (procs s) j \<longleftrightarrow> j = 1 \<or> j = 2)"

lemma small_three:
  obtains k s1 s2 s F where "init_memory small_heap = Inr k" "create_process 0x80201000 5000 (small_sys k) = Inr (0, s1)"
    "create_process 0x80201000 5000 s1 = Inr (1, s2)" "create_process 0x80201000 5000 s2 = Inr (2, s)" "small_stage 3 s F"
proof -
  obtain k where k: "init_memory small_heap = Inr k" "buddy_inv k small_free" "heap_end k = 0x80340000" using small_heap_init by metis
  have "small_stage 0 (small_sys k) small_free"
    using k small_layout [OF k(3)]
    by (simp add: small_stage_def small_sys_def spaces_in_def spaces_ok_def in_use_def no_process_def small_free_def)
  then obtain s1 F1 where 1: "create_process 0x80201000 5000 (small_sys k) = Inr (0, s1)" "small_stage (Suc 0) s1 F1"
    by (rule small_stage_next) simp
  from 1(2) obtain s2 F2 where 2: "create_process 0x80201000 5000 s1 = Inr (Suc 0, s2)" "small_stage (Suc (Suc 0)) s2 F2"
    by (rule small_stage_next) simp
  from 2(2) obtain s F where "create_process 0x80201000 5000 s2 = Inr (Suc (Suc 0), s)" "small_stage (Suc (Suc (Suc 0))) s F"
    by (rule small_stage_next) simp
  then show thesis using that [OF k(1) 1(1)] 2(1) by (simp add: numeral_2_eq_2 numeral_3_eq_3)
qed

lemma small_start_ok:
  assumes S: "small_stage 3 s F"
  shows "rt_inv (small_conts, small_start a s)" "two_ready (small_start a s)"
proof -
  have L: "layout_ok s F" "spaces_in small_free F s" "procs_base s = 0x80210000" "current_proc s = None"
    "\<And>j. j < 3 \<Longrightarrow> state (procs s ! j) = PROC_RUNNABLE \<and> pid (procs s ! j) = of_nat (j + 1) \<and> cont_ok (\<lambda>_. Fresh) s j"
    "\<And>j. j < 8 \<Longrightarrow> \<not> j < 3 \<Longrightarrow> procs s ! j = no_process"
    using S unfolding small_stage_def by auto
  have len: "length (procs s) = 8" "stacks_fit s" using layout_stacks(2) [OF L(1)] by (simp_all add: stacks_fit_def)
  have ps: "procs (small_start a s) = (procs s)[0 := (procs s ! 0)\<lparr>pid := 0\<rparr>]" "procs_base (small_start a s) = procs_base s"
    "user_entry_pc (small_start a s) = user_entry_pc s" "lib (small_start a s) = lib s" "current_proc (small_start a s) = Some 1"
    "idle_proc (small_start a s) = Some 0" by (simp_all add: small_start_def)
  have slot: "state (procs (small_start a s) ! j) = (if j < 3 then PROC_RUNNABLE else PROC_UNUSED)"
    "pid (procs (small_start a s) ! j) = (if j = 1 \<or> j = 2 then of_nat (j + 1) else 0)" "root_of (small_start a s) j = root_of s j"
    "psp (procs (small_start a s) ! j) = psp (procs s ! j)" if "j < 8" for j
    using that len(1) L(5,6) [of j] by (auto simp: ps(1) nth_list_update no_process_def)
  show "two_ready (small_start a s)"
    using slot by (auto simp: two_ready_def runnable_def ps(6) PROC_RUNNABLE_def PROC_UNUSED_def)
  have use: "in_use (procs (small_start a s)) j \<longleftrightarrow> j < 3" if "j < 8" for j
    using slot(1) [OF that] that by (simp add: in_use_def PROCS_MAX_def PROC_RUNNABLE_def PROC_UNUSED_def)
  have "spaces_in small_free F (small_start a s)"
  proof (rule spaces_in_cong [OF L(2) ps(2) order_refl])
    show "in_use (procs (small_start a s)) j = in_use (procs s) j" if "j < 8" for j
      using L(5,6) [of j] that use [OF that] by (auto simp: in_use_def PROCS_MAX_def PROC_RUNNABLE_def PROC_UNUSED_def no_process_def)
  qed (simp_all add: slot(3) ps(4))
  moreover have "cont_ok small_conts (small_start a s) j" if j: "j < 8" "in_use (procs (small_start a s)) j" for j
  proof -
    have "j < 3" using use j by simp
    then have "cont_ok (\<lambda>_. Fresh) s j" using L(5) by simp
    then show ?thesis
      using L(4) ps slot(4) [OF j(1)] by (auto simp: cont_ok_def stack_top_def)
  qed
  moreover have "length (procs (small_start a s)) = 8" using len(1) by (simp add: ps(1))
  then have "sched_inv (small_start a s)"
    using slot use ps(5,6) by (auto simp: sched_inv_def table_ok_def PROCS_MAX_def PROC_RUNNABLE_def PROC_UNUSED_def)
  moreover have "stacks_fit (small_start a s)" using len(2) ps(1,2) by (simp add: stacks_fit_def)
  moreover have "sscratch (hart (small_start a s)) = stack_top (small_start a s) 1" "satp (hart (small_start a s)) = new_satp (root_of s 1)"
    by (simp_all add: small_start_def stack_top_def)
  ultimately show "rt_inv (small_conts, small_start a s)"
    using ps(5,6) slot(3) [of 1] by (simp add: rt_inv_def spaces_in_def)
qed

text \<open>Of two processes that can run, a call that finds no key gives the hart to the other one.\<close>

lemma two_next:
  assumes "table_ok 0 ps" "in_use ps c" "\<forall>j < 8. runnable ps j \<longleftrightarrow> j = 1 \<or> j = 2" "c = 1 \<or> c = 2"
  shows "next_slot ps 0 c = 3 - c"
proof -
  let ?n = "next_slot ps 0 c"
  have "runnable ps 1" using assms(3) by simp
  then have N: "?n < 8" "runnable ps ?n" "\<And>j. j < 8 \<Longrightarrow> runnable ps j \<Longrightarrow> wait_rank 0 ?n c \<le> wait_rank 0 j c"
    using next_slot_first [OF assms(1,2)] by (auto dest: spec [of _ 1])
  have "?n = 1 \<or> ?n = 2" using N(1,2) assms(3) by blast
  moreover have "wait_rank 0 ?n c \<le> wait_rank 0 (3 - c) c" using N(3) [of "3 - c"] assms(3,4) by auto
  ultimately show ?thesis using assms(4) by (auto simp: wait_rank_def first_slot_def)
qed

lemma getc_switches:
  assumes inv: "rt_inv (ks, s)" and c: "current_proc s = Some c" "c = 1 \<or> c = 2" and two: "two_ready s" and a: "regs (hart s) A3 = SYS_GETC"
  obtains s' where "kernel_trap [- 1] (trap_entry SCAUSE_ECALL 0 s) = Inr (Suspended [] s')" "current_proc s' = Some (3 - c)" "two_ready s'"
proof -
  let ?e = "trap_entry SCAUSE_ECALL 0 s"
  obtain f s0 where f: "trap_save ?e = (f, s0)" by (cases "trap_save ?e")
  note S = trap_save_frame [OF f]
  have s0: "procs s0 = procs s" "current_proc s0 = Some c" "idle_proc s0 = Some 0"
    using c(1) two by (subst S(5), simp add: trap_entry_def two_ready_def)+
  have cause: "scause (hart s0) = SCAUSE_ECALL" by (subst S(6)) (simp add: trap_entry_def)
  have T: "table_ok 0 (procs s)" "in_use (procs s) c" "length (procs s) = 8" "idle_proc s = Some 0"
    using rt_invD(1) [OF inv c(1)] two c(1) by (auto simp: sched_inv_def two_ready_def table_ok_def PROCS_MAX_def)
  have n: "next_slot (procs s) 0 c = 3 - c" using two by (intro two_next [OF T(1,2) _ c(2)]) (simp add: two_ready_def)
  obtain s' where y: "yield s0 = Inr (Away s')" using s0 n c(2) by (auto simp: yield_def Let_def)
  have run: "kernel_trap [- 1] ?e = Inr (Suspended [] s')"
    using f y a cause by (simp add: kernel_trap_def handle_trap_def syscall_entry_def Let_def frame_get_frame [OF S(2)] trap_entry_def
        SYS_GETC_def SYS_PUTC_def finish_trap_def trap_return_def)
  obtain h where h: "s' = switch_context c (3 - c) (s0\<lparr>current_proc := Some (3 - c), hart := h\<rparr>)"
    using y s0 n by (elim yield_away) auto
  have "runnable (procs s') j = runnable (procs s) j" for j
    using switch_context_slot [of c "s0\<lparr>current_proc := Some (3 - c), hart := h\<rparr>" "3 - c" j] T(3) c(2) s0(1) by (auto simp: runnable_def h)
  then show thesis using that [OF run] two s0(3) by (simp add: two_ready_def h)
qed

text \<open>The turn of a fresh process 2: it is entered, runs, and waits for a key, so process 1 is scheduled.\<close>

lemma turn_of_second:
  assumes inv: "rt_inv (ks, s)" and c: "current_proc s = Some 2" "ks 2 = Fresh" and two: "two_ready s"
  obtains ks' s' where "others_run 1 (ks, s) (ks', s')" "current_proc s' = Some 1"
proof -
  let ?s1 = "s\<lparr>hart := user_entry (hart s)\<rparr>" and ?ks1 = "ks(2 := Running)"
  let ?s2 = "?s1\<lparr>hart := (hart ?s1)\<lparr>regs := (regs (hart ?s1))(A3 := SYS_GETC)\<rparr>\<rparr>"
  have "pc (hart s) = user_entry_pc s" using rt_invD(6) [OF inv c(1), of 2] rt_invD(8) [OF inv c(1)] c by (simp add: cont_ok_def)
  then have e: "rt_step (ks, s) (?ks1, ?s1)" by (rule rt_step.enter [where ks = ks, OF c])
  have "user_run ?s1 ?s2" unfolding user_run_def
    by (intro exI [of _ "kmem (lib s)"] exI [of _ "(regs (hart ?s1))(A3 := SYS_GETC)"] exI [of _ "pc (hart ?s1)"]) simp
  then have u: "rt_step (?ks1, ?s1) (?ks1, ?s2)" using c(1) by (intro rt_step.user_code [of _ 2]) simp_all
  have inv2: "rt_inv (?ks1, ?s2)" using rt_step_inv [OF u rt_step_inv [OF e inv]] .
  have two2: "two_ready ?s2" using two by (simp add: two_ready_def)
  have c2: "current_proc ?s2 = Some 2" using c(1) by simp
  obtain s3 where g: "kernel_trap [- 1] (trap_entry SCAUSE_ECALL 0 ?s2) = Inr (Suspended [] s3)" "current_proc s3 = Some (3 - 2)"
    by (rule getc_switches [OF inv2 c2 _ two2]) simp_all
  have w: "rt_step (?ks1, ?s2) (?ks1(2 := In_getc (pc (hart ?s2)) (regs (hart ?s2))), s3)"
    by (rule rt_step.wait [where ks = ?ks1, OF c2 _ _ g(1)]) simp_all
  have "others_run 1 (ks, s) (?ks1, ?s2)"
    by (rule others_run.other [OF others_run.other [OF others_run.none_yet _ e] _ u]) (use c(1) in simp_all)
  then have "others_run 1 (ks, s) (?ks1(2 := In_getc (pc (hart ?s2)) (regs (hart ?s2))), s3)"
    by (rule others_run.other [OF _ _ w]) (use c(1) in simp)
  then show thesis using that g(2) by simp
qed

end
