(* ===== verification/Runtime_Props.thy ===== *)
theory Runtime_Props
  imports Runtime_Example
begin

text \<open>
  Properties of the running kernel: what user code can reach in any state of any run, what becomes of a process while others run, and what
  a call finds that waited while others ran. The instances are on the system of \<open>Runtime_Example\<close>.
\<close>

section \<open>Runs\<close>

lemma space_same_trans:
  assumes "space_same s i s1" "space_same s1 i s2" "same_spaces s s1"
  shows "space_same s i s2"
proof -
  have "stacks s1 = stacks s" using assms(3) by (simp add: stacks_def stack_region_def same_spaces_def)
  then show ?thesis using assms(1,2) by (simp add: space_same_def)
qed

lemma rt_reaches_same:
  assumes "rt_reaches x x'" "rt_inv x"
  shows "same_spaces (snd x) (snd x') \<and> (\<forall>i < 8. in_use (procs (snd x)) i \<longrightarrow> space_same (snd x) i (snd x'))"
  using assms
proof (induction rule: rt_reaches.induct)
  case (rt_here x)
  obtain ks s where x: "x = (ks, s)" by (cases x)
  then show ?case using rt_here by (simp add: same_spaces_def space_same_def rt_inv_def spaces_ok_def space_apart_def)
next
  case (rt_more x y z)
  then have IH: "same_spaces (snd x) (snd y)" "\<forall>i < 8. in_use (procs (snd x)) i \<longrightarrow> space_same (snd x) i (snd y)" "rt_inv y"
    using rt_reaches_inv by blast+
  obtain ks s ks' s' where y: "y = (ks, s)" "z = (ks', s')" by (cases y, cases z)
  obtain c where c: "current_proc s = Some c" using rt_step_current rt_more.hyps(2) y by blast
  have "step_of c (ks, s) (ks', s')" using rt_step_ok [OF _ _ c] rt_more.hyps(2) IH(3) y by blast
  then have S: "same_spaces s s'" "\<forall>i < 8. in_use (procs s) i \<longrightarrow> space_same s i s'" by (simp_all add: step_of_def)
  have "\<forall>i < 8. in_use (procs (snd x)) i \<longrightarrow> in_use (procs s) i" using IH(1) y(1) by (simp add: same_spaces_def)
  then show ?case using IH(1,2) S y same_spaces_trans [of "snd x" s s'] space_same_trans [of "snd x" _ s s'] by auto
qed

text \<open>What user mode can write belongs to the process that runs, and to nothing else.\<close>

lemma may_write_own:
  assumes "rt_inv (ks, s)" "current_proc s = Some c" "user_may_write s a"
  shows "unat a \<in> user_bytes (kmem (lib s)) (root_of s c)"
proof (rule ccontr)
  assume out: "unat a \<notin> user_bytes (kmem (lib s)) (root_of s c)"
  let ?s = "s\<lparr>lib := (lib s)\<lparr>kmem := (kmem (lib s))(a := kmem (lib s) a + 1)\<rparr>\<rparr>"
  have "user_run s ?s"
    unfolding user_run_def using assms(3)
    by (intro exI [of _ "(kmem (lib s))(a := kmem (lib s) a + 1)"] exI [of _ "regs (hart s)"] exI [of _ "pc (hart s)"]) simp
  from user_run_writes [OF assms(1,2) this] have "kmem (lib ?s) a = kmem (lib s) a" using out unfolding writes_within_def by blast
  then show False by simp
qed

text \<open>
  (C5) In every state that the running kernel reaches, code in user mode can write only the pages of the process that is current: none of the
  bytes it can write belongs to a kernel stack, to a page table, its own included, or to a user page of another process. The page table and the
  address space of every process are those it had at the start.
\<close>

theorem user_mode_confined:
  assumes "rt_inv (ks0, s0)" "rt_reaches (ks0, s0) (ks, s)" "current_proc s = Some c" "user_may_write s a"
  shows "unat a \<in> user_bytes (kmem (lib s0)) (page_table (procs s0 ! c)) \<and> (\<forall>i < 8. unat a \<notin> stack_region s i) \<and>
    (\<forall>i < 8. in_use (procs s) i \<longrightarrow> unat a \<notin> table_bytes (kmem (lib s)) (page_table (procs s ! i)) \<and>
       (i \<noteq> c \<longrightarrow> unat a \<notin> user_bytes (kmem (lib s)) (page_table (procs s ! i)))) \<and>
    (\<forall>i < 8. in_use (procs s0) i \<longrightarrow> page_table (procs s ! i) = page_table (procs s0 ! i) \<and>
       translation (kmem (lib s)) (page_table (procs s0 ! i)) = translation (kmem (lib s0)) (page_table (procs s0 ! i)))"
proof -
  have inv: "rt_inv (ks, s)" by (rule rt_reaches_inv [OF assms(2,1)])
  note I = rt_invD [OF inv assms(3)]
  have R: "same_spaces s0 s" "\<forall>i < 8. in_use (procs s0) i \<longrightarrow> space_same s0 i s" using rt_reaches_same [OF assms(2,1)] by simp_all
  have own: "unat a \<in> user_bytes (kmem (lib s)) (root_of s c)" by (rule may_write_own [OF inv assms(3,4)])
  have "in_use (procs s0) c" using R(1) I(7,8) by (simp add: same_spaces_def)
  then have "unat a \<in> user_bytes (kmem (lib s0)) (root_of s0 c)" using own R(2) I(7) by (simp add: space_same_def)
  moreover have "space_apart s c" using I(3,7,8) by (simp add: spaces_ok_def)
  then have A: "user_bytes (kmem (lib s)) (root_of s c) \<inter> stacks s = {}"
    "\<And>i. i < 8 \<Longrightarrow> in_use (procs s) i \<Longrightarrow> user_bytes (kmem (lib s)) (root_of s c) \<inter> table_bytes (kmem (lib s)) (root_of s i) = {} \<and>
       (i \<noteq> c \<longrightarrow> user_bytes (kmem (lib s)) (root_of s c) \<inter> user_bytes (kmem (lib s)) (root_of s i) = {})"
    by (simp_all add: space_apart_def)
  moreover have "\<forall>i < 8. unat a \<notin> stack_region s i" using own A(1) by (auto simp: stacks_def)
  ultimately show ?thesis using own R(2) by (auto simp: space_same_def)
qed

theorem user_mode_confined_witness:
  "\<exists>s. rt_inv (small_conts, s) \<and> current_proc s = Some 1 \<and> in_use (procs s) 2 \<and>
     (\<forall>a. \<not> (user_may_write s a \<and> unat a \<in> user_bytes (kmem (lib s)) (page_table (procs s ! 2))))"
proof -
  obtain s F where S: "small_stage 3 s F" by (rule small_three)
  note I = small_start_ok [OF S, of SYS_GETC]
  have c: "current_proc (small_start SYS_GETC s) = Some 1" by (simp add: small_start_def)
  have u: "in_use (procs (small_start SYS_GETC s)) 2"
    using I(2) runnable_in_use [of 2 "procs (small_start SYS_GETC s)"] by (auto simp: two_ready_def)
  have "\<not> (user_may_write (small_start SYS_GETC s) a \<and>
      unat a \<in> user_bytes (kmem (lib (small_start SYS_GETC s))) (page_table (procs (small_start SYS_GETC s) ! 2)))" for a
    using user_mode_confined [OF I(1) rt_reaches.rt_here c, of a] u by (auto dest: spec [of _ 2])
  then show ?thesis using I(1) c u by blast
qed

text \<open>The memory of two processes, kernel stacks and user pages, is apart.\<close>

lemma own_memory_apart:
  assumes "spaces_ok s" "c < 8" "in_use (procs s) c" "j < 8" "in_use (procs s) j" "c \<noteq> j"
    and a: "a \<in> stack_region s j \<union> user_bytes (kmem (lib s)) (root_of s j)"
  shows "a \<notin> stack_region s c \<union> user_bytes (kmem (lib s)) (root_of s c)"
proof -
  have "space_apart s c" "space_apart s j" using assms(1-5) by (simp_all add: spaces_ok_def)
  then have U: "user_bytes (kmem (lib s)) (root_of s c) \<inter> stacks s = {}" "user_bytes (kmem (lib s)) (root_of s j) \<inter> stacks s = {}"
    "user_bytes (kmem (lib s)) (root_of s c) \<inter> user_bytes (kmem (lib s)) (root_of s j) = {}"
    using assms(4-6) by (simp_all add: space_apart_def)
  note S = stack_in_stacks [OF assms(2), of s] stack_in_stacks [OF assms(4), of s] stack_regions_disjoint [OF assms(6), of s]
  show ?thesis using a U S by (elim UnE) blast+
qed

text \<open>The memory of a process is as it was after any steps that are not its own.\<close>

lemma others_keep:
  assumes "others_run j x x'" "rt_inv x" "j < 8" "in_use (procs (snd x)) j"
  shows "rt_inv x' \<and> fst x' j = fst x j \<and> same_spaces (snd x) (snd x') \<and> space_same (snd x) j (snd x') \<and>
    (\<forall>a. unat a \<in> stack_region (snd x) j \<union> user_bytes (kmem (lib (snd x))) (root_of (snd x) j) \<longrightarrow>
       kmem (lib (snd x')) a = kmem (lib (snd x)) a)"
  using assms
proof (induction rule: others_run.induct)
  case (none_yet x)
  then show ?case by (cases x) (simp add: same_spaces_def space_same_def rt_inv_def spaces_ok_def space_apart_def)
next
  case (other x y z)
  then have IH: "rt_inv y" "fst y j = fst x j" "same_spaces (snd x) (snd y)" "space_same (snd x) j (snd y)"
    "\<forall>a. unat a \<in> stack_region (snd x) j \<union> user_bytes (kmem (lib (snd x))) (root_of (snd x) j) \<longrightarrow>
       kmem (lib (snd y)) a = kmem (lib (snd x)) a" by simp_all
  obtain ks s ks' s' where y: "y = (ks, s)" "z = (ks', s')" by (cases y, cases z)
  obtain c where c: "current_proc s = Some c" using rt_step_current other.hyps(3) y by blast
  have inv: "rt_inv (ks, s)" and cj: "c \<noteq> j" using IH(1) other.hyps(2) c y by simp_all
  note I = rt_invD [OF inv c]
  have Z: "rt_inv (ks', s')" "step_of c (ks, s) (ks', s')" using rt_step_ok [OF _ inv c] other.hyps(3) y by blast+
  have S: "writes_within s (stack_region s c \<union> user_bytes (kmem (lib s)) (root_of s c)) s'" "same_spaces s s'"
    "\<forall>i < 8. in_use (procs s) i \<longrightarrow> space_same s i s'" "ks' j = ks j" using Z(2) cj by (simp_all add: step_of_def)
  have use: "in_use (procs s) j" using IH(3) other.prems(2,3) y(1) by (simp add: same_spaces_def)
  have same: "stack_region s j = stack_region (snd x) j" "user_bytes (kmem (lib s)) (root_of s j) = user_bytes (kmem (lib (snd x))) (root_of (snd x) j)"
    using IH(3,4) y(1) by (simp_all add: stack_region_def same_spaces_def space_same_def)
  have "kmem (lib s') a = kmem (lib s) a" if "unat a \<in> stack_region s j \<union> user_bytes (kmem (lib s)) (root_of s j)" for a
    using own_memory_apart [OF I(3,7,8) other.prems(2) use cj that] S(1) by (simp add: writes_within_def)
  then show ?case
    using IH S Z(1) use same other.prems(2) y same_spaces_trans [of "snd x" s s'] space_same_trans [of "snd x" j s s'] by simp
qed

text \<open>A process that finds no key and loses the hart in \<open>SYS_GETC\<close>.\<close>

lemma getc_suspends:
  assumes "rt_inv (ks, s)" "current_proc s = Some c" "ks c = Running" "regs (hart s) A3 = SYS_GETC"
    and "kernel_trap polls (trap_entry cause tval s) = Inr (Suspended cs s1)"
  shows "rt_inv (ks(c := In_getc (pc (hart s)) (regs (hart s))), s1)" "same_spaces s s1" "space_same s c s1"
    "writes_within s (stack_region s c) s1" "in_use (procs s1) c"
proof -
  let ?ks = "ks(c := In_getc (pc (hart s)) (regs (hart s)))"
  note I = rt_invD [OF assms(1,2)]
  obtain s0 where s0: "trapped (trap_entry cause tval s) (stack_top s c - 248) s0" "yield s0 = Inr (Away s1)"
    using kernel_trap_suspended [OF assms(5)] I(4) assms(4) by (auto simp: trap_entry_def SYS_GETC_def SYS_EXIT_def)
  note Y = trapped_yielding [OF assms(1,2) s0(1)]
  have X: "rt_inv (?ks, s1) \<and> step_of c (ks, s) (?ks, s1)"
    using Y assms(3) by (intro switch_step_of [OF assms(1,2) _ Y(1) s0(2)]) auto
  then show "rt_inv (?ks, s1)" "same_spaces s s1" "space_same s c s1" using I(7,8) by (simp_all add: step_of_def)
  then show "in_use (procs s1) c" using I(7,8) by (simp add: same_spaces_def)
  show "writes_within s (stack_region s c) s1" by (rule switch_effect(2) [OF I(2,7) Y(1) s0(2)])
qed

text \<open>In the example, process 1 waits, process 2 has its turn, and process 1 is scheduled again.\<close>

lemma small_run:
  obtains s s1 ks2 s2 where "rt_inv (small_conts, s)" "current_proc s = Some 1" "regs (hart s) A3 = SYS_GETC"
    "kernel_trap [- 1] (trap_entry SCAUSE_ECALL 0 s) = Inr (Suspended [] s1)"
    "others_run 1 (small_conts(1 := In_getc (pc (hart s)) (regs (hart s))), s1) (ks2, s2)" "current_proc s2 = Some 1"
proof -
  obtain s0 F where S: "small_stage 3 s0 F" by (rule small_three)
  let ?s = "small_start SYS_GETC s0"
  note I = small_start_ok [OF S, of SYS_GETC]
  have c: "current_proc ?s = Some 1" and a: "regs (hart ?s) A3 = SYS_GETC" by (simp_all add: small_start_def reset_hart_def)
  obtain s1 where s1: "kernel_trap [- 1] (trap_entry SCAUSE_ECALL 0 ?s) = Inr (Suspended [] s1)" "current_proc s1 = Some (3 - 1)" "two_ready s1"
    by (rule getc_switches [OF I(1) c _ I(2) a]) simp_all
  note G = getc_suspends [OF I(1) c _ a s1(1)]
  obtain ks2 s2 where "others_run 1 (small_conts(1 := In_getc (pc (hart ?s)) (regs (hart ?s))), s1) (ks2, s2)" "current_proc s2 = Some 1"
    by (rule turn_of_second [OF G(1) _ _ s1(3)]) (use s1(2) in simp_all)
  then show thesis by (rule that [OF I(1) c a s1(1)])
qed

text \<open>
  (C7) While other processes run, in user mode and in the kernel, for any number of steps, a process that is in use keeps its address space, the
  contents of its user pages and of its kernel stack, and the point at which it goes on.
\<close>

theorem others_leave_process_alone:
  assumes "rt_inv (ks, s)" "others_run j (ks, s) (ks', s')" "j < 8" "in_use (procs s) j"
  shows "in_use (procs s') j \<and> ks' j = ks j \<and> page_table (procs s' ! j) = page_table (procs s ! j) \<and>
    translation (kmem (lib s')) (page_table (procs s ! j)) = translation (kmem (lib s)) (page_table (procs s ! j)) \<and>
    (\<forall>a. unat a \<in> stack_region s j \<union> user_bytes (kmem (lib s)) (page_table (procs s ! j)) \<longrightarrow> kmem (lib s') a = kmem (lib s) a)"
  using others_keep [OF assms(2)] assms(1,3,4) by (simp add: same_spaces_def space_same_def)

theorem others_leave_process_alone_witness:
  "\<exists>s s1 ks2 s2. rt_inv (small_conts, s) \<and> kernel_trap [- 1] (trap_entry SCAUSE_ECALL 0 s) = Inr (Suspended [] s1) \<and>
     others_run 1 (small_conts(1 := In_getc (pc (hart s)) (regs (hart s))), s1) (ks2, s2) \<and> current_proc s2 = Some 1 \<and>
     ks2 1 = In_getc (pc (hart s)) (regs (hart s)) \<and> page_table (procs s2 ! 1) = page_table (procs s1 ! 1)"
proof -
  obtain s s1 ks2 s2 where R: "rt_inv (small_conts, s)" "current_proc s = Some 1" "regs (hart s) A3 = SYS_GETC"
    "kernel_trap [- 1] (trap_entry SCAUSE_ECALL 0 s) = Inr (Suspended [] s1)"
    "others_run 1 (small_conts(1 := In_getc (pc (hart s)) (regs (hart s))), s1) (ks2, s2)" "current_proc s2 = Some 1"
    by (rule small_run)
  note G = getc_suspends [OF R(1,2) _ R(3,4)]
  have "ks2 1 = In_getc (pc (hart s)) (regs (hart s)) \<and> page_table (procs s2 ! 1) = page_table (procs s1 ! 1)"
    using others_leave_process_alone [OF G(1) R(5) _ G(5)] by simp
  then show ?thesis using R by blast
qed

section \<open>A call that waits while others run\<close>

lemma getc_loop_key: "0 \<le> sint key \<Longrightarrow> resume_getc at (key # cs) f s = Inr (Done cs
    (trap_restore f ((frame_set f A0 key s)\<lparr>hart := (hart s)\<lparr>sepc := at + 4\<rparr>\<rparr>)))"
  by (simp add: resume_getc_def finish_trap_def trap_return_def frame_set_def)

text \<open>
  (C6) \<open>SYS_GETC\<close> while others run. A process that loses the hart in the call, to others that then take any number of steps, is scheduled again: with the next key
  the call returns behind its \<open>ecall\<close>, with the key in \<open>a0\<close>, every other register as the process had it, and its address space
  and the contents of its user pages unchanged since the trap.
\<close>

theorem getc_survives_others:
  assumes "rt_inv (ks, s)" "current_proc s = Some c" "ks c = Running" "regs (hart s) A3 = SYS_GETC"
    and "kernel_trap polls (trap_entry cause tval s) = Inr (Suspended cs s1)"
    and "others_run c (ks(c := In_getc (pc (hart s)) (regs (hart s))), s1) (ks2, s2)" "current_proc s2 = Some c" "0 \<le> sint key"
  shows "ks2 c = In_getc (pc (hart s)) (regs (hart s)) \<and>
    (\<exists>s3. resume_getc (pc (hart s)) (key # cs2) (regs (hart s2) SP) s2 = Inr (Done cs2 s3) \<and>
    regs (hart s3) = (regs (hart s))(A0 := key) \<and> pc (hart s3) = pc (hart s) + 4 \<and>
    satp (hart s3) = satp (hart s) \<and> sscratch (hart s3) = sscratch (hart s) \<and>
    translation (kmem (lib s3)) (page_table (procs s ! c)) = translation (kmem (lib s)) (page_table (procs s ! c)) \<and>
    (\<forall>a. unat a \<in> user_bytes (kmem (lib s)) (page_table (procs s ! c)) \<longrightarrow> kmem (lib s3) a = kmem (lib s) a))"
proof -
  let ?ks = "ks(c := In_getc (pc (hart s)) (regs (hart s)))"
  note I = rt_invD [OF assms(1,2)] and A = getc_suspends [OF assms(1-5)]
  have K: "rt_inv (ks2, s2)" "ks2 c = ?ks c" "same_spaces s1 s2" "space_same s1 c s2"
    "\<forall>a. unat a \<in> stack_region s1 c \<union> user_bytes (kmem (lib s1)) (root_of s1 c) \<longrightarrow> kmem (lib s2) a = kmem (lib s1) a"
    using others_keep [OF assms(6)] A(1,5) I(7) by simp_all
  have B: "same_spaces s s2" "space_same s c s2" using same_spaces_trans [OF A(2) K(3)] space_same_trans [OF A(3) K(4) A(2)] by simp_all
  note I2 = rt_invD [OF K(1) assms(7)]
  have top: "stack_top s2 c = stack_top s c" using B(1) by (simp add: stack_top_def same_spaces_def)
  have G: "trap_frame (kmem (lib s2)) (stack_top s c - 248) (regs (hart s))" "regs (hart s2) SP = stack_top s c - 248"
    using I2(6) [OF I2(7,8)] assms(7) K(2) top by (simp_all add: cont_ok_def)
  obtain s3 where s3: "resume_getc (pc (hart s)) (key # cs2) (regs (hart s2) SP) s2 = Inr (Done cs2 s3)"
    "s3 = trap_restore (stack_top s c - 248) ((frame_set (stack_top s c - 248) A0 key s2)\<lparr>hart := (hart s2)\<lparr>sepc := pc (hart s) + 4\<rparr>\<rparr>)"
    using getc_loop_key [OF assms(8)] G(2) by simp
  note R = resume_done [OF s3(1) [unfolded G(2)] G(1)]
  have "trap_frame (kmem (lib ((frame_set (stack_top s c - 248) A0 key s2)\<lparr>hart := (hart s2)\<lparr>sepc := pc (hart s) + 4\<rparr>\<rparr>))) (stack_top s c - 248)
      ((regs (hart s))(A0 := key))" using frame_set_frame [OF G(1)] by simp
  from trap_restore_frame(1) [OF this, folded s3(2)] have regs3: "regs (hart s3) = (regs (hart s))(A0 := key)" .
  have "rt_step (ks2, s2) (ks2(c := Running), s3)" using rt_step.return assms(7) K(2) s3(1) by simp
  then have "step_of c (ks2, s2) (ks2(c := Running), s3)" using rt_step_ok K(1) assms(7) by blast
  then have C: "space_same s2 c s3" using I2(7,8) by (simp add: step_of_def)
  have "root_of s2 c = root_of s c" "translation (kmem (lib s3)) (root_of s c) = translation (kmem (lib s)) (root_of s c)"
    using space_same_trans [OF B(2) C B(1)] B(2) by (simp_all add: space_same_def)
  moreover have "sscratch (hart s3) = sscratch (hart s)" "satp (hart s3) = satp (hart s)"
    using R(1) I2(4,5) I(4,5) top calculation(1) by (simp_all add: trap_effect_def)
  moreover have "kmem (lib s3) a = kmem (lib s) a" if a: "unat a \<in> user_bytes (kmem (lib s)) (root_of s c)" for a
  proof -
    have sp: "space_apart s c" using I(3,7,8) by (simp add: spaces_ok_def)
    then have out: "unat a \<notin> stack_region s c" using a stack_in_stacks [OF I(7), of s] unfolding space_apart_def by blast
    have "kmem (lib s1) a = kmem (lib s) a" using A(4) out by (simp add: writes_within_def)
    moreover have "kmem (lib s2) a = kmem (lib s1) a" using K(5) A(2,3) a by (simp add: space_same_def)
    moreover have "a \<notin> span (stack_top s c - 248) 248" using stack_frames(1) [OF I(2,7)] out by blast
    then have "kmem (lib s3) a = kmem (lib s2) a" using R(2) by (simp add: frame_only_def)
    ultimately show ?thesis by simp
  qed
  ultimately show ?thesis using s3(1) regs3 R(3) K(2) by auto
qed

theorem getc_survives_others_witness:
  "\<exists>s s1 ks2 s2 s3. rt_inv (small_conts, s) \<and> kernel_trap [- 1] (trap_entry SCAUSE_ECALL 0 s) = Inr (Suspended [] s1) \<and>
     others_run 1 (small_conts(1 := In_getc (pc (hart s)) (regs (hart s))), s1) (ks2, s2) \<and>
     resume_getc (pc (hart s)) [0x61] (regs (hart s2) SP) s2 = Inr (Done [] s3) \<and>
     regs (hart s3) A0 = 0x61 \<and> pc (hart s3) = pc (hart s) + 4"
proof -
  obtain s s1 ks2 s2 where R: "rt_inv (small_conts, s)" "current_proc s = Some 1" "regs (hart s) A3 = SYS_GETC"
    "kernel_trap [- 1] (trap_entry SCAUSE_ECALL 0 s) = Inr (Suspended [] s1)"
    "others_run 1 (small_conts(1 := In_getc (pc (hart s)) (regs (hart s))), s1) (ks2, s2)" "current_proc s2 = Some 1"
    by (rule small_run)
  show ?thesis using getc_survives_others [OF R(1,2) _ R(3-6), of "0x61" "[]"] R by fastforce
qed

end
