(* ===== verification/Runtime_Progress.thy ===== *)
theory Runtime_Progress
  imports Runtime_Example Syscall_Props
begin

text \<open>
  The running kernel does not get stuck. A second invariant says which processes have come to an end, so that the one that has the hart is alive or
  is the idle process; with it every state that the kernel reaches has a next step, whatever the user code has done.
\<close>

section \<open>The processes that have ended\<close>

definition live_inv :: "(nat \<Rightarrow> cont) \<times> ksys \<Rightarrow> bool" where
  "live_inv x \<longleftrightarrow> (case x of (ks, s) \<Rightarrow>
     (\<forall>j < 8. in_use (procs s) j \<longrightarrow> (ks j = Halted \<longleftrightarrow> idle_proc s = Some j \<or> state (procs s ! j) = PROC_EXITED)) \<and>
     (\<forall>c. current_proc s = Some c \<longrightarrow> (if idle_proc s = Some c then \<forall>j < 8. \<not> runnable (procs s) j else state (procs s ! c) = PROC_RUNNABLE)))"

text \<open>Steps after which the table and the current process are the same, and steps that switch.\<close>

lemma live_stay:
  assumes "live_inv (ks, s)" "trap_effect s s'" "ks c \<noteq> Halted" "k \<noteq> Halted"
  shows "live_inv (ks(c := k), s')"
  using assms by (auto simp: live_inv_def trap_effect_def same_table_def)

lemma yield_picks:
  assumes "sched_inv s" "yield s = Inr (Away s')"
  shows "idle_proc s' = idle_proc s" "state (procs s' ! j) = state (procs s ! j)" "in_use (procs s') j = in_use (procs s) j"
    "runnable (procs s') j = runnable (procs s) j"
    "current_proc s' = Some n \<Longrightarrow> if idle_proc s = Some n then \<forall>j < 8. \<not> runnable (procs s) j else state (procs s ! n) = PROC_RUNNABLE"
proof -
  obtain cur idle m where Y: "current_proc s = Some cur" "idle_proc s = Some idle" "m = next_slot (procs s) idle cur"
    "s' = switch_context cur m (s\<lparr>current_proc := Some m, hart := (hart s)\<lparr>sscratch := stack_top s m, satp := new_satp (root_of s m)\<rparr>\<rparr>)"
    by (rule yield_away [OF assms(2)])
  have T: "table_ok idle (procs s)" "in_use (procs s) cur" "cur < length (procs s)"
    using assms(1) Y(1,2) by (auto simp: sched_inv_def table_ok_def in_use_def)
  have st: "state (procs s' ! j) = state (procs s ! j)" "pid (procs s' ! j) = pid (procs s ! j)" for j
    using switch_context_slot [of cur "s\<lparr>current_proc := Some m, hart := (hart s)\<lparr>sscratch := stack_top s m, satp := new_satp (root_of s m)\<rparr>\<rparr>" m j] T(3)
    by (simp_all add: Y(4))
  show "state (procs s' ! j) = state (procs s ! j)" "in_use (procs s') j = in_use (procs s) j" "runnable (procs s') j = runnable (procs s) j"
    by (simp_all add: in_use_def runnable_def st)
  show "idle_proc s' = idle_proc s" by (simp add: Y(4))
  have "\<not> runnable (procs s) idle" using T(1) by (simp add: table_ok_def runnable_def)
  then have "if m = idle then \<forall>j < 8. \<not> runnable (procs s) j else state (procs s ! m) = PROC_RUNNABLE"
    using next_slot_first [OF T(1,2)] unfolding Y(3) by (auto simp: runnable_def)
  then show "current_proc s' = Some n \<Longrightarrow> if idle_proc s = Some n then \<forall>j < 8. \<not> runnable (procs s) j else state (procs s ! n) = PROC_RUNNABLE"
    using Y(2) by (auto simp: Y(4) split: if_splits)
qed

lemma live_switch:
  assumes "live_inv (ks, s)" "trap_effect s s1" "sched_inv s1" "yield s1 = Inr (Away s')" "ks c \<noteq> Halted" "k \<noteq> Halted"
  shows "live_inv (ks(c := k), s')"
  using assms yield_picks [OF assms(3,4)] by (auto simp: live_inv_def trap_effect_def same_table_def split: if_splits)

lemma live_leave:
  assumes "live_inv (ks, s)" "trap_effect s s1" "sched_inv s1" "current_proc s = Some c" "idle_proc s \<noteq> Some c"
    and "yield (mark_exited con s1) = Inr (Away s')"
  shows "live_inv (ks(c := Halted), s')"
proof -
  have E: "procs s1 = procs s" "idle_proc s1 = idle_proc s" "current_proc s1 = Some c" using assms(2,4) by (simp_all add: trap_effect_def same_table_def)
  have ne: "current_proc s1 \<noteq> idle_proc s1" using E assms(5) by simp
  note Y = yield_picks [OF mark_exited_table(2) [OF assms(3) ne, of con] assms(6)]
  have c: "c < length (procs s)" using assms(3) E by (auto elim!: sched_inv_current)
  have st: "state (procs (mark_exited con s1) ! j) = (if j = c then PROC_EXITED else state (procs s ! j))" for j
    using c E by (simp add: mark_exited_def)
  have "in_use (procs (mark_exited con s1)) j = in_use (procs s) j" for j
    using in_use_current [OF assms(3) E(3)] E(1) by (auto simp: in_use_def st PROC_EXITED_def PROC_UNUSED_def)
  moreover have "idle_proc (mark_exited con s1) = idle_proc s" by (simp add: mark_exited_def E)
  ultimately show ?thesis using Y assms(1) by (auto simp: live_inv_def st split: if_splits)
qed

lemma trapped_effect: "trapped (trap_entry cause tval s) f s1 \<Longrightarrow> trap_effect s s1"
  by (simp add: trapped_def trap_effect_def same_table_def trap_entry_def)

lemma live_step:
  assumes "rt_step (ks, s) x'" "rt_inv (ks, s)" "live_inv (ks, s)"
  shows "live_inv x'"
  using assms(1)
proof cases
  {
    case (user_code c s')
    moreover have "trap_effect s s'" using user_code(4) by (auto simp: user_run_def trap_effect_def same_table_def)
    ultimately show ?thesis using live_stay [OF assms(3), of s' c Running] by (metis cont.distinct(9) fun_upd_triv)
  next
    case (call c polls cause tval cs s')
    have "trap_effect s s'" using kernel_trap_done_effect(1) [OF call(4)] by (simp add: trap_effect_def same_table_def trap_entry_def)
    then show ?thesis using call(1,3) live_stay [OF assms(3), of s' c Running] by (metis cont.distinct(9) fun_upd_triv)
  next
    case (wait c polls cause tval cs s')
    note I = rt_invD [OF assms(2) wait(2)]
    obtain s1 where s1: "trapped (trap_entry cause tval s) (stack_top s c - 248) s1" "yield s1 = Inr (Away s')"
      using kernel_trap_suspended [OF wait(5)] I(4) wait(4) by (auto simp: trap_entry_def SYS_GETC_def SYS_EXIT_def)
    have "sched_inv s1" using trapped_yielding(1) [OF assms(2) wait(2) s1(1)] by (simp add: yielding_def)
    then show ?thesis unfolding wait(1) using wait(3) by (intro live_switch [OF assms(3) trapped_effect [OF s1(1)] _ s1(2)]) simp_all
  next
    case (leave c polls cause tval cs s')
    note I = rt_invD [OF assms(2) leave(2)]
    obtain s1 where s1: "trapped (trap_entry cause tval s) (stack_top s c - 248) s1" "proc_exit s1 = Inr (Away s')"
      using kernel_trap_suspended [OF leave(5)] I(4) leave(4) by (auto simp: trap_entry_def SYS_GETC_def SYS_EXIT_def)
    obtain con where con: "yield (mark_exited con s1) = Inr (Away s')" using proc_exit_yields [OF s1(2)] by blast
    have "sched_inv s1" using trapped_yielding(1) [OF assms(2) leave(2) s1(1)] by (simp add: yielding_def)
    moreover have "idle_proc s \<noteq> Some c" using I(9) [of c] leave(3) by auto
    ultimately show ?thesis unfolding leave(1) using leave(2) by (intro live_leave [OF assms(3) trapped_effect [OF s1(1)] _ _ _ con])
  next
    case (enter c)
    have "trap_effect s (s\<lparr>hart := user_entry (hart s)\<rparr>)" by (simp add: trap_effect_def same_table_def user_entry_def)
    then show ?thesis unfolding enter(1) using enter(3) by (intro live_stay [OF assms(3)]) simp_all
  next
    case (return c at r polls cs s')
    note I = rt_invD [OF assms(2) return(2)]
    have G: "trap_frame (kmem (lib s)) (stack_top s c - 248) r" "regs (hart s) SP = stack_top s c - 248"
      using I(6) [OF I(7,8)] return(2,3) by (simp_all add: cont_ok_def)
    show ?thesis
      unfolding return(1) using return(3) resume_done(1) [OF return(4) [unfolded G(2)] G(1)] by (intro live_stay [OF assms(3)]) simp_all
  next
    case (wait_on c at r polls cs s')
    have "trap_effect s s" by (simp add: trap_effect_def same_table_def)
    then have "live_inv (ks(c := In_getc at r), s')"
      using wait_on(3) by (intro live_switch [OF assms(3) _ rt_invD(1) [OF assms(2) wait_on(2)] resume_suspended [OF wait_on(4)]]) simp_all
    moreover have "ks(c := In_getc at r) = ks" using wait_on(3) by auto
    ultimately show ?thesis using wait_on(1) by simp
  }
qed

lemma live_reaches: "rt_reaches x x' \<Longrightarrow> rt_inv x \<Longrightarrow> live_inv x \<Longrightarrow> rt_inv x' \<and> live_inv x'"
proof (induction rule: rt_reaches.induct)
  case (rt_more x y z)
  then show ?case using live_step rt_step_inv by (metis surj_pair)
qed simp

section \<open>Progress\<close>

text \<open>The state in which an outcome of the handler leaves the machine; a call that still polls leaves none.\<close>

definition next_state :: "sysret \<Rightarrow> ksys option" where
  "next_state r = (case r of Done _ s \<Rightarrow> Some s | Suspended _ s \<Rightarrow> Some s | Polling _ \<Rightarrow> None)"

abbreviation syscalls :: "u64 set" where
  "syscalls \<equiv> {SYS_OPEN, SYS_CLOSE, SYS_READ, SYS_EXIT, SYS_PUTC, SYS_GETC}"

lemma getc_loop_ends:
  assumes "sched_inv s"
  shows "\<exists>r. getc_loop polls f s = Inr r \<and> ((\<exists>p \<in> set polls. 0 \<le> sint p) \<longrightarrow> next_state r \<noteq> None)"
proof (induction polls)
  case (Cons c polls)
  obtain y where y: "yield s = Inr y" using yield_runs [OF assms] by blast
  then show ?case using Cons yield_back [of s] by (cases y) (auto simp: next_state_def)
qed simp

lemma finish_state:
  "(next_state (trap_return f (finish_trap p r)) = None) = (next_state r = None)"
  by (cases r) (simp_all add: next_state_def trap_return_def finish_trap_def)

lemma resume_runs:
  assumes "sched_inv s"
  shows "\<exists>r. resume_getc at polls f s = Inr r \<and> ((\<exists>p \<in> set polls. 0 \<le> sint p) \<longrightarrow> next_state r \<noteq> None)"
  using getc_loop_ends [OF assms, of polls f] finish_state [of f "at + 4"] by (auto simp: resume_getc_def simp del: not_None_eq)

lemma trap_runs:
  assumes inv: "sched_inv s" "current_proc s \<noteq> idle_proc s" and call: "regs (hart s) A3 \<in> syscalls"
  shows "\<exists>r. kernel_trap polls (trap_entry SCAUSE_ECALL tval s) = Inr r \<and> ((\<exists>p \<in> set polls. 0 \<le> sint p) \<longrightarrow> next_state r \<noteq> None)"
proof -
  let ?e = "trap_entry SCAUSE_ECALL tval s"
  obtain f s0 where f: "trap_save ?e = (f, s0)" by (cases "trap_save ?e")
  note S = trap_save_frame [OF f]
  have "trap_effect s s0" using trap_save_trapped(2) [OF f] by (rule trapped_effect)
  then have T: "same_table s s0" by (simp add: trap_effect_def)
  then have inv0: "sched_inv s0" "current_proc s0 \<noteq> idle_proc s0" using inv same_table_inv(1) [OF T] by (simp_all add: same_table_def)
  have n: "frame_get s0 f A3 \<in> syscalls" using call frame_get_frame [OF S(2)] by (simp add: trap_entry_def)
  obtain root where t: "current_table s0 = Inr root" using inv0(1) by (auto simp: sched_inv_def current_table_def)
  obtain s' where e: "proc_exit s0 = Inr (Away s')" using proc_exit_leaves [OF inv0] by blast
  have "\<exists>r. syscall_entry polls f s0 = Inr r \<and> ((\<exists>p \<in> set polls. 0 \<le> sint p) \<longrightarrow> next_state r \<noteq> None)"
    using n getc_loop_ends [OF inv0(1), of polls f] by (auto simp: syscall_entry_def Let_def t e next_state_def)
  moreover have "scause (hart s0) = SCAUSE_ECALL" by (subst S(6)) (simp add: trap_entry_def)
  ultimately show ?thesis using f finish_state by (auto simp: kernel_trap_def handle_trap_def Let_def simp del: not_None_eq)
qed

text \<open>An outcome of the handler, or of a call that goes on, is a step of the machine.\<close>

lemma trap_is_step:
  assumes "rt_inv (ks, s)" "current_proc s = Some c" "ks c = Running" "kernel_trap polls (trap_entry cause tval s) = Inr r" "next_state r = Some s'"
  shows "\<exists>ks'. rt_step (ks, s) (ks', s')"
proof (cases r)
  case (Done cs t)
  then have "kernel_trap polls (trap_entry cause tval s) = Inr (Done cs s')" using assms(4,5) by (simp add: next_state_def)
  then show ?thesis using rt_step.call [where ks = ks, OF assms(2,3)] by blast
next
  case (Suspended cs t)
  then have t: "kernel_trap polls (trap_entry cause tval s) = Inr (Suspended cs s')" using assms(4,5) by (simp add: next_state_def)
  then have "regs (hart s) A3 = SYS_GETC \<or> regs (hart s) A3 = SYS_EXIT" using kernel_trap_suspended [OF t] by (auto simp: trap_entry_def)
  then show ?thesis using rt_step.wait [where ks = ks, OF assms(2,3) _ t] rt_step.leave [where ks = ks, OF assms(2,3) _ t] by blast
qed (use assms(5) in \<open>simp add: next_state_def\<close>)

lemma resume_is_step:
  assumes "current_proc s = Some c" "ks c = In_getc at r" "resume_getc at polls (regs (hart s) SP) s = Inr x" "next_state x = Some s'"
  shows "\<exists>ks'. rt_step (ks, s) (ks', s')"
  using assms(3,4) rt_step.return [where ks = ks, OF assms(1,2)] rt_step.wait_on [where ks = ks, OF assms(1,2)]
  by (cases x) (simp_all add: next_state_def, blast+)

text \<open>
  (C4) The running kernel is sound: the two invariants are kept (preservation), and no state reached from one where they hold is stuck (progress). In each of them a
  process has the hart. If it has ended, it is the idle process and nothing else can run. If it is fresh, the hart is at its entry point. If
  it is in user mode, each of the six system calls runs to an outcome, and if it waits for a key, so does the call; an outcome other than
  that it still polls, impossible once a key is there, is a step of the machine.
\<close>

theorem running_kernel_sound:
  assumes "rt_inv x" "live_inv x" "rt_reaches x (ks, s)"
  shows "rt_inv (ks, s) \<and> live_inv (ks, s) \<and> (\<exists>c. current_proc s = Some c \<and> (case ks c of
      Halted \<Rightarrow> idle_proc s = Some c \<and> (\<forall>j < 8. \<not> runnable (procs s) j)
    | Fresh \<Rightarrow> pc (hart s) = user_entry_pc s \<and> rt_step (ks, s) (ks(c := Running), s\<lparr>hart := user_entry (hart s)\<rparr>)
    | Running \<Rightarrow> \<forall>polls tval. regs (hart s) A3 \<in> {SYS_OPEN, SYS_CLOSE, SYS_READ, SYS_EXIT, SYS_PUTC, SYS_GETC} \<longrightarrow>
        (\<exists>r. kernel_trap polls (trap_entry SCAUSE_ECALL tval s) = Inr r \<and> ((\<exists>p \<in> set polls. 0 \<le> sint p) \<longrightarrow> next_state r \<noteq> None) \<and>
          (\<forall>s'. next_state r = Some s' \<longrightarrow> (\<exists>ks'. rt_step (ks, s) (ks', s'))))
    | In_getc at regs0 \<Rightarrow> \<forall>polls.
        \<exists>r. resume_getc at polls (regs (hart s) SP) s = Inr r \<and> ((\<exists>p \<in> set polls. 0 \<le> sint p) \<longrightarrow> next_state r \<noteq> None) \<and>
          (\<forall>s'. next_state r = Some s' \<longrightarrow> (\<exists>ks'. rt_step (ks, s) (ks', s')))))"
proof -
  have inv: "rt_inv (ks, s)" "live_inv (ks, s)" using live_reaches [OF assms(3,1,2)] by simp_all
  obtain c where c: "current_proc s = Some c" using inv(1) by (auto simp: rt_inv_def elim: sched_inv_current)
  note I = rt_invD [OF inv(1) c]
  have L: "ks c = Halted \<longleftrightarrow> idle_proc s = Some c \<or> state (procs s ! c) = PROC_EXITED"
    "if idle_proc s = Some c then \<forall>j < 8. \<not> runnable (procs s) j else state (procs s ! c) = PROC_RUNNABLE"
    using inv(2) I(7,8) c by (simp_all add: live_inv_def)
  have "case ks c of
      Halted \<Rightarrow> idle_proc s = Some c \<and> (\<forall>j < 8. \<not> runnable (procs s) j)
    | Fresh \<Rightarrow> pc (hart s) = user_entry_pc s \<and> rt_step (ks, s) (ks(c := Running), s\<lparr>hart := user_entry (hart s)\<rparr>)
    | Running \<Rightarrow> \<forall>polls tval. regs (hart s) A3 \<in> syscalls \<longrightarrow>
        (\<exists>r. kernel_trap polls (trap_entry SCAUSE_ECALL tval s) = Inr r \<and> ((\<exists>p \<in> set polls. 0 \<le> sint p) \<longrightarrow> next_state r \<noteq> None) \<and>
          (\<forall>s'. next_state r = Some s' \<longrightarrow> (\<exists>ks'. rt_step (ks, s) (ks', s'))))
    | In_getc at regs0 \<Rightarrow> \<forall>polls.
        \<exists>r. resume_getc at polls (regs (hart s) SP) s = Inr r \<and> ((\<exists>p \<in> set polls. 0 \<le> sint p) \<longrightarrow> next_state r \<noteq> None) \<and>
          (\<forall>s'. next_state r = Some s' \<longrightarrow> (\<exists>ks'. rt_step (ks, s) (ks', s')))"
  proof (cases "ks c")
    case Fresh
    then have "pc (hart s) = user_entry_pc s" using I(6) [OF I(7,8)] c by (simp add: cont_ok_def)
    then show ?thesis using Fresh rt_step.enter [where ks = ks, OF c] by simp
  next
    case Running
    then have alive: "current_proc s \<noteq> idle_proc s" using L(1) c by auto
    have "\<exists>r. kernel_trap polls (trap_entry SCAUSE_ECALL tval s) = Inr r \<and> ((\<exists>p \<in> set polls. 0 \<le> sint p) \<longrightarrow> next_state r \<noteq> None) \<and>
          (\<forall>s'. next_state r = Some s' \<longrightarrow> (\<exists>ks'. rt_step (ks, s) (ks', s')))" if "regs (hart s) A3 \<in> syscalls" for polls tval
      using trap_runs [OF I(1) alive that, of polls tval] trap_is_step [where ks = ks, OF inv(1) c Running] by blast
    then show ?thesis unfolding Running cont.case by blast
  next
    case (In_getc at r)
    have "\<exists>r. resume_getc at polls (regs (hart s) SP) s = Inr r \<and> ((\<exists>p \<in> set polls. 0 \<le> sint p) \<longrightarrow> next_state r \<noteq> None) \<and>
          (\<forall>s'. next_state r = Some s' \<longrightarrow> (\<exists>ks'. rt_step (ks, s) (ks', s')))" for polls
      using resume_runs [OF I(1), of at polls "regs (hart s) SP"] resume_is_step [where ks = ks, OF c In_getc] by blast
    then show ?thesis unfolding In_getc cont.case by blast
  next
    case Halted
    then show ?thesis using L by (auto simp: PROC_RUNNABLE_def PROC_EXITED_def split: if_splits)
  qed
  then show ?thesis using inv c by blast
qed

lemma small_live: "small_stage 3 s F \<Longrightarrow> live_inv (small_conts, small_start a s)"
proof -
  assume S: "small_stage 3 s F"
  have "(small_conts j = Halted) = (idle_proc (small_start a s) = Some j \<or> state (procs (small_start a s) ! j) = PROC_EXITED)"
    if "j < 8" "in_use (procs (small_start a s)) j" for j
  proof (cases "j < 3")
    case True
    then have "state (procs s ! j) = PROC_RUNNABLE" "j < length (procs s)"
      using S that(1) by (simp_all add: small_stage_def layout_ok_def PROCS_MAX_def)
    then show ?thesis by (cases "j = 0") (auto simp: small_start_def PROC_RUNNABLE_def PROC_EXITED_def)
  next
    case False
    then have "procs s ! j = no_process" using S that(1) by (auto simp: small_stage_def)
    then show ?thesis using that(2) False by (simp add: small_start_def in_use_def no_process_def)
  qed
  moreover have "state (procs s ! 1) = PROC_RUNNABLE" using S by (simp add: small_stage_def)
  ultimately show ?thesis by (simp add: live_inv_def small_start_def)
qed

theorem running_kernel_sound_witness:
  "\<exists>s. rt_inv (small_conts, s) \<and> live_inv (small_conts, s) \<and>
     (\<exists>r. kernel_trap [- 1, 0x61] (trap_entry SCAUSE_ECALL 0 s) = Inr r \<and> next_state r \<noteq> None)"
proof -
  obtain s0 F where S: "small_stage 3 s0 F" by (rule small_three)
  let ?s = "small_start SYS_GETC s0"
  have c: "current_proc ?s = Some 1" and a: "regs (hart ?s) A3 = SYS_GETC" by (simp_all add: small_start_def reset_hart_def)
  note T = running_kernel_sound [OF small_start_ok(1) [OF S] small_live [OF S] rt_reaches.rt_here, of SYS_GETC]
  then have "\<exists>r. kernel_trap [- 1, 0x61] (trap_entry SCAUSE_ECALL 0 ?s) = Inr r \<and> next_state r \<noteq> None"
    using c a by fastforce
  with T show ?thesis by blast
qed

end
