(* ===== verification/Layout.thy ===== *)
theory Layout
  imports Prelude
begin

text \<open>
  The layout of C structures in memory, by the rules of the RISC-V LP64 ABI: a member lies at the next multiple of its
  alignment, or at the next byte in a packed structure, and the size is rounded up to the alignment. A structure is a
  value of type \<open>ctype\<close> with its members in the order of their declaration; size, alignment and offsets are computed from it.
  The scalars of a structure are stored and loaded one after the other, and that they do not overlap is shown once, for every type.
\<close>

section \<open>Types\<close>

datatype kind = Plain | Packed | Union

text \<open>
  \<open>Member f al t ms\<close> is a member \<open>f\<close> of type \<open>t\<close> with the attribute \<open>aligned(al)\<close> (1 when there is none), before \<open>ms\<close>;
  \<open>Struct k al ms\<close> has the attribute \<open>aligned(al)\<close>. The members of a union all lie at 0.
\<close>

datatype ctype =
    Scalar nat
  | Array nat ctype
  | Struct kind nat members
and members =
    End
  | Member string nat ctype members

abbreviation uint8_t :: ctype where "uint8_t \<equiv> Scalar 1"
abbreviation uint16_t :: ctype where "uint16_t \<equiv> Scalar 2"
abbreviation uint32_t :: ctype where "uint32_t \<equiv> Scalar 4"
abbreviation uint64_t :: ctype where "uint64_t \<equiv> Scalar 8"
abbreviation pointer :: ctype where "pointer \<equiv> Scalar 8"

definition members_of :: "(string \<times> ctype) list \<Rightarrow> members" where
  "members_of fs = foldr (\<lambda>(f, t). Member f 1 t) fs End"

lemma members_of_simps [simp]:
  "members_of [] = End" "members_of ((f, t) # fs) = Member f 1 t (members_of fs)"
  by (simp_all add: members_of_def)

definition round_up :: "nat \<Rightarrow> nat \<Rightarrow> nat" where
  "round_up n k = (n + k - 1) div k * k"

primrec calign :: "ctype \<Rightarrow> nat" and caligns :: "members \<Rightarrow> kind \<Rightarrow> nat" where
  "calign (Scalar n) = n"
| "calign (Array n t) = calign t"
| "calign (Struct k al ms) = max al (caligns ms k)"
| "caligns End k = 1"
| "caligns (Member f al t ms) k = max (max al (if k = Packed then 1 else calign t)) (caligns ms k)"

text \<open>Where a member lies when those before it end at \<open>pos\<close>.\<close>

definition member_start :: "kind \<Rightarrow> nat \<Rightarrow> nat \<Rightarrow> ctype \<Rightarrow> nat" where
  "member_start k pos al t = (if k = Union then 0 else round_up pos (max al (if k = Packed then 1 else calign t)))"

primrec csize :: "ctype \<Rightarrow> nat" and cend :: "members \<Rightarrow> kind \<Rightarrow> nat \<Rightarrow> nat" where
  "csize (Scalar n) = n"
| "csize (Array n t) = n * csize t"
| "csize (Struct k al ms) = round_up (cend ms k 0) (max al (caligns ms k))"
| "cend End k pos = pos"
| "cend (Member f al t ms) k pos = cend ms k (max pos (member_start k pos al t + csize t))"

text \<open>The offset and the type of a member, and of what a path of members and indices leads to.\<close>

primrec member_at :: "members \<Rightarrow> kind \<Rightarrow> nat \<Rightarrow> string \<Rightarrow> (nat \<times> ctype) option" where
  "member_at End k pos g = None"
| "member_at (Member f al t ms) k pos g =
     (let x = member_start k pos al t in if f = g then Some (x, t) else member_at ms k (max pos (x + csize t)) g)"

datatype step = Dot string | At nat

fun offset_of :: "ctype \<Rightarrow> step list \<Rightarrow> (nat \<times> ctype) option" where
  "offset_of t [] = Some (0, t)"
| "offset_of (Struct k al ms) (Dot f # ps) =
     (case member_at ms k 0 f of None \<Rightarrow> None
      | Some (x, t) \<Rightarrow> (case offset_of t ps of None \<Rightarrow> None | Some (y, u) \<Rightarrow> Some (x + y, u)))"
| "offset_of (Array n t) (At i # ps) =
     (if i < n then (case offset_of t ps of None \<Rightarrow> None | Some (y, u) \<Rightarrow> Some (i * csize t + y, u)) else None)"
| "offset_of t (p # ps) = None"

text \<open>\<open>field_at t ps a x n\<close>: in a structure of type \<open>t\<close> at \<open>a\<close> the path leads to a field of \<open>n\<close> bytes at \<open>x\<close>.\<close>

definition field_at :: "ctype \<Rightarrow> step list \<Rightarrow> u64 \<Rightarrow> u64 \<Rightarrow> nat \<Rightarrow> bool" where
  "field_at t ps a x n = (case offset_of t ps of None \<Rightarrow> False | Some (y, u) \<Rightarrow> x = a + of_nat y \<and> n = csize u)"

section \<open>Scalars\<close>

text \<open>The scalars of a type, each with its offset and its size; those of a union are those of its first member.\<close>

primrec scalars :: "ctype \<Rightarrow> (nat \<times> nat) list" and mscalars :: "members \<Rightarrow> kind \<Rightarrow> nat \<Rightarrow> (nat \<times> nat) list" where
  "scalars (Scalar n) = [(0, n)]"
| "scalars (Array n t) = concat (map (\<lambda>i. map (\<lambda>(x, w). (i * csize t + x, w)) (scalars t)) [0..<n])"
| "scalars (Struct k al ms) = mscalars ms k 0"
| "mscalars End k pos = []"
| "mscalars (Member f al t ms) k pos =
     (let o1 = member_start k pos al t
      in map (\<lambda>(x, w). (o1 + x, w)) (scalars t) @ (if k = Union then [] else mscalars ms k (max pos (o1 + csize t))))"

fun put_scalars :: "(nat \<times> nat) list \<Rightarrow> u64 list \<Rightarrow> u64 \<Rightarrow> mem \<Rightarrow> mem" where
  "put_scalars ((x, w) # L) (v # vs) a m = put_scalars L vs a (store_le w m (a + of_nat x) v)"
| "put_scalars L vs a m = m"

definition get_scalars :: "(nat \<times> nat) list \<Rightarrow> u64 \<Rightarrow> mem \<Rightarrow> u64 list" where
  "get_scalars L a m = map (\<lambda>(x, w). load_le w m (a + of_nat x)) L"

text \<open>\<open>laid_out p L q\<close>: the scalars lie one behind the other between \<open>p\<close> and \<open>q\<close>.\<close>

fun laid_out :: "nat \<Rightarrow> (nat \<times> nat) list \<Rightarrow> nat \<Rightarrow> bool" where
  "laid_out p [] q \<longleftrightarrow> p \<le> q"
| "laid_out p ((x, w) # L) q \<longleftrightarrow> p \<le> x \<and> laid_out (x + w) L q"

lemma laid_out_le: "laid_out p L q \<Longrightarrow> p \<le> q"
  by (induction p L q rule: laid_out.induct) auto

lemma laid_out_mono: "laid_out p L q \<Longrightarrow> p' \<le> p \<Longrightarrow> q \<le> q' \<Longrightarrow> laid_out p' L q'"
  by (induction p L q arbitrary: p' rule: laid_out.induct) auto

lemma laid_out_append: "laid_out p A q \<Longrightarrow> laid_out q B r \<Longrightarrow> laid_out p (A @ B) r"
  by (induction p A q rule: laid_out.induct) (auto intro: laid_out_mono)

lemma laid_out_shift: "laid_out p L q \<Longrightarrow> laid_out (z + p) (map (\<lambda>(x, w). (z + x, w)) L) (z + q)"
  by (induction p L q rule: laid_out.induct) (auto simp: add.assoc)

lemma laid_out_member: "laid_out p L q \<Longrightarrow> (x, w) \<in> set L \<Longrightarrow> p \<le> x \<and> x + w \<le> q"
  by (induction p L q rule: laid_out.induct) (auto dest: laid_out_le)

lemma laid_out_array:
  assumes "laid_out 0 L s"
  shows "laid_out 0 (concat (map (\<lambda>i. map (\<lambda>(x, w). (i * s + x, w)) L) [0..<n])) (n * s)"
proof (induction n)
  case (Suc n)
  have "laid_out (n * s) (map (\<lambda>(x, w). (n * s + x, w)) L) (Suc n * s)"
    using laid_out_shift [OF assms, of "n * s"] by (simp add: add.commute)
  then show ?case using laid_out_append [OF Suc] by simp
qed simp

lemma round_up_le: "0 < k \<Longrightarrow> n \<le> round_up n k"
  using div_mult_mod_eq [of "n + k - 1" k] mod_less_divisor [of k "n + k - 1"] unfolding round_up_def by linarith

lemma calign_pos: "0 < caligns ms k"
  by (induction ms rule: members.induct [where ?P1.0 = "\<lambda>_. True"]) auto

lemma cend_le: "pos \<le> cend ms k pos"
proof (induction ms arbitrary: pos rule: members.induct [where ?P1.0 = "\<lambda>_. True"])
  case (Member f al t ms)
  show ?case using Member(2) [of "max pos (member_start k pos al t + csize t)"] by simp
qed simp_all

fun sized :: "ctype \<Rightarrow> bool" and sizeds :: "members \<Rightarrow> bool" where
  "sized (Scalar n) \<longleftrightarrow> 0 < n"
| "sized (Array n t) \<longleftrightarrow> sized t"
| "sized (Struct k al ms) \<longleftrightarrow> sizeds ms"
| "sizeds End \<longleftrightarrow> True"
| "sizeds (Member f al t ms) \<longleftrightarrow> 0 < al \<and> sized t \<and> sizeds ms"

lemma member_start_le: "0 < al \<Longrightarrow> k \<noteq> Union \<Longrightarrow> pos \<le> member_start k pos al t"
  by (simp add: member_start_def round_up_le)

text \<open>The scalars of a type do not overlap and lie inside it.\<close>

lemma scalars_laid_out:
  "sized t \<Longrightarrow> laid_out 0 (scalars t) (csize t)"
  "sizeds ms \<Longrightarrow> k = Union \<longrightarrow> pos = 0 \<Longrightarrow> laid_out pos (mscalars ms k pos) (cend ms k pos)"
proof (induction t and ms arbitrary: and k pos rule: sized_sizeds.induct)
  case (2 n t)
  then show ?case using laid_out_array by simp
next
  case (3 k al ms)
  have "cend ms k 0 \<le> round_up (cend ms k 0) (max al (caligns ms k))" using calign_pos [of ms k] by (intro round_up_le) simp
  then show ?case using 3 by (auto intro: laid_out_mono)
next
  case (5 f al t ms)
  let ?x = "member_start k pos al t"
  have head: "laid_out ?x (map (\<lambda>(x, w). (?x + x, w)) (scalars t)) (?x + csize t)"
    using laid_out_shift [OF "5.IH"(1), of ?x] "5.prems"(1) by simp
  show ?case
  proof (cases "k = Union")
    case True
    then have "pos = 0" using "5.prems"(2) by simp
    then show ?thesis using True head cend_le [of "?x + csize t" ms k] by (auto intro: laid_out_mono)
  next
    case False
    then have "pos \<le> ?x" using "5.prems"(1) by (intro member_start_le) simp_all
    moreover have "laid_out (?x + csize t) (mscalars ms k (?x + csize t)) (cend ms k (?x + csize t))"
      using "5.IH"(2) [of k "?x + csize t"] "5.prems"(1) False by simp
    ultimately show ?thesis using False laid_out_append [OF head]
      by (auto simp: Let_def max_absorb2 intro: laid_out_mono)
  qed
qed simp_all

section \<open>Storing and loading\<close>

definition fits :: "(nat \<times> nat) list \<Rightarrow> u64 list \<Rightarrow> bool" where
  "fits L vs \<longleftrightarrow> list_all2 (\<lambda>(x, w) v. take_bit (8 * w) v = v) L vs"

lemma fits_simps [simp]:
  "fits [] vs \<longleftrightarrow> vs = []" "fits ((x, w) # L) (v # vs) \<longleftrightarrow> take_bit (8 * w) v = v \<and> fits L vs" "fits (y # L) [] \<longleftrightarrow> False"
  by (auto simp: fits_def)

lemma fits_append: "fits L vs \<Longrightarrow> fits K us \<Longrightarrow> fits (L @ K) (vs @ us)"
  unfolding fits_def by (rule list_all2_appendI)

lemma fits_length: "fits L vs \<Longrightarrow> length vs = length L"
  by (simp add: fits_def list_all2_lengthD)

lemma put_scalars_apart:
  "(\<And>x w. (x, w) \<in> set L \<Longrightarrow> w < 2 ^ 64 \<and> z \<notin> span (a + of_nat x) w) \<Longrightarrow> put_scalars L vs a m z = m z"
proof (induction L vs a m rule: put_scalars.induct)
  case (1 x w L v vs a m)
  have "put_scalars L vs a (store_le w m (a + of_nat x) v) z = store_le w m (a + of_nat x) v z"
    using "1.prems" by (intro "1.IH") auto
  then show ?case using "1.prems" [of x w] by (simp add: store_le_other)
qed simp_all

lemma scalar_span: "laid_out p L q \<Longrightarrow> q < 2 ^ 64 \<Longrightarrow> (x, w) \<in> set L \<Longrightarrow> span (a + of_nat x) w \<subseteq> span a q"
  using laid_out_member [of p L q x w] by (intro span_field) (simp_all add: unat_of_nat_64)

lemma put_scalars_other: "laid_out p L q \<Longrightarrow> q < 2 ^ 64 \<Longrightarrow> z \<notin> span a q \<Longrightarrow> put_scalars L vs a m z = m z"
  using laid_out_member [of p L q] scalar_span [of p L q] by (intro put_scalars_apart) (blast intro: le_less_trans [OF le_add2] le_less_trans)

lemma get_scalars_cong:
  "laid_out p L q \<Longrightarrow> q < 2 ^ 64 \<Longrightarrow> (\<And>z. z \<in> span a q \<Longrightarrow> m' z = m z) \<Longrightarrow> get_scalars L a m' = get_scalars L a m"
proof -
  assume A: "laid_out p L q" "q < 2 ^ 64" "\<And>z. z \<in> span a q \<Longrightarrow> m' z = m z"
  have "load_le w m' (a + of_nat x) = load_le w m (a + of_nat x)" if xw: "(x, w) \<in> set L" for x w
    using laid_out_member [OF A(1) xw] scalar_span [OF A(1,2) xw, of a] A(2,3) by (intro load_le_cong) auto
  then show ?thesis by (auto simp: get_scalars_def)
qed

lemma get_put_scalars:
  "laid_out p L q \<Longrightarrow> q < 2 ^ 64 \<Longrightarrow> fits L vs \<Longrightarrow> get_scalars L a (put_scalars L vs a m) = vs"
proof (induction p L q arbitrary: vs m rule: laid_out.induct)
  case (2 p x w L q)
  then obtain v us where vs: "vs = v # us" "take_bit (8 * w) v = v" "fits L us" by (cases vs) auto
  have q: "x + w \<le> q" using "2.prems"(1) by (auto dest: laid_out_le)
  let ?m = "store_le w m (a + of_nat x) v"
  have "put_scalars L us a ?m z = ?m z" if z: "z \<in> span (a + of_nat x) w" for z
  proof (rule put_scalars_apart)
    fix y k assume y: "(y, k) \<in> set L"
    then have b: "x + w \<le> y" "y + k \<le> q" using laid_out_member "2.prems"(1) by auto
    have "span (a + of_nat x) w \<inter> span (a + of_nat y) k = {}"
      using b "2.prems"(2) by (intro fields_apart) (simp_all add: unat_of_nat_64 del: of_nat_mult)
    then show "k < 2 ^ 64 \<and> z \<notin> span (a + of_nat y) k" using z b "2.prems"(2) by auto
  qed
  then have "load_le w (put_scalars L us a ?m) (a + of_nat x) = load_le w ?m (a + of_nat x)"
    using q "2.prems"(2) by (intro load_le_cong) simp_all
  also have "\<dots> = v" using q "2.prems"(2) vs(2) by (simp add: load_le_store_le_same)
  finally show ?case using "2.IH" [of us ?m] "2.prems" vs by (simp add: get_scalars_def)
qed (simp add: get_scalars_def)

text \<open>A field is inside its structure, and different members of a structure do not overlap.\<close>

lemma member_inside:
  assumes "sizeds ms" "member_at ms k pos f = Some (x, t)"
  shows "x + csize t \<le> cend ms k pos \<and> (k \<noteq> Union \<longrightarrow> pos \<le> x) \<and> sized t"
  using assms
proof (induction ms arbitrary: pos rule: members.induct [where ?P1.0 = "\<lambda>_. True"])
  case (Member g al u ms)
  let ?s = "member_start k pos al u"
  show ?case
  proof (cases "g = f")
    case True
    then have "x = ?s" "t = u" "sized u" "0 < al" using Member.prems by (auto simp: Let_def)
    then show ?thesis using cend_le [of "max pos (?s + csize u)" ms k] member_start_le [of al k pos u] by auto
  next
    case False
    then show ?thesis using Member.IH [of "max pos (?s + csize u)"] Member.prems by (auto simp: Let_def)
  qed
qed simp_all

lemma field_inside: "sized t \<Longrightarrow> offset_of t ps = Some (x, u) \<Longrightarrow> x + csize u \<le> csize t"
proof (induction t ps arbitrary: x u rule: offset_of.induct)
  case (2 k al ms f ps)
  then obtain y v z where M: "member_at ms k 0 f = Some (y, v)" "offset_of v ps = Some (z, u)" "x = y + z"
    by (auto split: option.splits)
  have "y + csize v \<le> cend ms k 0" "sized v" using member_inside [OF _ M(1)] "2.prems"(1) by auto
  moreover have "z + csize u \<le> csize v" using "2.IH" M calculation(2) by auto
  moreover have "cend ms k 0 \<le> csize (Struct k al ms)" using calign_pos [of ms k] by (auto intro!: round_up_le)
  ultimately show ?case using M(3) by linarith
next
  case (3 n t i ps)
  then obtain z where z: "i < n" "offset_of t ps = Some (z, u)" "x = i * csize t + z" by (auto split: if_splits option.splits)
  have "z + csize u \<le> csize t" using "3.IH" z "3.prems"(1) by auto
  moreover have "Suc i * csize t \<le> n * csize t" using z(1) by (intro mult_le_mono1) simp
  ultimately show ?case using z(3) by simp
qed simp_all

section \<open>Records in memory\<close>

text \<open>
  The contract between a record and the structure that holds it: the members of the record, widened to words, are scalars that fit the
  structure, and the record is what they determine.
\<close>

locale stored =
  fixes ty :: ctype and pack :: "'s \<Rightarrow> u64 list" and unpack :: "u64 list \<Rightarrow> 's" and valid :: "'s \<Rightarrow> bool"
  assumes ty_sized: "sized ty" and ty_small: "csize ty < 2 ^ 64"
    and pack_fits: "valid s \<Longrightarrow> fits (scalars ty) (pack s)"
    and unpack_pack: "valid s \<Longrightarrow> unpack (pack s) = s"
begin

lemma get_put: "valid s \<Longrightarrow> unpack (get_scalars (scalars ty) a (put_scalars (scalars ty) (pack s) a m)) = s"
  by (simp add: get_put_scalars [OF scalars_laid_out(1) [OF ty_sized] ty_small pack_fits] unpack_pack)

lemma put_outside: "z \<notin> span a (csize ty) \<Longrightarrow> put_scalars (scalars ty) vs a m z = m z"
  by (rule put_scalars_other [OF scalars_laid_out(1) [OF ty_sized] ty_small])

lemma get_cong: "(\<And>z. z \<in> span a (csize ty) \<Longrightarrow> m' z = m z) \<Longrightarrow> get_scalars (scalars ty) a m' = get_scalars (scalars ty) a m"
  by (rule get_scalars_cong [OF scalars_laid_out(1) [OF ty_sized] ty_small])

lemma get_put_apart:
  "span a (csize ty) \<inter> span b (csize ty) = {} \<Longrightarrow> get_scalars (scalars ty) b (put_scalars (scalars ty) vs a m) = get_scalars (scalars ty) b m"
  by (intro get_cong put_outside) blast

text \<open>In an array that does not wrap around, storing one element leaves the others alone.\<close>

lemma get_put_array:
  assumes "n * csize ty < 2 ^ 64" "i < n" "j < n" "valid s"
  shows "unpack (get_scalars (scalars ty) (a + of_nat (j * csize ty)) (put_scalars (scalars ty) (pack s) (a + of_nat (i * csize ty)) m)) =
    (if j = i then s else unpack (get_scalars (scalars ty) (a + of_nat (j * csize ty)) m))"
proof (cases "j = i")
  case False
  have end_le: "k * csize ty + csize ty \<le> n * csize ty" if "k < n" for k
    using mult_le_mono1 [of "Suc k" n "csize ty"] that by simp
  have apart: "span (a + of_nat (k * csize ty)) (csize ty) \<inter> span (a + of_nat (l * csize ty)) (csize ty) = {}" if "k < l" "l < n" for k l
    using mult_le_mono1 [of "Suc k" l "csize ty"] end_le [of l] that assms(1)
    by (intro fields_apart) (simp_all add: unat_of_nat_64 del: of_nat_mult)
  show ?thesis using apart [of i j] apart [of j i] False assms(2,3) by (cases "i < j") (auto simp: get_put_apart Int_commute)
qed (simp add: get_put assms(4))

end

text \<open>Scalars that fit, and reading the same bytes at another address.\<close>

lemma take_bit_ucast:
  "take_bit 8 (ucast (x :: u8) :: u64) = ucast x" "take_bit 16 (ucast (y :: u16) :: u64) = ucast y"
  "take_bit 32 (ucast (z :: u32) :: u64) = ucast z" "take_bit 64 (v :: u64) = v"
  by (rule bit_word_eqI; auto simp: bit_simps dest: bit_imp_le_length)+

lemma ucast_up_down: "ucast (ucast (x :: u8) :: u64) = x" "ucast (ucast (y :: u16) :: u64) = y" "ucast (ucast (z :: u32) :: u64) = z"
  by (rule bit_word_eqI; auto simp: bit_simps)+

lemma load_le_shift: "(\<And>i. i < n \<Longrightarrow> m' (b + of_nat i) = m (a + of_nat i)) \<Longrightarrow> load_le n m' b = load_le n m a"
proof (induction n arbitrary: a b)
  case (Suc n)
  have "m' (b + 1 + of_nat i) = m (a + 1 + of_nat i)" if "i < n" for i
    using Suc.prems [of "Suc i"] that by (simp add: add.assoc)
  then have "load_le n m' (b + 1) = load_le n m (a + 1)" by (rule Suc.IH)
  then show ?case using Suc.prems [of 0] by (simp add: load_le.simps)
qed (simp add: load_le.simps)

lemma get_scalars_shift:
  assumes "laid_out p L q" "\<And>i. i < q \<Longrightarrow> m' (b + of_nat i) = m (a + of_nat i)"
  shows "get_scalars L b m' = get_scalars L a m"
proof -
  have "load_le w m' (b + of_nat x) = load_le w m (a + of_nat x)" if xw: "(x, w) \<in> set L" for x w
  proof (rule load_le_shift)
    fix i assume "i < w"
    then show "m' (b + of_nat x + of_nat i) = m (a + of_nat x + of_nat i)"
      using assms(2) [of "x + i"] laid_out_member [OF assms(1) xw] by (simp add: add.assoc)
  qed
  then show ?thesis by (auto simp: get_scalars_def)
qed

end
