(* ===== verification/Structs.thy ===== *)
theory Structs
  imports Layout Gpu Trap Sbi
begin

text \<open>
  The structures that the kernel declares, as values of \<open>ctype\<close>, and the addresses of their members by the ABI. The
  theories of the components write these addresses and sizes as numbers; here each of them is shown to be the one of the declaration,
  and the commands that the GPU driver builds are read back member by member.
\<close>

section \<open>Declarations\<close>

text \<open>\<open>drivers/virtio/virtio.h\<close>; \<open>used\<close> is aligned to a page.\<close>

definition struct_virtq_desc :: ctype where
  "struct_virtq_desc = Struct Packed 1 (members_of
     [(''addr'', uint64_t), (''len'', uint32_t), (''flags'', uint16_t), (''next'', uint16_t)])"

definition struct_virtq_avail :: ctype where
  "struct_virtq_avail = Struct Packed 1 (members_of [(''flags'', uint16_t), (''idx'', uint16_t), (''ring'', Array 16 uint16_t)])"

definition struct_virtq_used_elem :: ctype where
  "struct_virtq_used_elem = Struct Packed 1 (members_of [(''id'', uint32_t), (''len'', uint32_t)])"

definition struct_virtq_used :: ctype where
  "struct_virtq_used = Struct Packed 1 (members_of
     [(''flags'', uint16_t), (''idx'', uint16_t), (''ring'', Array 16 struct_virtq_used_elem)])"

definition struct_virt_queue :: ctype where
  "struct_virt_queue = Struct Packed 1
     (Member ''buffers'' 1 (Array 16 struct_virtq_desc) (Member ''avail'' 1 struct_virtq_avail
     (Member ''used'' 4096 struct_virtq_used (members_of
       [(''queue_index'', uint32_t), (''used_index'', pointer), (''last_used_index'', uint16_t)]))))"

text \<open>\<open>drivers/virtio/virtio_blkio.h\<close>, \<open>kernel/schedule/proc.h\<close>, \<open>arch/trap.h\<close>, \<open>drivers/boot/sbi.h\<close>.\<close>

definition struct_virtio_blk_req :: ctype where
  "struct_virtio_blk_req = Struct Packed 1 (members_of
     [(''type'', uint32_t), (''reserved'', uint32_t), (''sector'', uint64_t), (''data'', Array 512 uint8_t), (''status'', uint8_t)])"

definition struct_process :: ctype where
  "struct_process = Struct Plain 1 (members_of
     [(''pid'', uint32_t), (''state'', uint32_t), (''sp'', uint64_t), (''page_table'', pointer), (''stack'', Array 8192 uint8_t)])"

definition trap_fields :: "string list" where
  "trap_fields = [''ra'', ''gp'', ''tp'', ''t0'', ''t1'', ''t2'', ''t3'', ''t4'', ''t5'', ''t6'',
     ''a0'', ''a1'', ''a2'', ''a3'', ''a4'', ''a5'', ''a6'', ''a7'',
     ''s0'', ''s1'', ''s2'', ''s3'', ''s4'', ''s5'', ''s6'', ''s7'', ''s8'', ''s9'', ''s10'', ''s11'', ''sp'']"

definition struct_trap_frame :: ctype where
  "struct_trap_frame = Struct Packed 1 (members_of (map (\<lambda>f. (f, uint64_t)) trap_fields))"

text \<open>\<open>drivers/virtio/virtio_gpu.h\<close>.\<close>

definition struct_gpu_pixel_rgba :: ctype where
  "struct_gpu_pixel_rgba = Struct Packed 1 (members_of [(''r'', uint8_t), (''g'', uint8_t), (''b'', uint8_t), (''a'', uint8_t)])"

definition struct_virtio_gpu_rect :: ctype where
  "struct_virtio_gpu_rect = Struct Packed 1 (members_of [(''x'', uint32_t), (''y'', uint32_t), (''w'', uint32_t), (''h'', uint32_t)])"

definition struct_virtio_gpu_ctrl_hdr :: ctype where
  "struct_virtio_gpu_ctrl_hdr = Struct Packed 1 (members_of
     [(''type'', uint32_t), (''flags'', uint32_t), (''fence_id'', uint64_t), (''ctx_id'', uint32_t),
      (''ring_idx'', uint8_t), (''padding'', Array 3 uint8_t)])"

definition struct_virtio_gpu_resource_create_2d :: ctype where
  "struct_virtio_gpu_resource_create_2d = Struct Packed 1 (members_of
     [(''hdr'', struct_virtio_gpu_ctrl_hdr), (''resource_id'', uint32_t), (''format'', uint32_t), (''width'', uint32_t), (''height'', uint32_t)])"

definition struct_virtio_gpu_resp_display_info :: ctype where
  "struct_virtio_gpu_resp_display_info = Struct Packed 1 (members_of
     [(''hdr'', struct_virtio_gpu_ctrl_hdr),
      (''pmodes'', Array 16 (Struct Plain 1 (members_of [(''r'', struct_virtio_gpu_rect), (''enabled'', uint32_t), (''flags'', uint32_t)])))])"

definition struct_virtio_gpu_resource_attach_backing :: ctype where
  "struct_virtio_gpu_resource_attach_backing = Struct Packed 1 (members_of
     [(''hdr'', struct_virtio_gpu_ctrl_hdr), (''resource_id'', uint32_t), (''nr_entries'', uint32_t)])"

definition struct_virtio_gpu_mem_entry :: ctype where
  "struct_virtio_gpu_mem_entry = Struct Packed 1 (members_of [(''addr'', uint64_t), (''length'', uint32_t), (''padding'', uint32_t)])"

definition struct_virtio_gpu_set_scanout :: ctype where
  "struct_virtio_gpu_set_scanout = Struct Packed 1 (members_of
     [(''hdr'', struct_virtio_gpu_ctrl_hdr), (''r'', struct_virtio_gpu_rect), (''scanout_id'', uint32_t), (''resource_id'', uint32_t)])"

definition struct_virtio_gpu_transfer_to_host_2d :: ctype where
  "struct_virtio_gpu_transfer_to_host_2d = Struct Packed 1 (members_of
     [(''hdr'', struct_virtio_gpu_ctrl_hdr), (''r'', struct_virtio_gpu_rect), (''offset'', uint64_t), (''resource_id'', uint32_t), (''padding'', uint32_t)])"

definition struct_virtio_gpu_resource_flush :: ctype where
  "struct_virtio_gpu_resource_flush = Struct Packed 1 (members_of
     [(''hdr'', struct_virtio_gpu_ctrl_hdr), (''r'', struct_virtio_gpu_rect), (''resource_id'', uint32_t), (''padding'', uint32_t)])"

text \<open>\<open>kernel/dev/dmng.h\<close> and \<open>user/libc/oppostd.h\<close>, which no code uses yet.\<close>

definition struct_device_t :: ctype where
  "struct_device_t = Struct Plain 1 (members_of
     [(''name'', pointer), (''dev_id'', uint32_t), (''dev_class'', uint32_t), (''dev_interface'', uint32_t), (''init_func'', pointer),
      (''remove_dev'', pointer), (''interrupt_number'', uint16_t), (''read'', pointer), (''write'', pointer), (''io_ctl'', pointer),
      (''io_base'', uint64_t), (''io_size'', uint64_t)])"

definition struct_inode :: ctype where
  "struct_inode = Struct Packed 256 (members_of
     [(''permissions'', uint16_t), (''user_id'', uint16_t), (''low_size'', uint32_t), (''last_access_time'', uint32_t), (''creation_time'', uint32_t),
      (''last_modification_time'', uint32_t), (''deletion_time'', uint32_t), (''group_id'', uint16_t), (''count_hard_links'', uint16_t),
      (''count_disk_sectors'', uint32_t), (''flags'', uint32_t), (''os_specific_value_1'', uint32_t), (''direct_block_pointer'', Array 12 uint32_t),
      (''single_indirect_block_pointer'', uint32_t), (''double_indirect_block_pointer'', uint32_t), (''triply_indirect_block_pointer'', uint32_t),
      (''gen_number'', uint32_t), (''extended_attribute_block'', uint32_t), (''high_size'', uint32_t), (''block_address_of_fragment'', uint32_t),
      (''os_specific_value_2'', Array 12 uint8_t)])"

definition struct_directory_entry :: ctype where
  "struct_directory_entry = Struct Packed 1 (members_of
     [(''inode'', uint32_t), (''rec_len'', uint16_t), (''name_len_lsb_8'', uint8_t), (''type_indicator'', uint8_t), (''name'', pointer)])"

lemmas virtio_structs = struct_virtq_desc_def struct_virtq_avail_def struct_virtq_used_elem_def struct_virtq_used_def struct_virt_queue_def
  struct_virtio_blk_req_def

lemmas gpu_structs = struct_gpu_pixel_rgba_def struct_virtio_gpu_rect_def struct_virtio_gpu_ctrl_hdr_def
  struct_virtio_gpu_resource_create_2d_def struct_virtio_gpu_resp_display_info_def struct_virtio_gpu_resource_attach_backing_def
  struct_virtio_gpu_mem_entry_def struct_virtio_gpu_set_scanout_def struct_virtio_gpu_transfer_to_host_2d_def struct_virtio_gpu_resource_flush_def

lemmas layout_simps = member_start_def round_up_def field_at_def

section \<open>Sizes and addresses\<close>

lemma struct_sizes:
  "csize struct_virt_queue = unat VQ_SIZE" "calign struct_virt_queue = 4096" "csize struct_virtio_blk_req = unat BLK_REQ_SIZE"
  "csize struct_process = 8216" "csize struct_gpu_pixel_rgba = 4"
  "csize struct_virtio_gpu_ctrl_hdr = unat GPU_HDR_SIZE" "csize struct_virtio_gpu_resource_create_2d = unat CREATE_2D_SIZE"
  "csize struct_virtio_gpu_resource_attach_backing = unat ATTACH_BACKING_SIZE" "csize struct_virtio_gpu_mem_entry = unat MEM_ENTRY_SIZE"
  "csize struct_virtio_gpu_set_scanout = unat SET_SCANOUT_SIZE" "csize struct_virtio_gpu_transfer_to_host_2d = unat TRANSFER_SIZE"
  "csize struct_virtio_gpu_resource_flush = unat FLUSH_SIZE"
  by (simp_all add: virtio_structs gpu_structs struct_process_def layout_simps VQ_SIZE_def BLK_REQ_SIZE_def GPU_HDR_SIZE_def CREATE_2D_SIZE_def
      ATTACH_BACKING_SIZE_def MEM_ENTRY_SIZE_def SET_SCANOUT_SIZE_def TRANSFER_SIZE_def FLUSH_SIZE_def)

lemma unused_struct_sizes: "csize struct_device_t = 88" "csize struct_inode = 256" "csize struct_directory_entry = 16"
  by code_simp+

text \<open>The queue, its descriptors and the request of the block device.\<close>

lemma queue_fields:
  "field_at struct_virt_queue [Dot ''avail'', Dot ''idx''] vq (avail_idx_at vq) 2"
  "field_at struct_virt_queue [Dot ''avail'', Dot ''ring'', At (unat (i mod 16))] vq (avail_ring_at vq i) 2"
  "field_at struct_virt_queue [Dot ''used'', Dot ''idx''] vq (used_idx_at vq) 2"
  "field_at struct_virt_queue [Dot ''queue_index''] vq (queue_index_at vq) 4"
  "field_at struct_virt_queue [Dot ''used_index''] vq (used_index_at vq) 8"
  "field_at struct_virt_queue [Dot ''last_used_index''] vq (last_used_index_at vq) 2"
proof -
  have "unat (i mod 16) < 16" by (simp add: unat_mod)
  moreover have "of_nat (unat (i mod 16)) = (ucast (i mod 16) :: u64)" by simp
  ultimately show "field_at struct_virt_queue [Dot ''avail'', Dot ''ring'', At (unat (i mod 16))] vq (avail_ring_at vq i) 2"
    by (simp add: virtio_structs layout_simps avail_ring_at_def)
qed (simp_all add: virtio_structs layout_simps avail_idx_at_def used_idx_at_def queue_index_at_def used_index_at_def last_used_index_at_def)

lemma descriptor_fields:
  assumes "i < 16"
  shows "field_at struct_virt_queue [Dot ''buffers'', At i, Dot ''addr''] vq (vq + 16 * of_nat i) 8"
    "field_at struct_virt_queue [Dot ''buffers'', At i, Dot ''len''] vq (vq + 16 * of_nat i + 8) 4"
    "field_at struct_virt_queue [Dot ''buffers'', At i, Dot ''flags''] vq (vq + 16 * of_nat i + 12) 2"
    "field_at struct_virt_queue [Dot ''buffers'', At i, Dot ''next''] vq (vq + 16 * of_nat i + 14) 2"
  using assms by (simp_all add: virtio_structs layout_simps mult.commute)

lemma request_fields:
  "field_at struct_virtio_blk_req [Dot ''type''] r r 4" "field_at struct_virtio_blk_req [Dot ''sector''] r (req_sector_at r) 8"
  "field_at struct_virtio_blk_req [Dot ''data''] r (req_data_at r) 512" "field_at struct_virtio_blk_req [Dot ''status''] r (req_status_at r) 1"
  by (simp_all add: virtio_structs layout_simps req_sector_at_def req_data_at_def req_status_at_def)

text \<open>The words of the trap frame and the kernel stacks.\<close>

lemma word_members:
  "distinct fs \<Longrightarrow> i < length fs \<Longrightarrow>
     member_at (members_of (map (\<lambda>f. (f, uint64_t)) fs)) Packed pos (fs ! i) = Some (pos + 8 * i, uint64_t)"
  by (induction fs arbitrary: i pos) (auto simp: layout_simps nth_Cons' Let_def max_absorb2)

lemma word_members_end: "cend (members_of (map (\<lambda>f. (f, uint64_t)) fs)) Packed pos = pos + 8 * length fs"
  by (induction fs arbitrary: pos) (simp_all add: layout_simps max_absorb2)

lemma word_members_align: "caligns (members_of (map (\<lambda>f. (f, uint64_t)) fs)) Packed = 1"
  by (induction fs) simp_all

lemma frame_field: "field_at struct_trap_frame [Dot (trap_fields ! reg_index (trap_regs @ [SP]) r)] f (frame_slot f r) 8"
proof -
  let ?i = "reg_index (trap_regs @ [SP]) r"
  have "distinct trap_fields" by (simp add: trap_fields_def)
  moreover have "?i < length trap_fields" using reg_index_frame(1) [of r] by (simp add: trap_fields_def)
  ultimately show ?thesis
    by (simp add: struct_trap_frame_def field_at_def word_members frame_slot_def)
qed

lemma frame_size: "csize struct_trap_frame = 248"
  by (simp add: struct_trap_frame_def word_members_end word_members_align) (simp add: trap_fields_def round_up_def)

lemma stack_field: "i < 8 \<Longrightarrow> field_at (Array 8 struct_process) [At i, Dot ''stack''] (procs_base s) (stack_top s i - 8192) 8192"
  by (simp add: struct_process_def layout_simps stack_top_def mult.commute)



section \<open>Commands of the GPU\<close>

text \<open>Every command is the declared structure, with the values of its members in order.\<close>

lemma store_zeros: "store_le 4 m a 0 = store_le 1 (store_le 1 (store_le 1 (store_le 1 m a 0) (a + 1) 0) (a + 2) 0) (a + 3) 0"
  by (simp add: eval_nat_numeral store_le.simps add.assoc)

lemmas command_simps = gpu_structs layout_simps put_hdr_def put_rect_def GPU_DEFAULT_WIDTH_def GPU_DEFAULT_HEIGHT_def
  store32_def Let_def add.assoc upt_conv_Cons

lemma command_create_2d:
  "put_create2d a m = put_scalars (scalars struct_virtio_gpu_resource_create_2d) [0x101, 0, 0, 0, 0, 0, 0, 0, 1, 67, 640, 480] a m"
  by (simp add: command_simps store_zeros [of _ "a + 20"] put_create2d_def VIRTIO_GPU_CMD_RESOURCE_CREATE_2D_def VIRTIO_GPU_FORMAT_R8G8B8A8_UNORM_def)

lemma command_attach_backing:
  "put_attach a m = put_scalars (scalars struct_virtio_gpu_resource_attach_backing) [0x106, 0, 0, 0, 0, 0, 0, 0, 1, 1] a m"
  by (simp add: command_simps store_zeros [of _ "a + 20"] put_attach_def VIRTIO_GPU_CMD_RESOURCE_ATTACH_BACKING_def)

lemma command_mem_entry:
  "put_mem_entry a fb m = put_scalars (scalars struct_virtio_gpu_mem_entry) [fb, 640 * 480 * 4, 0] a m"
  by (simp add: command_simps put_mem_entry_def)

lemma command_set_scanout:
  "put_scanout a m = put_scalars (scalars struct_virtio_gpu_set_scanout) [0x103, 0, 0, 0, 0, 0, 0, 0, 0, 0, 640, 480, 0, 1] a m"
  by (simp add: command_simps store_zeros [of _ "a + 20"] put_scanout_def VIRTIO_GPU_CMD_SET_SCANOUT_def)

lemma command_transfer:
  "put_transfer a m = put_scalars (scalars struct_virtio_gpu_transfer_to_host_2d) [0x105, 0, 0, 0, 0, 0, 0, 0, 0, 0, 640, 480, 0, 1, 0] a m"
  by (simp add: command_simps store_zeros [of _ "a + 20"] put_transfer_def VIRTIO_GPU_CMD_TRANSFER_TO_HOST_2D_def)

lemma command_flush:
  "put_flush a m = put_scalars (scalars struct_virtio_gpu_resource_flush) [0x104, 0, 0, 0, 0, 0, 0, 0, 0, 0, 640, 480, 1, 0] a m"
  by (simp add: command_simps store_zeros [of _ "a + 20"] put_flush_def VIRTIO_GPU_CMD_RESOURCE_FLUSH_def)

end
