(* ===== verification/Ztfs.thy ===== *)
theory Ztfs
  imports Layout Driver_Props
begin

text \<open>
  The data of the file system, \<open>drivers/fs/ztfs.h\<close> and \<open>kernel/fs\<close>: the three structures that the file system keeps on the disk, each as a
  record with its layout, and the table of open files. They are stored in memory and on the disk by the block device driver without loss.
  The functions that the header declares have no code but for two empty ones.
\<close>

section \<open>Constants\<close>

definition ZTFS_VERSION_MAJOR :: u16 where "ZTFS_VERSION_MAJOR = 1"
definition ZTFS_VERSION_MINOR :: u16 where "ZTFS_VERSION_MINOR = 0"
definition ZTFS_BLUEPRINT_ADDR :: u32 where "ZTFS_BLUEPRINT_ADDR = 512"
definition ZTFS_BGDT_START_BADDR :: u32 where "ZTFS_BGDT_START_BADDR = 2"
definition ZTFS_MAGIC_SIGNATURE :: u64 where "ZTFS_MAGIC_SIGNATURE = 0x5346545A"

datatype ENTRY_TYPE = NONE | ENTRY_DIRECTORY | ENTRY_FILE | ENTRY_REF | ENTRY_CHAR | ENTRY_BLOCK | ENTRY_SOCKET

fun entry_type_code :: "ENTRY_TYPE \<Rightarrow> u8" where
  "entry_type_code NONE = 0"
| "entry_type_code ENTRY_DIRECTORY = 1"
| "entry_type_code ENTRY_FILE = 2"
| "entry_type_code ENTRY_REF = 3"
| "entry_type_code ENTRY_CHAR = 4"
| "entry_type_code ENTRY_BLOCK = 5"
| "entry_type_code ENTRY_SOCKET = 6"

definition SUPER_READ :: u8 where "SUPER_READ = 1"
definition SUPER_WRITE :: u8 where "SUPER_WRITE = 2"
definition SUPER_RW :: u8 where "SUPER_RW = SUPER_READ OR SUPER_WRITE"
definition SUPER_EXECUTE :: u8 where "SUPER_EXECUTE = 4"
definition SUPER_RWX :: u8 where "SUPER_RWX = SUPER_RW OR SUPER_EXECUTE"
definition USER_READ :: u8 where "USER_READ = 8"
definition ALL_READ :: u8 where "ALL_READ = SUPER_READ OR USER_READ"
definition USER_WRITE :: u8 where "USER_WRITE = 16"
definition ALL_WRITE :: u8 where "ALL_WRITE = SUPER_WRITE OR USER_WRITE"
definition USER_RW :: u8 where "USER_RW = USER_READ OR USER_WRITE"
definition USER_EXECUTE :: u8 where "USER_EXECUTE = 32"
definition ALL_EXECUTE :: u8 where "ALL_EXECUTE = SUPER_EXECUTE OR USER_EXECUTE"
definition USER_RWX :: u8 where "USER_RWX = USER_RW OR USER_EXECUTE"
definition ALL_RW :: u8 where "ALL_RW = SUPER_RW OR USER_RW"
definition ALL_RWX :: u8 where "ALL_RWX = SUPER_RWX OR USER_RWX"
definition APPEND_ONLY :: u8 where "APPEND_ONLY = 64"
definition PERM_RESERVED :: u8 where "PERM_RESERVED = 128"

section \<open>Structures\<close>

definition struct_ztfs_blueprint :: ctype where
  "struct_ztfs_blueprint = Struct Plain 1 (members_of
     [(''signature'', uint64_t), (''version_major'', uint16_t), (''version_minor'', uint16_t), (''block_size'', uint32_t),
      (''size_bytes'', uint64_t), (''free_blocks'', uint64_t), (''baddr_root_entry'', uint32_t), (''block_group_table_size'', uint32_t),
      (''baddr_bitmap_start'', uint32_t), (''block_group_size'', uint32_t), (''baddr_first_block_group'', uint32_t), (''block_group_count'', uint32_t)])"

definition struct_ztfs_block_group_descriptor :: ctype where
  "struct_ztfs_block_group_descriptor = Struct Plain 1 (members_of
     [(''baddr_block_bitmap'', uint32_t), (''baddr_first_entry'', uint32_t), (''free_blocks'', uint32_t), (''num_entries'', uint16_t), (''reserved'', uint16_t)])"

definition struct_ztfs_entry :: ctype where
  "struct_ztfs_entry = Struct Plain 1 (members_of
     [(''name'', Array 64 uint8_t),
      ('''', Struct Union 1 (members_of [(''file_size_bytes'', uint64_t), (''entry_count'', uint64_t), (''ref_target_entry_index'', uint64_t)])),
      (''size_blocks'', uint32_t), (''entry_type'', uint8_t), (''permissions'', uint8_t),
      ('' '', Struct Union 1 (members_of [(''baddr_indirect_block'', uint32_t), (''ref_target_block'', uint32_t)])),
      (''baddr_double_indir_block'', uint32_t), (''ref_count'', uint16_t), (''entry_idx'', uint8_t), (''data_block_idx'', uint8_t), (''entry_baddr'', uint32_t)])"

definition struct_FILE :: ctype where
  "struct_FILE = Struct Plain 1 (members_of [(''file_pointer'', uint64_t), (''entry'', pointer), (''reference_count'', uint32_t)])"

definition MAX_DESCRIPTORS :: nat where "MAX_DESCRIPTORS = 256"

record ztfs_blueprint =
  signature :: u64
  version_major :: u16
  version_minor :: u16
  bp_block_size :: u32
  size_bytes :: u64
  free_blocks :: u64
  baddr_root_entry :: u32
  block_group_table_size :: u32
  baddr_bitmap_start :: u32
  block_group_size :: u32
  baddr_first_block_group :: u32
  block_group_count :: u32

record ztfs_block_group_descriptor =
  baddr_block_bitmap :: u32
  baddr_first_entry :: u32
  bg_free_blocks :: u32
  num_entries :: u16
  reserved :: u16

text \<open>The unions are one field each, of which \<open>entry_type\<close> says what it means; \<open>name\<close> has 64 bytes.\<close>

record ztfs_entry =
  entry_name :: "u8 list"
  size_or_index :: u64
  size_blocks :: u32
  entry_type :: u8
  permissions :: u8
  block_or_target :: u32
  baddr_double_indir_block :: u32
  ref_count :: u16
  entry_idx :: u8
  data_block_idx :: u8
  entry_baddr :: u32

record FILE =
  file_pointer :: u64
  file_entry :: u64
  reference_count :: u32

section \<open>In memory\<close>

definition pack_blueprint :: "ztfs_blueprint \<Rightarrow> u64 list" where
  "pack_blueprint b = [signature b, ucast (version_major b), ucast (version_minor b), ucast (bp_block_size b), size_bytes b, free_blocks b,
     ucast (baddr_root_entry b), ucast (block_group_table_size b), ucast (baddr_bitmap_start b), ucast (block_group_size b),
     ucast (baddr_first_block_group b), ucast (block_group_count b)]"

definition unpack_blueprint :: "u64 list \<Rightarrow> ztfs_blueprint" where
  "unpack_blueprint vs = \<lparr>signature = vs ! 0, version_major = ucast (vs ! 1), version_minor = ucast (vs ! 2), bp_block_size = ucast (vs ! 3),
     size_bytes = vs ! 4, free_blocks = vs ! 5, baddr_root_entry = ucast (vs ! 6), block_group_table_size = ucast (vs ! 7),
     baddr_bitmap_start = ucast (vs ! 8), block_group_size = ucast (vs ! 9), baddr_first_block_group = ucast (vs ! 10),
     block_group_count = ucast (vs ! 11)\<rparr>"

definition pack_descriptor :: "ztfs_block_group_descriptor \<Rightarrow> u64 list" where
  "pack_descriptor d = [ucast (baddr_block_bitmap d), ucast (baddr_first_entry d), ucast (bg_free_blocks d), ucast (num_entries d), ucast (reserved d)]"

definition unpack_descriptor :: "u64 list \<Rightarrow> ztfs_block_group_descriptor" where
  "unpack_descriptor vs = \<lparr>baddr_block_bitmap = ucast (vs ! 0), baddr_first_entry = ucast (vs ! 1), bg_free_blocks = ucast (vs ! 2),
     num_entries = ucast (vs ! 3), reserved = ucast (vs ! 4)\<rparr>"

definition pack_entry :: "ztfs_entry \<Rightarrow> u64 list" where
  "pack_entry e = map ucast (entry_name e) @ [size_or_index e, ucast (size_blocks e), ucast (entry_type e), ucast (permissions e),
     ucast (block_or_target e), ucast (baddr_double_indir_block e), ucast (ref_count e), ucast (entry_idx e), ucast (data_block_idx e), ucast (entry_baddr e)]"

definition unpack_entry :: "u64 list \<Rightarrow> ztfs_entry" where
  "unpack_entry vs = \<lparr>entry_name = map ucast (take 64 vs), size_or_index = vs ! 64, size_blocks = ucast (vs ! 65), entry_type = ucast (vs ! 66),
     permissions = ucast (vs ! 67), block_or_target = ucast (vs ! 68), baddr_double_indir_block = ucast (vs ! 69), ref_count = ucast (vs ! 70),
     entry_idx = ucast (vs ! 71), data_block_idx = ucast (vs ! 72), entry_baddr = ucast (vs ! 73)\<rparr>"

definition pack_FILE :: "FILE \<Rightarrow> u64 list" where
  "pack_FILE f = [file_pointer f, file_entry f, ucast (reference_count f)]"

definition unpack_FILE :: "u64 list \<Rightarrow> FILE" where
  "unpack_FILE vs = \<lparr>file_pointer = vs ! 0, file_entry = vs ! 1, reference_count = ucast (vs ! 2)\<rparr>"

lemma blueprint_scalars: "scalars struct_ztfs_blueprint =
    [(0, 8), (8, 2), (10, 2), (12, 4), (16, 8), (24, 8), (32, 4), (36, 4), (40, 4), (44, 4), (48, 4), (52, 4)]"
  by code_simp

lemma descriptor_scalars: "scalars struct_ztfs_block_group_descriptor = [(0, 4), (4, 4), (8, 4), (12, 2), (14, 2)]"
  by code_simp

lemma FILE_scalars: "scalars struct_FILE = [(0, 8), (8, 8), (16, 4)]"
  by code_simp

lemma struct_sizes_fs:
  "csize struct_ztfs_blueprint = 56" "csize struct_ztfs_block_group_descriptor = 16" "csize struct_ztfs_entry = 96" "csize struct_FILE = 24"
  by code_simp+

lemma structs_sized: "sized struct_ztfs_blueprint" "sized struct_ztfs_block_group_descriptor" "sized struct_ztfs_entry" "sized struct_FILE"
  by code_simp+

interpretation blueprint: stored struct_ztfs_blueprint pack_blueprint unpack_blueprint "\<lambda>_. True"
  by unfold_locales (simp_all add: struct_sizes_fs structs_sized blueprint_scalars pack_blueprint_def unpack_blueprint_def take_bit_ucast ucast_up_down)

interpretation descriptor: stored struct_ztfs_block_group_descriptor pack_descriptor unpack_descriptor "\<lambda>_. True"
  by unfold_locales (simp_all add: struct_sizes_fs structs_sized descriptor_scalars pack_descriptor_def unpack_descriptor_def take_bit_ucast ucast_up_down)

interpretation files: stored struct_FILE pack_FILE unpack_FILE "\<lambda>_. True"
  by unfold_locales (simp_all add: struct_sizes_fs structs_sized FILE_scalars pack_FILE_def unpack_FILE_def take_bit_ucast ucast_up_down)

text \<open>The name of an entry is an array of bytes, and behind it are ten scalars.\<close>

lemma entry_scalars:
  "scalars struct_ztfs_entry = map (\<lambda>i. (i, 1)) [0..<64] @ [(64, 8), (72, 4), (76, 1), (77, 1), (80, 4), (84, 4), (88, 2), (90, 1), (91, 1), (92, 4)]"
  by code_simp

lemma fits_bytes: "length bs = n \<Longrightarrow> fits (map (\<lambda>i. (i, 1)) [k..<k + n]) (map ucast (bs :: u8 list))"
  by (simp add: fits_def list_all2_conv_all_nth take_bit_ucast)

interpretation entries: stored struct_ztfs_entry pack_entry unpack_entry "\<lambda>e. length (entry_name e) = 64"
proof unfold_locales
  show "sized struct_ztfs_entry" by (rule structs_sized)
  show "csize struct_ztfs_entry < 2 ^ 64" by (simp add: struct_sizes_fs)
  fix e :: ztfs_entry assume len: "length (entry_name e) = 64"
  show "fits (scalars struct_ztfs_entry) (pack_entry e)"
    unfolding entry_scalars pack_entry_def using fits_bytes [OF len, of 0] by (intro fits_append) (simp_all add: take_bit_ucast)
  show "unpack_entry (pack_entry e) = e"
    using len by (simp add: pack_entry_def unpack_entry_def nth_append ucast_up_down comp_def)
qed

section \<open>On the disk\<close>

text \<open>A structure in a sector buffer, written to a sector and read into a buffer, arrives there at the same place.\<close>

context stored
begin

lemma on_disk:
  fixes v :: "'d vst"
  assumes "serves bus I disk (blk_request_vq b)" "I (vdev v)" "blk_ready b (kmem (vlib v))" "buf_ok b src" "buf_ok b dst"
    and "(ucast sector :: u64) < blk_capacity b div SECTOR_SIZE" "x + csize ty \<le> 512" "valid s"
  obtains v1 v2 :: "'d vst"
  where "read_write_disk bus b src sector True
      (v\<lparr>vlib := (vlib v)\<lparr>kmem := put_scalars (scalars ty) (pack s) (src + of_nat x) (kmem (vlib v))\<rparr>\<rparr>) = Inr v1"
    "read_write_disk bus b dst sector False v1 = Inr v2"
    "unpack (get_scalars (scalars ty) (dst + of_nat x) (kmem (vlib v2))) = s"
    "disk (vdev v1) = (disk (vdev v))(ucast sector := bytes_at (put_scalars (scalars ty) (pack s) (src + of_nat x) (kmem (vlib v))) src 512)"
    "disk (vdev v2) = disk (vdev v1)"
proof -
  let ?m = "put_scalars (scalars ty) (pack s) (src + of_nat x) (kmem (vlib v))"
  let ?v = "v\<lparr>vlib := (vlib v)\<lparr>kmem := ?m\<rparr>\<rparr>"
  have "span (src + of_nat x) (csize ty) \<subseteq> span src 512" using assms(7) by (intro span_field) (simp_all add: unat_of_nat_64)
  then have "?m z = kmem (vlib v) z" if "z \<in> span (blk_request_vq b) 8192" for z
    using that assms(4) by (intro put_outside) (auto simp: buf_ok_def)
  then have v: "I (vdev ?v)" "blk_ready b (kmem (vlib ?v))" using assms(2) ready_cong [OF assms(3)] by simp_all
  obtain m1 d1 where W: "read_write_disk bus b src sector True ?v = Inr (?v\<lparr>vlib := (vlib ?v)\<lparr>kmem := m1\<rparr>, vdev := d1\<rparr>)" "I d1" "blk_ready b m1"
    "disk d1 = (disk (vdev ?v))(ucast sector := bytes_at (kmem (vlib ?v)) src 512)"
    by (rule transfer [OF assms(1) v assms(4,6), of True]) simp
  let ?v1 = "?v\<lparr>vlib := (vlib ?v)\<lparr>kmem := m1\<rparr>, vdev := d1\<rparr>"
  have v1: "I (vdev ?v1)" "blk_ready b (kmem (vlib ?v1))" using W(2,3) by simp_all
  obtain m2 d2 where R: "read_write_disk bus b dst sector False ?v1 = Inr (?v1\<lparr>vlib := (vlib ?v1)\<lparr>kmem := m2\<rparr>, vdev := d2\<rparr>)"
    "disk d2 = disk d1" "bytes_at m2 dst 512 = disk d1 (ucast sector)"
    by (rule transfer [OF assms(1) v1 assms(5,6), of False]) simp
  have bytes: "m2 (dst + of_nat i) = ?m (src + of_nat i)" if "i < 512" for i
    using arg_cong [OF R(3) [unfolded W(4)], of "\<lambda>bs. bs ! i"] that by (simp add: bytes_at_def)
  have "m2 (dst + of_nat x + of_nat i) = ?m (src + of_nat x + of_nat i)" if "i < csize ty" for i
    using bytes [of "x + i"] assms(7) that by (simp add: add.assoc)
  then have "get_scalars (scalars ty) (dst + of_nat x) m2 = get_scalars (scalars ty) (src + of_nat x) ?m"
    by (rule get_scalars_shift [OF scalars_laid_out(1) [OF ty_sized]])
  then show thesis using that [OF W(1) R(1)] W(4) R(2) get_put [OF assms(8)] by simp
qed

end

lemma load_le_byte: "i < n \<Longrightarrow> n \<le> 8 \<Longrightarrow> m (a + of_nat i) = ucast (drop_bit (8 * i) (load_le n m a))"
proof (induction n arbitrary: a i)
  case (Suc n)
  show ?case
  proof (cases i)
    case 0
    then show ?thesis by (simp add: load_le.simps) (rule bit_word_eqI, auto simp: bit_simps)
  next
    case (Suc j)
    then have "m (a + of_nat i) = ucast (drop_bit (8 * j) (load_le n m (a + 1)))"
      using Suc.IH [of j "a + 1"] Suc.prems by (simp add: add.assoc)
    also have "\<dots> = ucast (drop_bit (8 * i) (load_le (Suc n) m a))"
      using Suc Suc.prems by (intro bit_word_eqI) (auto simp: load_le.simps bit_simps dest: bit_imp_le_length)
    finally show ?thesis .
  qed
qed simp

definition put_blueprint :: "u64 \<Rightarrow> ztfs_blueprint \<Rightarrow> mem \<Rightarrow> mem" where
  "put_blueprint a bp m = put_scalars (scalars struct_ztfs_blueprint) (pack_blueprint bp) a m"

definition get_blueprint :: "u64 \<Rightarrow> mem \<Rightarrow> ztfs_blueprint" where
  "get_blueprint a m = unpack_blueprint (get_scalars (scalars struct_ztfs_blueprint) a m)"

lemma blueprint_signature: "load64 (put_blueprint a bp m) a = signature bp"
proof -
  have "get_blueprint a (put_blueprint a bp m) = bp" by (simp add: get_blueprint_def put_blueprint_def blueprint.get_put)
  then have "signature (get_blueprint a (put_blueprint a bp m)) = signature bp" by simp
  then show ?thesis by (simp add: get_blueprint_def unpack_blueprint_def get_scalars_def blueprint_scalars)
qed

lemma magic_bytes: "load64 m a = ZTFS_MAGIC_SIGNATURE \<Longrightarrow> take 4 (bytes_at m a 512) = bytes_of ''ZTFS''"
proof -
  assume A: "load64 m a = ZTFS_MAGIC_SIGNATURE"
  have "take 4 (bytes_at m a 512) = map (\<lambda>i. m (a + of_nat i)) [0, 1, 2, 3]"
    by (simp add: bytes_at_def take_map take_upt del: upt_Suc) (simp add: upt_rec)
  also have "\<dots> = map (\<lambda>i. ucast (drop_bit (8 * i) ZTFS_MAGIC_SIGNATURE)) [0, 1, 2, 3]"
    using load_le_byte [of 0 8 m a] load_le_byte [of 1 8 m a] load_le_byte [of 2 8 m a] load_le_byte [of 3 8 m a] by (simp add: A)
  finally show ?thesis by (simp add: ZTFS_MAGIC_SIGNATURE_def of_char_of drop_bit_eq_div)
qed


definition small_blueprint :: ztfs_blueprint where
  "small_blueprint = \<lparr>signature = ZTFS_MAGIC_SIGNATURE, version_major = ZTFS_VERSION_MAJOR, version_minor = ZTFS_VERSION_MINOR, bp_block_size = 4096,
     size_bytes = 0x100000, free_blocks = 250, baddr_root_entry = 5, block_group_table_size = 1, baddr_bitmap_start = 3, block_group_size = 256,
     baddr_first_block_group = 4, block_group_count = 1\<rparr>"


text \<open>The same for the descriptors of block groups, of which a sector holds 32, and for entries, of which it holds five; and the table of open files.\<close>

lemma descriptor_on_disk:
  fixes v :: "'d vst"
  assumes "serves bus I disk (blk_request_vq b)" "I (vdev v)" "blk_ready b (kmem (vlib v))" "buf_ok b src" "buf_ok b dst"
    and "(ucast sector :: u64) < blk_capacity b div SECTOR_SIZE" "k < 32"
  obtains v1 v2 :: "'d vst" where "read_write_disk bus b src sector True
      (v\<lparr>vlib := (vlib v)\<lparr>kmem := put_scalars (scalars struct_ztfs_block_group_descriptor) (pack_descriptor d) (src + of_nat (16 * k)) (kmem (vlib v))\<rparr>\<rparr>) = Inr v1"
    "read_write_disk bus b dst sector False v1 = Inr v2"
    "unpack_descriptor (get_scalars (scalars struct_ztfs_block_group_descriptor) (dst + of_nat (16 * k)) (kmem (vlib v2))) = d"
proof -
  have fit: "16 * k + csize struct_ztfs_block_group_descriptor \<le> 512" using assms(7) by (simp add: struct_sizes_fs)
  show thesis by (rule descriptor.on_disk [OF assms(1-6) fit TrueI, of d]) (rule that)
qed

lemma entry_on_disk:
  fixes v :: "'d vst"
  assumes "serves bus I disk (blk_request_vq b)" "I (vdev v)" "blk_ready b (kmem (vlib v))" "buf_ok b src" "buf_ok b dst"
    and "(ucast sector :: u64) < blk_capacity b div SECTOR_SIZE" "k < 5" "length (entry_name e) = 64"
  obtains v1 v2 :: "'d vst" where "read_write_disk bus b src sector True
      (v\<lparr>vlib := (vlib v)\<lparr>kmem := put_scalars (scalars struct_ztfs_entry) (pack_entry e) (src + of_nat (96 * k)) (kmem (vlib v))\<rparr>\<rparr>) = Inr v1"
    "read_write_disk bus b dst sector False v1 = Inr v2"
    "unpack_entry (get_scalars (scalars struct_ztfs_entry) (dst + of_nat (96 * k)) (kmem (vlib v2))) = e"
proof -
  have fit: "96 * k + csize struct_ztfs_entry \<le> 512" using assms(7) by (simp add: struct_sizes_fs)
  show thesis by (rule entries.on_disk [OF assms(1-6) fit assms(8)]) (rule that)
qed

lemma file_slots:
  assumes "i < MAX_DESCRIPTORS" "j < MAX_DESCRIPTORS"
  shows "unpack_FILE (get_scalars (scalars struct_FILE) (table + of_nat (24 * j)) (put_scalars (scalars struct_FILE) (pack_FILE f) (table + of_nat (24 * i)) m)) =
    (if j = i then f else unpack_FILE (get_scalars (scalars struct_FILE) (table + of_nat (24 * j)) m))"
  using files.get_put_array [where n = MAX_DESCRIPTORS and i = i and j = j and s = f and a = table and m = m] assms by (simp add: struct_sizes_fs MAX_DESCRIPTORS_def mult.commute)

end
