(* ===== verification/Spec2Isabelle.thy ===== *)
theory Spec2Isabelle
  imports Klib_Props Memory_Props User_Snprintf User_Shell Gpu_Props Sbi Uart Runtime_Props Runtime_Progress Structs Ztfs
begin

text \<open>
  A verification of Oppo-OS, a kernel for 64-bit RISC-V with Sv39 paging, and of the library and shell
  that run on it. Source files are named relative to \<open>src/\<close>.

  \<^bold>\<open>The program.\<close> \<open>kmain\<close> (\<open>kernel/kernel.c\<close>) sets up the page allocator of \<open>klib/stdlib.c\<close>, the trap vector
  (\<open>arch/trap.c\<close>), the block device (\<open>drivers/virtio\<close>), the idle process and the shell, and
  yields. \<open>create_process\<close> (\<open>kernel/schedule/proc.c\<close>) builds an address space with \<open>map_page\<close>
  (\<open>arch/paging.c\<close>) out of pages from \<open>kalloc\<close>; \<open>yield\<close> picks the next process and switches
  stacks and page tables. A user program traps with \<open>ecall\<close>; the handler saves its registers on its kernel
  stack and dispatches on the call number (\<open>kernel/syscall.c\<close>).

  \<^bold>\<open>Representation.\<close> Memory is a total function from 64-bit addresses to bytes; pointers are addresses, and
  structures in memory (free blocks, page tables, trap and switch frames, virtqueues, pixels, strings) are read and written
  there byte by byte, little-endian, at the offsets of their fields. Integers are words of their C width, so arithmetic wraps as
  the compiled code does. Static variables are records: \<open>kst\<close> (memory, console, allocator), \<open>ksys\<close> (that, the
  process table and the hart), \<open>blk\<close> and \<open>gpu\<close>. Operations that may stop return \<open>fault + result\<close>: \<open>PANIC\<close> is
  \<open>Panic\<close> with its format and arguments, \<open>NullAccess\<close>, \<open>OutOfBounds\<close>, \<open>DivByZero\<close> and \<open>MissingArg\<close> are the undefined accesses that the code
  can run into, and \<open>Hang\<close> is a loop that never ends. The console is the list of bytes sent to it.

  \<^bold>\<open>Theories.\<close>
  \<^item> \<open>Prelude\<close>: words, memory, spans, results, and the collection \<open>mem_simps\<close> of reads after writes.
  \<^item> \<open>Klib_Mem\<close>, \<open>Klib_String\<close>, \<open>Klib_Stdio\<close>: \<open>klib/stdlib.c\<close> (memory routines and \<open>stdlib.h\<close> arithmetic), \<open>klib/string.c\<close>,
    \<open>klib/stdio.c\<close>; each routine is shown equal to an operation on lists of bytes. Properties: \<open>Klib_Props\<close>.
  \<^item> \<open>Layout\<close>: the layout of C structures by the rules of the ABI, and the contract between a record and its structure (locale
    \<open>stored\<close>). \<open>Structs\<close>: the structures that the kernel declares; the addresses that the other theories write as numbers are those of the declared members.
  \<^item> \<open>Page_Source\<close>: the contract of a page allocator (locale \<open>page_source\<close>). \<open>Buddy\<close>: the
    buddy allocator, whose free lists are threaded through the free blocks; its abstraction is the set of free bytes.
    \<open>Buddy_Lists\<close>: blocks, lists and the invariant, and the free lists of a heap of which nothing was freed, which are thin: no order below the largest has two blocks.
    \<open>Buddy_Alloc\<close>: every outcome of allocating and freeing; on thin lists a block is found whenever enough bytes are free. \<open>Buddy_Pages\<close>:
    \<open>init_memory\<close>, and the interpretations of the contract.
  \<^item> \<open>Mapper\<close>: the contract of a page mapper (locale), from which cost and result of building an address space follow.
    \<open>Paging\<close>: \<open>map_page\<close> and \<open>vaddr_to_paddr\<close>; the abstraction of a table is the partial map from page numbers to
    entries, \<open>map_page\<close> is an update of it and \<open>vaddr_to_paddr\<close> a lookup. Properties: \<open>Memory_Props\<close>.
  \<^item> \<open>Cpu\<close>: registers and the \<open>sd\<close>/\<open>ld\<close> sequences. \<open>Sched\<close>: the contract of a fair scheduler (locale). \<open>Proc\<close>:
    \<open>create_process\<close>, \<open>init_proc\<close>, \<open>yield\<close>, \<open>proc_exit\<close>, \<open>switch_context\<close>. \<open>Proc_Space\<close> and
    \<open>Space_Lookup\<close>: the address space of a new process, entry by entry and as lookups. \<open>Switch\<close>: what a process finds when
    it is switched back to.
  \<^item> \<open>Trap\<close>: \<open>kernel_trap_context_save\<close>, \<open>handle_trap\<close>, \<open>syscall_entry\<close>. Properties: \<open>Syscall_Props\<close>.
  \<^item> \<open>Virtio\<close>: \<open>drivers/virtio/virtio.c\<close> and \<open>virtio_blkio.c\<close>. \<open>Virtqueue\<close>: kick, wait and initialisation against a device
    that behaves as specified, for both drivers. \<open>Virtio_Blk\<close>: a transfer and \<open>virtio_blk_init\<close>. Properties: \<open>Driver_Props\<close>.
  \<^item> \<open>Gpu\<close>: \<open>drivers/virtio/virtio_gpu.c\<close>. \<open>Gpu_Screen\<close>: what drawing does to the picture in memory. \<open>Gpu_Device\<close>: \<open>flush\<close> and
    the frames of \<open>bounce\<close>. \<open>Gpu_Init\<close>: \<open>virtio_gpu_init\<close>, command by command. Properties: \<open>Gpu_Props\<close>.
  \<^item> \<open>Ztfs\<close>: \<open>drivers/fs/ztfs.h\<close> and \<open>kernel/fs\<close>: the structures of the file system as records, in memory and through the block device driver
    on the disk, and the table of open files.
  \<^item> \<open>Kernel\<close>: \<open>kmain\<close>, stage by stage, and the transition system of the process table with its invariant. \<open>Example\<close>: a concrete system on which
    properties are instantiated.
  \<^item> \<open>User\<close>: \<open>user/libc/oppostd.c\<close> on top of the trap handler, and \<open>user/shell/shell.c\<close>. Properties: \<open>User_Props\<close>. \<open>User_Stdio\<close>:
    \<open>user/libc/stdio.c\<close> with its arrays in memory and \<open>putc\<close> as an operation that may fail; the contract of such an operation (locale
    \<open>console_port\<close>), under which the output is that of the model of \<open>klib/stdio.c\<close>. \<open>User_Stdio_Props\<close>: the contract for the system call.
    \<open>User_Snprintf\<close>: \<open>snprintf\<close> of the two libraries is the same. \<open>User_Shell\<close>: the shell with every key, byte and exit a system call, which
    refines the model in \<open>User\<close>, and \<open>start\<close>.
  \<^item> \<open>Sbi\<close>: \<open>drivers/boot/sbi.c\<close>, and the contract for the firmware: what the kernel prints is what the firmware has sent. \<open>Uart\<close>:
    \<open>drivers/char_dev/uart.c\<close> and \<open>drivers/time/rtc.c\<close>.
  \<^item> \<open>Runtime\<close>: the machine with all its parts, as a step relation: user code writes where the page table in \<open>satp\<close> lets it, traps,
    enters and leaves the kernel, and is switched. Each process that does not run has a continuation, and the invariant \<open>rt_inv\<close> ties it to the kernel
    stack of the process and keeps the address spaces apart. \<open>Runtime_Boot\<close>: \<open>kmain\<close> establishes it. \<open>Runtime_Props\<close>: what a process can
    reach, and what it keeps while others run. \<open>Runtime_Progress\<close>: no reachable state is stuck. \<open>Runtime_Example\<close>: a running system with two user processes.
  \<^item> This theory: the properties that span components, from the address space of a process to booting.

  \<^bold>\<open>Loops and bounds.\<close> Loops with a bound are structural recursion or have a measure. Scans for a terminator, the
  loop of \<open>memcmp\<close> and the wait for a device are partial functions whose value \<open>None\<close> is the endless run, and that they
  end is a part of the properties. Two loops depend on the outside: \<open>SYS_GETC\<close> on the list of answers that the firmware gives to
  its polls (when it is used up the call is still \<open>Polling\<close>), the shell on the list of keys. The loop of \<open>bounce\<close>, which
  never ends, is the function of the number of its iterations.

  \<^bold>\<open>What is assumed.\<close> A device is a value of type \<open>bus\<close>; \<open>virtio_device\<close>, \<open>serves\<close>, \<open>gpu_serves\<close> and \<open>gpu_sets_up\<close> state what the
  virtio specification says of it and are instantiated by concrete devices in \<open>Driver_Props\<close> and \<open>Gpu_Props\<close>. The firmware is a function of the registers at
  an \<open>ecall\<close>, of which \<open>sbi_console\<close> states the two calls of the legacy console extension; the serial chip is a store operation, of which \<open>ns16550\<close> states
  the registers that are written. User code is any change of registers, program counter and user-writable memory (\<open>user_run\<close>). The linker symbols, the
  address of the trap handler and the addresses of local variables that a device sees are parameters.

  \<^bold>\<open>Not modelled.\<close> The assembly at \<open>boot/entry.s\<close>, which sets the stack pointer; the functions of \<open>kernel/dev/dmng.c\<close> and \<open>drivers/fs/ztfs.c\<close>, whose
  bodies are empty, and those that \<open>kernel/fs/fs.h\<close> and \<open>drivers/fs/ztfs.h\<close> declare without code; their data structures are modelled. The handler's model takes the
  answers that \<open>getc\<close> gets as a list and appends to the console; \<open>Sbi\<close> shows the output for the firmware. \<open>sfence.vma\<close> has no effect, since there is no
  translation cache in the model. Instructions of user code are not interpreted one by one, and its loads, which change nothing, are not modelled; the models of the
  shell and of the user library run over the memory of the process directly. The stack frames of the C code of a trap
  handler are not modelled: between two calls the stack pointer is at the trap frame. \<open>user/libc/string.c\<close>
  repeats four functions of \<open>klib/string.c\<close> word for word and shares their definitions.
\<close>

section \<open>Address spaces\<close>

text \<open>
  (C8) The address space of a new process. In the state \<open>create_process\<close> returns, walking the new
  page table with \<open>vaddr_to_paddr\<close> gives: for a virtual address below \<open>2 ^ 39\<close> in the kernel's range
  or in the range of the eight virtio devices, the address itself; for an address in one of the user
  pages, the byte of one of the pages that were loaded; for every other address, the null pointer.
\<close>

theorem process_address_space:
  assumes "layout_ok s F" "buddy_inv (lib s) F" "image_ok s F img image_size"
    and "ranges_ok (kernel_base s) (heap_end (lib s)) (image_pages image_size)"
    and "create_process img image_size s = Inr (i, s')" "unat a < 2 ^ 39"
  shows "let p = vaddr_to_paddr (kmem (lib s')) (page_table (procs s' ! i)) a in
    (if 0x10001000 \<le> unat a \<and> unat a < 0x10009000 \<or>
        unat (kernel_base s) \<le> unat a \<and> unat a < unat (kernel_base s) + 4096 * kernel_pages (kernel_base s) (heap_end (lib s))
     then p = a
     else if 0x1000000 \<le> unat a \<and> unat a < 0x1000000 + 4096 * image_pages image_size
     then unat p \<in> F \<and> kmem (lib s') p =
       (if unat a - 0x1000000 < unat image_size then kmem (lib s) (img + of_nat (unat a - 0x1000000)) else 0)
     else p = 0)"
proof -
  obtain root pgs F' where P: "find_unused 0 (procs s) = Some i"
    "s' = s\<lparr>lib := lib s', procs := (procs s)[i := \<lparr>pid = of_nat (i + 1), state = PROC_RUNNABLE, psp = stack_top s i - 104, page_table = root\<rparr>]\<rparr>"
    "translation (kmem (lib s')) root = space_of (space_mappings (kernel_base s) (heap_end (lib s)) pgs)"
    "length pgs = image_pages image_size"
    "\<And>k. k < length pgs \<Longrightarrow> pgs ! k \<noteq> 0 \<and> 4096 dvd unat (pgs ! k) \<and> holds_page (kmem (lib s')) (pgs ! k) (kmem (lib s)) img image_size k"
    "owned_bytes (kmem (lib s')) root pgs \<subseteq> F - F'"
    using create_process_plain [OF assms(1,2,3,5)] by metis
  have i: "i < length (procs s)" using find_unused_Some [OF P(1)] by simp
  have root: "page_table (procs s' ! i) = root" using i by (subst P(2)) simp
  have flags: "unat (PAGE_R OR PAGE_W :: u32) < 1024" "unat (PAGE_R OR PAGE_W OR PAGE_X :: u32) < 1024"
    "unat (PAGE_U OR PAGE_R OR PAGE_W OR PAGE_X :: u32) < 1024"
    by (simp_all add: PAGE_R_def PAGE_W_def PAGE_X_def PAGE_U_def)
  have a46: "unat a < 2 ^ 46" using assms(6) by simp
  note L = space_lookup [of "kernel_base s" "heap_end (lib s)" pgs a, unfolded P(4), OF assms(4,6)]
  let ?k = "(unat a - 0x1000000) div 4096" and ?j = "unat a mod 4096"
  have user: "unat (pgs ! ?k + of_nat ?j) \<in> F \<and> unat (pgs ! ?k) < 2 ^ 46 \<and> 4096 dvd unat (pgs ! ?k) \<and>
      kmem (lib s') (pgs ! ?k + of_nat ?j) =
        (if unat a - 0x1000000 < unat image_size then kmem (lib s) (img + of_nat (unat a - 0x1000000)) else 0)"
    if u: "0x1000000 \<le> unat a" "unat a < 0x1000000 + 4096 * image_pages image_size"
  proof -
    have k: "?k < length pgs" using u P(4) by (simp add: less_mult_imp_div_less mult.commute less_diff_conv2)
    note H = P(5) [OF k]
    have split: "4096 * ?k + ?j = unat a - 0x1000000"
    proof -
      have "(unat a - 0x1000000) mod 4096 = ?j" using u(1) mod_diff_eq_nat_4096 [of "unat a"] by simp
      then show ?thesis using mult_div_mod_eq [of 4096 "unat a - 0x1000000"] by simp
    qed
    have page: "page_at (pgs ! ?k) \<subseteq> F" using P(6) nth_mem [OF k] by (auto simp: owned_bytes_def)
    have "unat (pgs ! ?k + of_nat ?j) = unat (pgs ! ?k) + ?j"
      using page_no_wrap [of "pgs ! ?k"] H by (intro unat_plus_of_nat) (simp add: less_le_trans)
    then have "unat (pgs ! ?k + of_nat ?j) \<in> F" using page by (auto simp: page_at_def)
    moreover have "unat (pgs ! ?k) < 2 ^ 46" using page page_ne [of "pgs ! ?k"] assms(1) by (auto simp: layout_ok_def)
    moreover have "?j < 4096" by simp
    ultimately show ?thesis using H split unfolding holds_page_def by metis
  qed
  show ?thesis
    using assms(4) a46 user identity_paddr [OF a46] page_paddr [of "pgs ! ?k" _ a] flags
    by (auto simp: Let_def vaddr_to_paddr_eq root P(3) L ranges_ok_def)
qed


theorem process_address_space_witness:
  "\<exists>k s'. init_memory small_heap = Inr k \<and> create_process 0x80201000 5000 (small_sys k) = Inr (0, s') \<and>
     vaddr_to_paddr (kmem (lib s')) (page_table (procs s' ! 0)) 0x80300008 = 0x80300008 \<and>
     vaddr_to_paddr (kmem (lib s')) (page_table (procs s' ! 0)) 0x10001004 = 0x10001004 \<and>
     kmem (lib s') (vaddr_to_paddr (kmem (lib s')) (page_table (procs s' ! 0)) 0x1001fff) = 0 \<and>
     vaddr_to_paddr (kmem (lib s')) (page_table (procs s' ! 0)) 0x1002000 = 0"
proof -
  obtain k s' where k: "init_memory small_heap = Inr k" "buddy_inv k small_free" "heap_end k = 0x80340000"
    and c: "create_process 0x80201000 5000 (small_sys k) = Inr (0, s')" by (rule small_process)
  have inv: "buddy_inv (lib (small_sys k)) small_free" using k(2) by (simp add: small_sys_def)
  note T = process_address_space [OF small_layout [OF k(3)] inv small_image small_ranges [OF k(3)] c]
  have L: "kernel_base (small_sys k) = 0x80200000" "kernel_pages 0x80200000 (heap_end (lib (small_sys k))) = 320" "image_pages 5000 = 2"
    using k(3) by (simp_all add: small_sys_def kernel_pages_def image_pages_def)
  show ?thesis
    using T [of "0x80300008"] T [of "0x10001004"] T [of "0x1001fff"] T [of "0x1002000"] k(1) c
    by (intro exI [of _ k] exI [of _ s']) (simp add: L Let_def)
qed

text \<open>
  (C9) Protection. Every entry that the page table of a new process has for an address below
  \<open>2 ^ 39\<close> carries the user bit exactly when the address lies in the pages loaded from the program
  image: user mode reaches neither the kernel nor the devices.
\<close>

theorem user_mode_sees_image_only:
  assumes "layout_ok s F" "buddy_inv (lib s) F" "image_ok s F img image_size"
    and "ranges_ok (kernel_base s) (heap_end (lib s)) (image_pages image_size)"
    and "create_process img image_size s = Inr (i, s')" "unat a < 2 ^ 39"
    and "translation (kmem (lib s')) (page_table (procs s' ! i)) (vpns a) = Some pte"
  shows "pte AND ucast PAGE_U \<noteq> 0 \<longleftrightarrow> 0x1000000 \<le> unat a \<and> unat a < 0x1000000 + 4096 * image_pages image_size"
proof -
  obtain root pgs where P: "find_unused 0 (procs s) = Some i"
    "s' = s\<lparr>lib := lib s', procs := (procs s)[i := \<lparr>pid = of_nat (i + 1), state = PROC_RUNNABLE, psp = stack_top s i - 104, page_table = root\<rparr>]\<rparr>"
    "translation (kmem (lib s')) root = space_of (space_mappings (kernel_base s) (heap_end (lib s)) pgs)"
    "length pgs = image_pages image_size"
    using create_process_plain [OF assms(1,2,3,5)] by metis
  have "page_table (procs s' ! i) = root" using find_unused_Some [OF P(1)] by (subst P(2)) simp
  then have L: "space_of (space_mappings (kernel_base s) (heap_end (lib s)) pgs) (vpns a) = Some pte"
    using assms(7) P(3) by simp
  have bits: "(PAGE_U OR PAGE_R OR PAGE_W OR PAGE_X) AND 16 \<noteq> 0" "(PAGE_R OR PAGE_W OR PAGE_X) AND 16 = 0" "(PAGE_R OR PAGE_W) AND 16 = 0"
    "(ucast PAGE_U :: u64) = 16"
    by (simp_all add: PAGE_U_def PAGE_R_def PAGE_W_def PAGE_X_def)
  have "ranges_ok (kernel_base s) (heap_end (lib s)) (length pgs)" using assms(4) P(4) by simp
  from L [unfolded space_lookup [OF this assms(6)]] show ?thesis
    using bits leaf_user_bit unfolding bits(4) P(4) by (auto split: if_splits)
qed

theorem user_mode_sees_image_only_witness:
  "\<exists>k s' pte. init_memory small_heap = Inr k \<and> create_process 0x80201000 5000 (small_sys k) = Inr (0, s') \<and>
     translation (kmem (lib s')) (page_table (procs s' ! 0)) (vpns 0x80300000) = Some pte \<and> pte AND ucast PAGE_U = 0"
proof -
  obtain k s' where k: "init_memory small_heap = Inr k" "buddy_inv k small_free" "heap_end k = 0x80340000"
    and c: "create_process 0x80201000 5000 (small_sys k) = Inr (0, s')" by (rule small_process)
  have inv: "buddy_inv (lib (small_sys k)) small_free" using k(2) by (simp add: small_sys_def)
  note A = small_layout [OF k(3)] inv small_image
  obtain root pgs where P:
    "s' = (small_sys k)\<lparr>lib := lib s', procs := (procs (small_sys k))[0 := \<lparr>pid = of_nat (0 + 1), state = PROC_RUNNABLE, psp = stack_top (small_sys k) 0 - 104, page_table = root\<rparr>]\<rparr>"
    "translation (kmem (lib s')) root = space_of (space_mappings (kernel_base (small_sys k)) (heap_end (lib (small_sys k))) pgs)"
    "length pgs = image_pages 5000"
    using create_process_plain [OF A c] by metis
  have root: "page_table (procs s' ! 0) = root" by (subst P(1)) (simp add: small_sys_def)
  have "ranges_ok (kernel_base (small_sys k)) (heap_end (lib (small_sys k))) (length pgs)" using small_ranges [OF k(3)] P(3) by simp
  from space_lookup [OF this, of "0x80300000"]
  obtain pte where pte: "translation (kmem (lib s')) (page_table (procs s' ! 0)) (vpns 0x80300000) = Some pte"
    using k(3) by (auto simp: root P(2,3) small_sys_def kernel_pages_def image_pages_def)
  then show ?thesis
    using user_mode_sees_image_only [OF A small_ranges [OF k(3)] c, of "0x80300000" pte] k(1) c
    by (auto simp: image_pages_def)
qed

text \<open>
  (C10) Isolation. Creating a process takes its tables and pages out of the free memory: every other
  address space, given by any root whose tables are outside the free memory and outside the new
  process's kernel stack, denotes the same translation afterwards and shares no table with the new
  one; every byte outside the free memory and that stack is unchanged, every other slot of the process table
  too, and the allocator is consistent again with less memory free.
\<close>

theorem create_process_isolates:
  assumes "layout_ok s F" "buddy_inv (lib s) F" "image_ok s F img image_size"
    and "create_process img image_size s = Inr (i, s')"
    and "pt_inv (kmem (lib s)) q F" "table_bytes (kmem (lib s)) q \<inter> stack_region s i = {}"
  shows "\<exists>F'. F' \<subseteq> F \<and> layout_ok s' F' \<and> buddy_inv (lib s') F' \<and>
    card F = card F' + space_cost (kernel_base s) (heap_end (lib s)) (image_pages image_size) \<and>
    pt_inv (kmem (lib s')) q F' \<and> translation (kmem (lib s')) q = translation (kmem (lib s)) q \<and>
    table_bytes (kmem (lib s')) q \<inter> table_bytes (kmem (lib s')) (page_table (procs s' ! i)) = {} \<and>
    (\<forall>j. j \<noteq> i \<longrightarrow> procs s' ! j = procs s ! j) \<and>
    (\<forall>a. unat a \<notin> F \<and> unat a \<notin> stack_region s i \<longrightarrow> kmem (lib s') a = kmem (lib s) a)"
proof -
  obtain root pgs F' where P: "find_unused 0 (procs s) = Some i"
    "s' = s\<lparr>lib := lib s', procs := (procs s)[i := \<lparr>pid = of_nat (i + 1), state = PROC_RUNNABLE, psp = stack_top s i - 104, page_table = root\<rparr>]\<rparr>"
    "pt_state (lib s') root F'" "F' \<subseteq> F" "heap_end (lib s') = heap_end (lib s)"
    "owned_bytes (kmem (lib s')) root pgs \<subseteq> F - F'"
    "\<And>a. unat a \<notin> F \<Longrightarrow> unat a \<notin> stack_region s i \<Longrightarrow> kmem (lib s') a = kmem (lib s) a"
    "card F = card F' + space_cost (kernel_base s) (heap_end (lib s)) (image_pages image_size)"
    using create_process_plain [OF assms(1,2,3,4)] by metis
  have same: "kmem (lib s') a = kmem (lib s) a" if "unat a \<in> table_bytes (kmem (lib s)) q" for a
    using P(7) table_bytes_not_free [OF assms(5) that] assms(6) that by blast
  have tb: "table_bytes (kmem (lib s')) q = table_bytes (kmem (lib s)) q"
    using table_at_cong [OF assms(5) same] by (auto simp: table_bytes_def)
  have root: "page_table (procs s' ! i) = root" using find_unused_Some [OF P(1)] by (subst P(2)) simp
  have "layout_ok s' F'" using P(5) by (intro layout_ok_mono [OF assms(1) P(4)]) (subst P(2), simp)+
  moreover have "\<forall>j. j \<noteq> i \<longrightarrow> procs s' ! j = procs s ! j" by (subst P(2)) simp
  moreover have "table_bytes (kmem (lib s')) q \<inter> table_bytes (kmem (lib s')) root = {}"
    using P(6) table_bytes_not_free [OF assms(5)] tb by (auto simp: owned_bytes_def)
  ultimately show ?thesis
    using P pt_inv_cong [OF assms(5) same P(4)] translation_cong [OF assms(5) same] root
    by (intro exI [of _ F']) (auto simp: pt_state_of_def)
qed

text \<open>A second process next to the first one.\<close>

lemma small_two:
  obtains k s1 s2 F1 where "init_memory small_heap = Inr k" "create_process 0x80201000 5000 (small_sys k) = Inr (0, s1)"
    "layout_ok s1 F1" "buddy_inv (lib s1) F1" "image_ok s1 F1 0x80201000 5000"
    "pt_inv (kmem (lib s1)) (page_table (procs s1 ! 0)) F1"
    "table_bytes (kmem (lib s1)) (page_table (procs s1 ! 0)) \<inter> stack_region s1 1 = {}"
    "create_process 0x80201000 5000 s1 = Inr (1, s2)"
proof -
  obtain k s1 where k: "init_memory small_heap = Inr k" "buddy_inv k small_free" "heap_end k = 0x80340000"
    and c: "create_process 0x80201000 5000 (small_sys k) = Inr (0, s1)" by (rule small_process)
  have inv: "buddy_inv (lib (small_sys k)) small_free" using k(2) by (simp add: small_sys_def)
  obtain root pgs F1 where P:
    "s1 = (small_sys k)\<lparr>lib := lib s1, procs := (procs (small_sys k))[0 := \<lparr>pid = of_nat (0 + 1), state = PROC_RUNNABLE, psp = stack_top (small_sys k) 0 - 104, page_table = root\<rparr>]\<rparr>"
    "pt_state (lib s1) root F1" "F1 \<subseteq> small_free" "heap_end (lib s1) = heap_end (lib (small_sys k))"
    "owned_bytes (kmem (lib s1)) root pgs \<subseteq> small_free - F1"
    "card small_free = card F1 + space_cost (kernel_base (small_sys k)) (heap_end (lib (small_sys k))) (image_pages 5000)"
    using create_process_plain [OF small_layout [OF k(3)] inv small_image c] by metis
  have root: "page_table (procs s1 ! 0) = root" by (subst P(1)) (simp add: small_sys_def)
  have lay: "layout_ok s1 F1" using P(4) by (intro layout_ok_mono [OF small_layout [OF k(3)] P(3)]) (subst P(1), simp)+
  have img: "image_ok s1 F1 0x80201000 5000" by (rule image_ok_mono [OF small_image P(3)]) (subst P(1), simp)
  have reg: "stack_region s1 1 = stack_region (small_sys k) 1" by (subst P(1)) (simp add: stack_region_def)
  have "\<forall>i < 8. stack_region (small_sys k) i \<inter> small_free = {}" using small_layout [OF k(3)] by (simp add: layout_ok_def)
  then have "stack_region s1 1 \<inter> small_free = {}" unfolding reg by (rule allE [of _ 1]) simp
  moreover have "table_bytes (kmem (lib s1)) root \<subseteq> small_free" using P(5) unfolding owned_bytes_def by blast
  ultimately have apart: "table_bytes (kmem (lib s1)) root \<inter> stack_region s1 1 = {}" by blast
  have base: "kernel_base s1 = kernel_base (small_sys k)" by (subst P(1)) simp
  have "space_cost (kernel_base (small_sys k)) (heap_end (lib (small_sys k))) (image_pages 5000) \<le> 36864"
    using space_cost_bound [OF small_ranges [OF k(3)]] k(3)
    by (simp add: space_bound_def regions_def small_sys_def kernel_pages_def image_pages_def VIRTIO_PADDR_def USER_BASE_def)
  then have "space_cost (kernel_base s1) (heap_end (lib s1)) (image_pages 5000) \<le> card F1"
    using P(4,6) base by (simp add: small_free_def)
  moreover have "find_unused 0 (procs s1) = Some 1"
    by (subst P(1)) (simp add: small_sys_def eval_nat_numeral no_process_def PROC_RUNNABLE_def PROC_UNUSED_def)
  moreover have "4096 dvd unat (kernel_base s1)" by (simp add: base small_sys_def)
  moreover have "buddy_inv (lib s1) F1" using P(2) by (simp add: pt_state_of_def)
  ultimately obtain s2 where "create_process 0x80201000 5000 s1 = Inr (1, s2)"
    using create_process_plain_total [OF lay _ img] by blast
  then show thesis
    using that [OF k(1) c lay _ img] P(2) apart root by (simp add: pt_state_of_def)
qed

theorem create_process_isolates_witness:
  "\<exists>k s1 s2. init_memory small_heap = Inr k \<and> create_process 0x80201000 5000 (small_sys k) = Inr (0, s1) \<and>
     create_process 0x80201000 5000 s1 = Inr (1, s2) \<and> procs s2 ! 0 = procs s1 ! 0 \<and>
     translation (kmem (lib s2)) (page_table (procs s1 ! 0)) = translation (kmem (lib s1)) (page_table (procs s1 ! 0))"
proof -
  obtain k s1 s2 F1 where S: "init_memory small_heap = Inr k" "create_process 0x80201000 5000 (small_sys k) = Inr (0, s1)"
    "layout_ok s1 F1" "buddy_inv (lib s1) F1" "image_ok s1 F1 0x80201000 5000"
    "pt_inv (kmem (lib s1)) (page_table (procs s1 ! 0)) F1"
    "table_bytes (kmem (lib s1)) (page_table (procs s1 ! 0)) \<inter> stack_region s1 1 = {}"
    "create_process 0x80201000 5000 s1 = Inr (1, s2)" by (rule small_two)
  then show ?thesis using create_process_isolates [OF S(3,4,5,8,6,7)] by auto
qed

text \<open>
  (C11) \<open>create_process\<close> ends and succeeds, in the first unused slot, with the pid that is the slot's
  index plus one, whenever a slot is unused and the free memory covers a bound computed from
  the layout: the root, the program's pages, and two tables for every two megabytes mapped.
\<close>

theorem create_process_succeeds:
  assumes "layout_ok s F" "buddy_inv (lib s) F" "image_ok s F img image_size"
    and "ranges_ok (kernel_base s) (heap_end (lib s)) (image_pages image_size)"
    and "i < 8" "state (procs s ! i) = PROC_UNUSED" "\<forall>j < i. state (procs s ! j) \<noteq> PROC_UNUSED"
    and "space_bound (kernel_base s) (heap_end (lib s)) (image_pages image_size) \<le> card F"
  shows "\<exists>s'. create_process img image_size s = Inr (i, s') \<and> pid (procs s' ! i) = of_nat (i + 1) \<and>
    state (procs s' ! i) = PROC_RUNNABLE"
proof -
  have len: "length (procs s) = 8" using assms(1) by (simp add: layout_ok_def PROCS_MAX_def)
  obtain j where j: "find_unused 0 (procs s) = Some j"
    using find_unused_None [of 0 "procs s"] len assms(5,6) by (cases "find_unused 0 (procs s)") auto
  have "j = i"
    using find_unused_Some [OF j] assms(6,7) by (metis add_0 diff_zero linorder_neqE_nat)
  have "space_cost (kernel_base s) (heap_end (lib s)) (image_pages image_size) \<le> card F"
    using space_cost_bound [OF assms(4)] assms(8) by linarith
  moreover have "4096 dvd unat (kernel_base s)" using assms(4) by (simp add: ranges_ok_def)
  ultimately obtain s' where c: "create_process img image_size s = Inr (i, s')"
    using create_process_plain_total [OF assms(1-3) _ j] \<open>j = i\<close> by blast
  obtain root sp where "procs s' = (procs s)[i := \<lparr>pid = of_nat (i + 1), state = PROC_RUNNABLE, psp = sp, page_table = root\<rparr>]"
    by (rule create_process_slot [OF c])
  then show ?thesis using c assms(5) len by simp
qed

theorem create_process_succeeds_witness:
  "\<exists>k s'. init_memory small_heap = Inr k \<and> create_process 0x80201000 5000 (small_sys k) = Inr (0, s') \<and> pid (procs s' ! 0) = 1"
proof -
  obtain k where k: "init_memory small_heap = Inr k" "buddy_inv k small_free" "heap_end k = 0x80340000"
    using small_heap_init by metis
  have inv: "buddy_inv (lib (small_sys k)) small_free" using k(2) by (simp add: small_sys_def)
  have "space_bound (kernel_base (small_sys k)) (heap_end (lib (small_sys k))) (image_pages 5000) \<le> card small_free"
    using k(3) by (simp add: space_bound_def regions_def small_sys_def kernel_pages_def image_pages_def small_free_def VIRTIO_PADDR_def USER_BASE_def)
  then show ?thesis
    using create_process_succeeds [OF small_layout [OF k(3)] inv small_image small_ranges [OF k(3)], of 0] k(1)
    by (auto simp: small_sys_def no_process_def)
qed

text \<open>
  With no unused slot \<open>create_process\<close> panics, before it touches anything; a slot whose
  process has exited does not count as unused.
\<close>

theorem create_process_no_slot:
  assumes "\<forall>j < length (procs s). state (procs s ! j) = PROC_RUNNABLE \<or> state (procs s ! j) = PROC_EXITED"
  shows "create_process img image_size s = Inl (Panic ''No free process slots!'' [])"
proof -
  have "find_unused 0 (procs s) = None"
    unfolding find_unused_None using assms by (auto simp: PROC_RUNNABLE_def PROC_EXITED_def PROC_UNUSED_def)
  then show ?thesis by (simp add: create_process_def)
qed

theorem create_process_no_slot_witness:
  "create_process 0x80201000 5000 ((small_sys small_heap)\<lparr>procs := replicate 8 (no_process\<lparr>state := PROC_EXITED\<rparr>)\<rparr>)
     = Inl (Panic ''No free process slots!'' [])"
  by (rule create_process_no_slot) simp

section \<open>Scheduling\<close>

text \<open>
  (C19) \<open>yield\<close> is round robin. With the process table in order, it looks for the runnable slot that
  comes first in cyclic order behind the caller's (behind the last slot, when the caller is the idle
  process), and takes the idle process only when no slot is runnable. If that is the caller itself it
  returns; otherwise the chosen slot is the current one, its stack is in \<open>sscratch\<close> and its table in \<open>satp\<close>.
\<close>

theorem yield_round_robin:
  assumes "table_ok idle (procs s)" "idle_proc s = Some idle" "current_proc s = Some c" "in_use (procs s) c"
  shows "\<exists>n. ((n < 8 \<and> runnable (procs s) n \<and>
        (\<forall>j < 8. runnable (procs s) j \<longrightarrow> (n + (8 - first_slot idle c)) mod 8 \<le> (j + (8 - first_slot idle c)) mod 8)) \<or>
      n = idle \<and> (\<forall>j < 8. \<not> runnable (procs s) j)) \<and>
    (if n = c then yield s = Inr (Back s)
     else \<exists>s'. yield s = Inr (Away s') \<and> current_proc s' = Some n \<and> sscratch (hart s') = stack_top s n \<and>
       satp (hart s') = SATP_SV39 OR page_table (procs s ! n) div PAGE_SIZE)"
  using next_slot_first [OF assms(1,4)] assms(2,3)
  by (intro exI [of _ "next_slot (procs s) idle c"]) (auto simp: yield_def Let_def wait_rank_def new_satp_def)

theorem yield_round_robin_witness: "\<exists>s'. yield three_sys = Inr (Away s') \<and> current_proc s' = Some 2"
proof -
  have "procs three_sys = three_procs" "idle_proc three_sys = Some 0" "current_proc three_sys = Some 1"
    by (simp_all add: three_sys_def)
  then obtain n where n: "(n < 8 \<and> runnable three_procs n \<and>
        (\<forall>j < 8. runnable three_procs j \<longrightarrow> (n + (8 - first_slot 0 1)) mod 8 \<le> (j + (8 - first_slot 0 1)) mod 8)) \<or>
      n = 0 \<and> (\<forall>j < 8. \<not> runnable three_procs j)"
    and y: "if n = 1 then yield three_sys = Inr (Back three_sys)
     else \<exists>s'. yield three_sys = Inr (Away s') \<and> current_proc s' = Some n \<and> sscratch (hart s') = stack_top three_sys n \<and>
       satp (hart s') = SATP_SV39 OR page_table (three_procs ! n) div PAGE_SIZE"
    using yield_round_robin [of 0 three_sys 1] three_table(1,2) by metis
  have f: "first_slot 0 1 = 2" by (simp add: first_slot_def)
  have two: "(2 :: nat) < 8" by simp
  have "(n + (8 - first_slot 0 1)) mod 8 \<le> (2 + (8 - first_slot 0 1)) mod 8" using n three_table(4) two by blast
  then have "(n + 6) mod 8 \<le> 0" unfolding f by simp
  moreover have "n < 8" using n by auto
  ultimately have "n = 2" by (auto simp: less_8)
  then show ?thesis using y by auto
qed

text \<open>
  (C20) Bounded waiting. Along any run of the scheduler (the tables at successive yields are in
  order and no slot in use becomes unused again), a process that stays runnable is picked within
  eight yields, from every point of the run on.
\<close>

theorem yield_bounded_wait:
  assumes "\<forall>t. table_ok idle (P t) \<and> C (Suc t) = next_slot (P t) idle (C t) \<and>
      (\<forall>c. in_use (P t) c \<longrightarrow> in_use (P (Suc t)) c)"
    and "in_use (P 0) (C 0)" "j < 8" "\<forall>t. runnable (P t) j"
  shows "\<exists>d < 8. C (t + Suc d) = j"
proof (rule rr.bounded_wait)
  show "rr.run idle P C" using assms(1,2) by (simp add: rr.run_def)
  show "j < 8 \<and> runnable (P t) j" for t using assms(3,4) by blast
qed

theorem yield_bounded_wait_witness: "\<exists>d < 8. (next_slot three_procs 0 ^^ Suc d) 1 = 2"
  using yield_bounded_wait [of 0 "\<lambda>_. three_procs" "\<lambda>t. (next_slot three_procs 0 ^^ t) 1" 2 0] three_table
  by simp

text \<open>
  (C21) Every reachable process table is in order: whatever sequence of process creations, yields,
  exits, system calls and other work runs, eight slots remain, the current and the idle process are in
  use, slots keep the page table and pid they were given, and two processes never have the same pid.
\<close>

theorem reachable_tables_in_order:
  assumes "sched_inv s" "reaches s s'"
  shows "\<exists>idle cur. idle_proc s' = Some idle \<and> current_proc s' = Some cur \<and> length (procs s') = 8 \<and>
    in_use (procs s') idle \<and> in_use (procs s') cur \<and> pid (procs s' ! idle) = 0 \<and>
    (\<forall>i j. in_use (procs s') i \<longrightarrow> in_use (procs s') j \<longrightarrow> i \<noteq> j \<longrightarrow> pid (procs s' ! i) \<noteq> pid (procs s' ! j))"
proof -
  have inv: "sched_inv s'" using reaches_inv [OF assms(2,1)] by blast
  obtain idle cur where S: "idle_proc s' = Some idle" "current_proc s' = Some cur" "table_ok idle (procs s')" "in_use (procs s') cur"
    "length (procs s') = 8" using sched_inv_current [OF inv] by metis
  have pids: "pid (procs s' ! i) = (if i = idle then 0 else of_nat (i + 1))" "i < 8" if "in_use (procs s') i" for i
    using that S(3) by (auto simp: table_ok_def in_use_def PROCS_MAX_def)
  have num: "unat (of_nat (i + 1) :: u32) = i + 1" if "i < 8" for i
    using that unfolding unat_of_nat by simp
  have nz: "(of_nat (i + 1) :: u32) \<noteq> 0" "of_nat (i + 1) = (of_nat (j + 1) :: u32) \<longleftrightarrow> i = j" if "i < 8" "j < 8" for i j
    using num [OF that(1)] num [OF that(2)] by (metis unat_0 add_is_0 one_neq_zero, metis add_right_cancel)
  have "pid (procs s' ! i) \<noteq> pid (procs s' ! j)" if "in_use (procs s') i" "in_use (procs s') j" "i \<noteq> j" for i j
    using pids [OF that(1)] pids [OF that(2)] nz [of i j] nz [of j i] that(3) by (auto split: if_splits)
  moreover have "in_use (procs s') idle" using S(3) by (simp add: table_ok_def)
  ultimately show ?thesis using S pids(1) [of idle] by (intro exI [of _ idle] exI [of _ cur]) auto
qed

theorem reachable_tables_in_order_witness:
  "\<exists>s'. sched_step three_sys s' \<and> length (procs s') = 8 \<and> in_use (procs s') (the (current_proc s'))"
proof -
  obtain s' where y: "yield three_sys = Inr (Away s')" using three_next by (auto simp: yield_def three_sys_def Let_def)
  have "sched_step three_sys s'" by (rule sched_step.switch [OF y])
  moreover from this have "reaches three_sys s'" by (blast intro: reaches.here reaches.step)
  ultimately show ?thesis using reachable_tables_in_order [OF three_inv] by fastforce
qed

section \<open>Context switches\<close>

text \<open>
  (C22) Context switch round trip. A process \<open>p\<close> that is switched away, and later switched to from any
  other process \<open>q\<close>, continues behind its own call with the return address, the callee-saved registers and the stack
  pointer it had, provided its saved frame and its \<open>sp\<close> field are as it left them and \<open>q\<close> saves its
  own frame elsewhere.
\<close>

theorem context_switch_round_trip:
  assumes "p < length (procs s)" "p \<noteq> n" "p < length (procs s2)" "q \<noteq> p"
    and "psp (procs s2 ! p) = psp (procs (switch_context p n s) ! p)"
    and "\<forall>z \<in> span (regs (hart s) SP - 104) 104. kmem (lib s2) z = kmem (lib (switch_context p n s)) z"
    and "span (regs (hart s2) SP - 104) 104 \<inter> span (regs (hart s) SP - 104) 104 = {}"
  shows "pc (hart (switch_context q p s2)) = regs (hart s) RA \<and>
    (\<forall>y \<in> {RA, SP, S0, S1, S2, S3, S4, S5, S6, S7, S8, S9, S10, S11}.
      regs (hart (switch_context q p s2)) y = regs (hart s) y)"
proof -
  let ?sp = "regs (hart s) SP - 104"
  note W = switch_saves [OF assms(1,2)]
  have sp2: "psp (procs s2 ! p) = ?sp" using assms(5) W(1) by simp
  have "saved_frame (kmem (lib s2)) (psp (procs s2 ! p)) (regs (hart s))"
    unfolding sp2 using assms(6) by (intro saved_frame_cong [OF W(2)]) blast
  note R = switch_restores [OF assms(3,4) this]
  have "span (regs (hart s2) SP - 104) 104 \<inter> span (psp (procs s2 ! p)) 104 = {}" using assms(7) sp2 by simp
  note R = R [OF this]
  show ?thesis using R(1) R(2,3) sp2 by (auto simp: callee_saved_def)
qed

theorem context_switch_round_trip_witness:
  "pc (hart (switch_context 2 1 (switch_context 1 2
      (three_sys\<lparr>hart := reset_hart\<lparr>regs := (\<lambda>_. 0)(SP := 0x80214000, RA := 0x80200444, S3 := 9)\<rparr>\<rparr>)))) = 0x80200444"
proof -
  let ?r = "(\<lambda>_. 0)(SP := 0x80214000, RA := 0x80200444, S3 := 9) :: reg \<Rightarrow> u64"
  let ?s = "three_sys\<lparr>hart := reset_hart\<lparr>regs := ?r\<rparr>\<rparr>"
  let ?s2 = "switch_context 1 2 ?s"
  have ps: "procs ?s = three_procs" "length three_procs = 8" "psp (three_procs ! 2) = 0x80218000"
    by (simp_all add: three_sys_def three_procs_def)
  have "regs (hart ?s2) SP = 0x80218068" using ps by (simp add: switch_context_def Let_def)
  moreover have "span (0x80218068 - 104) 104 \<inter> span (0x80214000 - 104) 104 = {}" by (rule span_disjoint) simp_all
  ultimately show ?thesis
    using context_switch_round_trip [of 1 ?s 2 ?s2 2] ps by (simp add: reset_hart_def)
qed

section \<open>Booting\<close>

text \<open>
  (C1) The kernel boots. From the state in which the boot code calls \<open>kmain\<close>, with memory for the two address
  spaces and the driver and with a version 1 block device on the bus, none of the steps panics, faults or
  runs forever: \<open>kmain\<close> leaves through \<open>yield\<close> into the shell. At that moment the hart is at
  \<open>user_entry\<close> on the shell's kernel stack, with the shell's page table and the trap handler installed,
  the process table is in order with the idle process in slot 0 and the shell in slot 1, and the block
  device driver is ready.
\<close>

theorem kmain_boots:
  assumes "boot_state s F shell shell_size" "blk_device bus I" "I d"
  shows "\<exists>s' b d'. kmain handler bus shell shell_size s d = Inr (s', b, d') \<and>
    current_proc s' = Some 1 \<and> idle_proc s' = Some 0 \<and> sched_inv s' \<and>
    pc (hart s') = user_entry_pc s \<and> regs (hart s') SP = stack_top s 1 \<and> sscratch (hart s') = stack_top s 1 \<and>
    satp (hart s') = new_satp (page_table (procs s' ! 1)) \<and> stvec (hart s') = handler \<and>
    blk_ready b (kmem (lib s')) \<and> blk_capacity b = bus_read64 bus (virtio_reg 0 VIRTR_CFG_O) d' * 512"
  using kmain_runs [OF assms, of handler] by blast

lemma small_boot: "boot_state (small_sys small_heap) small_free 0x80201000 5000"
proof -
  let ?s = "small_sys small_heap"
  have h: "heap_end small_heap = 0x80340000" by (simp add: small_heap_def)
  have r0: "ranges_ok (kernel_base ?s) (heap_end (lib ?s)) (image_pages 0)"
    by (simp add: ranges_ok_def small_sys_def small_heap_def kernel_pages_def image_pages_def)
  have "space_cost (kernel_base ?s) (heap_end (lib ?s)) 0 \<le> 36864"
    "space_cost (kernel_base ?s) (heap_end (lib ?s)) (image_pages 5000) \<le> 36864"
    using space_cost_bound [OF r0] space_cost_bound [OF small_ranges [OF h]]
    by (simp_all add: space_bound_def regions_def small_sys_def small_heap_def kernel_pages_def image_pages_def VIRTIO_PADDR_def USER_BASE_def)
  then have "space_cost (kernel_base ?s) (heap_end (lib ?s)) 0 + 12288 + space_cost (kernel_base ?s) (heap_end (lib ?s)) (image_pages 5000) \<le> card small_free"
    by (simp add: small_free_def)
  moreover have "\<forall>z \<in> span (regs (hart ?s) SP - 104) 104. unat z \<notin> small_free"
  proof
    fix z assume "z \<in> span (regs (hart ?s) SP - 104) 104"
    moreover have "regs (hart ?s) SP - 104 = 0xffffffffffffff98" by (simp add: small_sys_def reset_hart_def)
    ultimately have "z \<in> span 0xffffffffffffff98 104" by (simp only:)
    then show "unat z \<notin> small_free" by (subst (asm) in_span_iff) (simp_all add: small_free_def)
  qed
  moreover have "span (regs (hart ?s) SP - 104) 104 \<inter> span (stack_top ?s 1 - 104) 104 = {}"
    by (rule span_disjoint) (simp_all add: small_sys_def reset_hart_def stack_top_def)
  moreover have "\<forall>j < 8. state (procs ?s ! j) = PROC_UNUSED" by (simp add: small_sys_def no_process_def)
  moreover have "4096 dvd unat (kernel_base ?s)" by (simp add: small_sys_def)
  moreover have "free_lists (lib ?s) = replicate 11 0" "heap_start (lib ?s) = 0x80300000" "heap_end (lib ?s) = 0x80340000"
    by (simp_all add: small_sys_def small_heap_def)
  ultimately show ?thesis
    using small_layout [OF h] small_image [of small_heap] unfolding boot_state_def by (simp add: small_free_def)
qed

theorem kmain_boots_witness:
  "\<exists>s' b d'. kmain 0x80200200 (sync_bus 0) 0x80201000 5000 (small_sys small_heap) (\<lambda>_. replicate 512 7) = Inr (s', b, d') \<and>
     current_proc s' = Some 1 \<and> pc (hart s') = 0x80200100 \<and> stvec (hart s') = 0x80200200 \<and> blk_capacity b = 4096"
proof -
  have "sectors_full (\<lambda>_. replicate 512 7 :: u8 list)" by (simp add: sectors_full_def)
  with kmain_boots [OF small_boot sync_device [of 0], of "\<lambda>_. replicate 512 7" "0x80200200"] show ?thesis
    by (auto simp: small_sys_def sync_bus_def)
qed

lemma kmain_live_inv:
  assumes "boot_state s F shell shell_size" "blk_device bus I" "I d" "kmain handler bus shell shell_size s d = Inr (s', b, d')"
  shows "live_inv (boot_conts, s')" "\<And>j. j < 8 \<Longrightarrow> in_use (procs s') j \<longleftrightarrow> j < 2" "idle_proc s' = Some 0" "current_proc s' = Some 1"
proof -
  show K: "idle_proc s' = Some 0" "current_proc s' = Some 1" using kmain_runs [OF assms(1-3), of handler] assms(4) by auto
  have S: "state (procs s' ! j) = (if j < 2 then PROC_RUNNABLE else PROC_UNUSED)" if "j < 8" for j
    using kmain_runs [OF assms(1-3), of handler] assms(4) that by auto
  show U: "in_use (procs s') j \<longleftrightarrow> j < 2" if "j < 8" for j
    using S [OF that] that by (simp add: in_use_def PROCS_MAX_def PROC_RUNNABLE_def PROC_UNUSED_def)
  have "(boot_conts j = Halted) = (idle_proc s' = Some j \<or> state (procs s' ! j) = PROC_EXITED)" if "j < 8" "in_use (procs s') j" for j
    using S U that K by (auto simp: PROC_RUNNABLE_def PROC_EXITED_def)
  moreover have "state (procs s' ! 1) = PROC_RUNNABLE" using S by simp
  ultimately show "live_inv (boot_conts, s')" using K by (simp add: live_inv_def)
qed

text \<open>
  (C3) From the boot on. In every state that the machine reaches from the one \<open>kmain\<close> leaves, by steps of the shell's code, its traps, and the
  kernel's switches, the invariants of the running kernel hold; the hart is the shell's, or the shell has ended and the idle process has it; the
  shell's address space is the one it got when it was created; and user code can write nothing but the shell's own pages, which are no part of a kernel stack or a page table.
\<close>

theorem booted_kernel_safe:
  assumes "boot_state s F shell shell_size" "blk_device bus I" "I d"
    and "ranges_ok (kernel_base s) (heap_end (lib s)) (image_pages shell_size)"
    and "kmain handler bus shell shell_size s d = Inr (s', b, d')"
    and "rt_reaches (boot_conts, s') (ks, t)"
  shows "rt_inv (ks, t) \<and> live_inv (ks, t) \<and>
    (current_proc t = Some 1 \<or> current_proc t = Some 0 \<and> (\<forall>j < 8. \<not> runnable (procs t) j)) \<and>
    page_table (procs t ! 1) = page_table (procs s' ! 1) \<and>
    translation (kmem (lib t)) (page_table (procs s' ! 1)) = translation (kmem (lib s')) (page_table (procs s' ! 1)) \<and>
    (\<forall>a. current_proc t = Some 1 \<longrightarrow> user_may_write t a \<longrightarrow>
       unat a \<in> user_bytes (kmem (lib s')) (page_table (procs s' ! 1)) \<and> unat a \<notin> stacks t \<and>
       unat a \<notin> table_bytes (kmem (lib t)) (page_table (procs t ! 0)) \<and> unat a \<notin> table_bytes (kmem (lib t)) (page_table (procs t ! 1)))"
proof -
  note L = kmain_live_inv [OF assms(1-3,5)]
  have start: "rt_inv (boot_conts, s')" by (rule kmain_rt_inv [OF assms(1-5)])
  have inv: "rt_inv (ks, t)" "live_inv (ks, t)" using live_reaches [OF assms(6) start L(1)] by simp_all
  have R: "same_spaces s' t" "space_same s' 1 t" using rt_reaches_same [OF assms(6) start] L(2) [of 1] by auto
  have use: "in_use (procs t) j \<longleftrightarrow> j < 2" if "j < 8" for j using R(1) L(2) that by (simp add: same_spaces_def)
  obtain c where c: "current_proc t = Some c" using inv(1) by (auto simp: rt_inv_def elim: sched_inv_current)
  note I = rt_invD [OF inv(1) c]
  have "c < 2" using I(7,8) use by simp
  moreover have "idle_proc t = Some 0" using R(1) L(3) by (simp add: same_spaces_def)
  then have "\<forall>j < 8. \<not> runnable (procs t) j" if "c = 0" using inv(2) c that by (simp add: live_inv_def)
  ultimately have "current_proc t = Some 1 \<or> current_proc t = Some 0 \<and> (\<forall>j < 8. \<not> runnable (procs t) j)" using c by (cases "c = 0") auto
  moreover have "unat a \<in> user_bytes (kmem (lib s')) (page_table (procs s' ! 1)) \<and> unat a \<notin> stacks t \<and>
      unat a \<notin> table_bytes (kmem (lib t)) (page_table (procs t ! 0)) \<and> unat a \<notin> table_bytes (kmem (lib t)) (page_table (procs t ! 1))"
    if "current_proc t = Some 1" "user_may_write t a" for a
  proof -
    have own: "unat a \<in> user_bytes (kmem (lib t)) (root_of t 1)" by (rule may_write_own [OF inv(1) that])
    have "space_apart t 1" using I(3) use [of 1] by (simp add: spaces_ok_def)
    then have "user_bytes (kmem (lib t)) (root_of t 1) \<inter> stacks t = {}"
      "\<And>j. j < 2 \<Longrightarrow> user_bytes (kmem (lib t)) (root_of t 1) \<inter> table_bytes (kmem (lib t)) (root_of t j) = {}"
      using use by (simp_all add: space_apart_def)
    from this(1) this(2) [of 0] this(2) [of 1] show ?thesis using own R(2) by (auto simp: space_same_def)
  qed
  ultimately show ?thesis using inv R(2) by (simp add: space_same_def)
qed

theorem booted_kernel_safe_witness:
  "\<exists>s' b d'. kmain 0x80200200 (sync_bus 0) 0x80201000 5000 (small_sys small_heap) (\<lambda>_. replicate 512 7) = Inr (s', b, d') \<and>
     (\<forall>a. user_may_write s' a \<and> unat a \<in> stacks s' \<longrightarrow> current_proc s' \<noteq> Some 1)"
proof -
  let ?s = "small_sys small_heap" and ?d = "(\<lambda>_. replicate 512 7) :: u64 \<Rightarrow> u8 list"
  have d: "sectors_full ?d" by (simp add: sectors_full_def)
  have r: "ranges_ok (kernel_base ?s) (heap_end (lib ?s)) (image_pages 5000)" by (rule small_ranges) (simp add: small_heap_def)
  obtain s' b d' where K: "kmain 0x80200200 (sync_bus 0) 0x80201000 5000 ?s ?d = Inr (s', b, d')"
    using kmain_runs [where I = sectors_full and d = ?d, OF small_boot sync_device [of 0] d, of "0x80200200"] by blast
  show ?thesis
    using booted_kernel_safe [where I = sectors_full and d = ?d, OF small_boot sync_device [of 0] d r K rt_reaches.rt_here] K by blast
qed

lemma kmain_alone:
  assumes "boot_state s F shell shell_size" "blk_device bus I" "I d" "kmain handler bus shell shell_size s d = Inr (s', b, d')"
  shows "alone (s'\<lparr>hart := h\<rparr>)" "current_proc s' = Some 1" "pid (procs s' ! 1) = 2"
proof -
  have K: "idle_proc s' = Some 0" "current_proc s' = Some 1" "sched_inv s'" using kmain_runs [OF assms(1-3), of handler] assms(4) by auto
  have S: "state (procs s' ! j) = (if j < 2 then PROC_RUNNABLE else PROC_UNUSED)" if "j < 8" for j
    using kmain_runs [OF assms(1-3), of handler] assms(4) that by auto
  have T: "table_ok 0 (procs s')" "in_use (procs s') 1" using K by (auto simp: sched_inv_def)
  have st: "state (procs s' ! 1) = PROC_RUNNABLE" "PROC_RUNNABLE \<noteq> PROC_UNUSED" using S [of 1] by (simp_all add: PROC_RUNNABLE_def PROC_UNUSED_def)
  then have "pid (procs s' ! 1) = of_nat (1 + 1)" using T(1) by (simp add: table_ok_def PROCS_MAX_def)
  then show p: "pid (procs s' ! 1) = 2" by simp
  have "runnable (procs s') j \<longleftrightarrow> j = 1" if "j < 8" for j
    using S [OF that] T(1) st p by (cases "j = 0"; cases "j = 1") (auto simp: runnable_def table_ok_def)
  then show "alone (s'\<lparr>hart := h\<rparr>)" using K T by (simp add: alone_def)
  show "current_proc s' = Some 1" by (rule K(2))
qed



end
